(* ===== verification/Kernel_Prelude.thy ===== *)
theory Kernel_Prelude
  imports Main "HOL-Library.Word" "HOL-Library.Monad_Syntax"
begin

section \<open>Shared vocabulary of the Argentum development\<close>

text \<open>
  Machine integers, error codes, the treatment of \<open>k_assert\<close> and \<open>k_panic\<close>, and the
  generic list and option lemmas the component theories share.

  Conventions used throughout.
  \<^item> A kernel operation that can call \<open>k_panic\<close> (or fail a \<open>k_assert\<close>, which expands to
    one, \<open>kernel/include/kernel/core/assert.h\<close>) returns an \<open>option\<close>: \<open>None\<close> is the panic, which
    never returns to the caller, \<open>Some\<close> is a normal return.  The \<open>do\<close> notation of the option
    monad sequences such operations.
  \<^item> An \<open>int\<close> result follows the C convention of the kernel: zero or positive on success, a
    negated \<open>errno\<close> value on failure.
  \<^item> A critical section protected by a spinlock is one atomic state transformation; the lock
    protocol itself is the subject of its own theory.
\<close>

type_synonym u8 = "8 word"
type_synonym u16 = "16 word"
type_synonym u32 = "32 word"
type_synonym u64 = "64 word"


subsection \<open>Assertions and panics\<close>

definition k_assert :: "bool \<Rightarrow> unit option" where
  "k_assert b = (if b then Some () else None)"

lemma k_assert_True [simp]: "k_assert True = Some ()"
  by (simp add: k_assert_def)

lemma k_assert_False [simp]: "k_assert False = None"
  by (simp add: k_assert_def)

lemma k_assert_eq_Some [simp]: "k_assert b = Some u \<longleftrightarrow> b"
  by (simp add: k_assert_def)

lemma k_assert_eq_None [simp]: "k_assert b = None \<longleftrightarrow> \<not> b"
  by (simp add: k_assert_def)

lemma bind_k_assert [simp]: "Option.bind (k_assert b) f = (if b then f () else None)"
  by (simp add: k_assert_def)

lemma bind_neq_None_iff:
  "Option.bind m f \<noteq> None \<longleftrightarrow> (\<exists>x. m = Some x \<and> f x \<noteq> None)"
  by (cases m) auto

subsection \<open>Error codes\<close>

text \<open>The values of the C library's \<open>errno.h\<close>; the kernel returns them negated.\<close>

definition ENOENT :: int where "ENOENT = 2"
definition EINTR :: int where "EINTR = 4"
definition EIO :: int where "EIO = 5"
definition EBADF :: int where "EBADF = 9"
definition ECHILD :: int where "ECHILD = 10"
definition EAGAIN :: int where "EAGAIN = 11"
definition ENOMEM :: int where "ENOMEM = 12"
definition EFAULT :: int where "EFAULT = 14"
definition EBUSY :: int where "EBUSY = 16"
definition EEXIST :: int where "EEXIST = 17"
definition ENOTDIR :: int where "ENOTDIR = 20"
definition EINVAL :: int where "EINVAL = 22"
definition EMFILE :: int where "EMFILE = 24"
definition ENOSPC :: int where "ENOSPC = 28"
definition EDEADLK :: int where "EDEADLK = 45"
definition ENOTEMPTY :: int where "ENOTEMPTY = 90"
definition ENAMETOOLONG :: int where "ENAMETOOLONG = 91"
definition ETIMEDOUT :: int where "ETIMEDOUT = 116"

lemmas errno_defs = ENOENT_def EINTR_def EIO_def EBADF_def ECHILD_def EAGAIN_def ENOMEM_def
  EFAULT_def EBUSY_def EEXIST_def ENOTDIR_def EINVAL_def EMFILE_def ENOSPC_def EDEADLK_def
  ENOTEMPTY_def ENAMETOOLONG_def ETIMEDOUT_def

subsection \<open>Lists\<close>

lemma filter_neq_remove1:
  "distinct xs \<Longrightarrow> filter (\<lambda>x. x \<noteq> a) xs = remove1 a xs"
  by (simp add: distinct_remove1_removeAll removeAll_filter_not_eq) (metis (mono_tags))

lemma filter_neq_id [simp]: "a \<notin> set xs \<Longrightarrow> filter (\<lambda>x. x \<noteq> a) xs = xs"
  by (induction xs) auto

lemma take_Suc_snoc: "n < length xs \<Longrightarrow> take (Suc n) xs = take n xs @ [xs ! n]"
  by (simp add: take_Suc_conv_app_nth)

lemma nth_list_update_if:
  "i < length xs \<Longrightarrow> xs[j := v] ! i = (if i = j then v else xs ! i)"
  by (auto simp: nth_list_update)

subsection \<open>C integers\<close>

text \<open>The value of a 32-bit unsigned number converted to \<open>int\<close>.\<close>

definition to_s32 :: "int \<Rightarrow> int" where
  "to_s32 x = (if x mod 2 ^ 32 < 2 ^ 31 then x mod 2 ^ 32 else x mod 2 ^ 32 - 2 ^ 32)"

lemma to_s32_small [simp]: "0 \<le> x \<Longrightarrow> x < 2147483648 \<Longrightarrow> to_s32 x = x"
  by (simp add: to_s32_def)

end
