(* ===== verification/K_List.thy ===== *)
theory K_List
  imports Kernel_Prelude
begin

section \<open>Intrusive doubly-linked lists\<close>

text \<open>
  Models \<open>kernel/include/kernel/core/list.h\<close>: the circular doubly-linked lists every other
  kernel structure is threaded on.  A link is an address of type \<open>'p\<close>; the memory holding the
  links is a record of the two pointer fields, \<open>K_NULL\<close> being \<open>None\<close>.  The list operations are
  the pointer assignments of the header in their order; a dereference of \<open>K_NULL\<close> and a failed
  assertion are \<open>None\<close>.

  The predicate \<open>list_rep h head xs\<close> says that the list headed by \<open>head\<close> holds exactly the links
  \<open>xs\<close>, in this order.  The operations are proved to implement the corresponding operations on
  HOL lists, and to leave every list with other links alone; the later theories therefore
  keep a kernel list as an HOL list of its elements.
\<close>

subsection \<open>The memory of links and the operations\<close>

record 'p links =
  lnext :: "'p \<Rightarrow> 'p option"
  lprev :: "'p \<Rightarrow> 'p option"

definition set_next :: "'p \<Rightarrow> 'p option \<Rightarrow> 'p links \<Rightarrow> 'p links" where
  "set_next p v h = h\<lparr>lnext := (lnext h)(p := v)\<rparr>"

definition set_prev :: "'p \<Rightarrow> 'p option \<Rightarrow> 'p links \<Rightarrow> 'p links" where
  "set_prev p v h = h\<lparr>lprev := (lprev h)(p := v)\<rparr>"

definition k_list_init :: "'p \<Rightarrow> 'p links \<Rightarrow> 'p links" where
  "k_list_init head h = set_prev head (Some head) (set_next head (Some head) h)"

definition k_list_null :: "'p \<Rightarrow> 'p links \<Rightarrow> 'p links" where
  "k_list_null link h = set_prev link None (set_next link None h)"

definition k_list_is_empty :: "'p \<Rightarrow> 'p links \<Rightarrow> bool" where
  "k_list_is_empty head h \<longleftrightarrow> lnext h head = Some head"

definition k_list_is_null :: "'p \<Rightarrow> 'p links \<Rightarrow> bool" where
  "k_list_is_null link h \<longleftrightarrow> lnext h link = None \<and> lprev h link = None"

definition k_list_add_front :: "'p \<Rightarrow> 'p \<Rightarrow> 'p links \<Rightarrow> 'p links option" where
  "k_list_add_front head link h = do {
     k_assert (k_list_is_null link h);
     let h = set_next link (lnext h head) h;
     n \<leftarrow> lnext h head;
     let h = set_prev n (Some link) h;
     let h = set_next head (Some link) h;
     Some (set_prev link (Some head) h)
   }"

definition k_list_add_back :: "'p \<Rightarrow> 'p \<Rightarrow> 'p links \<Rightarrow> 'p links option" where
  "k_list_add_back head link h = do {
     k_assert (k_list_is_null link h);
     let h = set_prev link (lprev h head) h;
     p \<leftarrow> lprev h head;
     let h = set_next p (Some link) h;
     let h = set_prev head (Some link) h;
     Some (set_next link (Some head) h)
   }"

definition k_list_remove :: "'p \<Rightarrow> 'p links \<Rightarrow> 'p links" where
  "k_list_remove link h =
     (let h = (case lprev h link of None \<Rightarrow> h | Some p \<Rightarrow> set_next p (lnext h link) h);
          h = (case lnext h link of None \<Rightarrow> h | Some n \<Rightarrow> set_prev n (lprev h link) h)
      in set_prev link None (set_next link None h))"

text \<open>
  \<open>K_LIST_FOREACH\<close> visits \<open>lp = head->next\<close>, \<open>lp->next\<close>, \dots\ until it is back at \<open>head\<close>.  The
  model returns the visited links; the fuel bounds the number of visits and \<open>None\<close> is a null
  dereference or a walk that does not come back.
\<close>

fun k_list_walk :: "nat \<Rightarrow> 'p links \<Rightarrow> 'p \<Rightarrow> 'p \<Rightarrow> 'p list option" where
  "k_list_walk 0 h head lp = None"
| "k_list_walk (Suc fuel) h head lp =
     (if lp = head then Some []
      else do { n \<leftarrow> lnext h lp; rest \<leftarrow> k_list_walk fuel h head n; Some (lp # rest) })"

definition k_list_foreach :: "nat \<Rightarrow> 'p \<Rightarrow> 'p links \<Rightarrow> 'p list option" where
  "k_list_foreach fuel head h = do { n \<leftarrow> lnext h head; k_list_walk fuel h head n }"

lemmas k_list_defs = set_next_def set_prev_def k_list_init_def k_list_null_def
  k_list_is_empty_def k_list_is_null_def k_list_add_front_def k_list_add_back_def
  k_list_remove_def

subsection \<open>The representation of a list\<close>

text \<open>\<open>dseg h a xs b\<close>: following \<open>next\<close> from \<open>a\<close> visits \<open>xs\<close> and arrives at \<open>b\<close>, and the
  \<open>prev\<close> pointers run the same way back.\<close>

fun dseg :: "'p links \<Rightarrow> 'p \<Rightarrow> 'p list \<Rightarrow> 'p \<Rightarrow> bool" where
  "dseg h a [] b \<longleftrightarrow> lnext h a = Some b \<and> lprev h b = Some a"
| "dseg h a (x # xs) b \<longleftrightarrow> lnext h a = Some x \<and> lprev h x = Some a \<and> dseg h x xs b"

definition list_rep :: "'p links \<Rightarrow> 'p \<Rightarrow> 'p list \<Rightarrow> bool" where
  "list_rep h head xs \<longleftrightarrow> dseg h head xs head \<and> distinct (head # xs)"

lemma dseg_append [simp]: "dseg h a (xs @ y # ys) b \<longleftrightarrow> dseg h a xs y \<and> dseg h y ys b"
  by (induction xs arbitrary: a) auto

lemma dseg_cong:
  assumes "\<And>p. p \<in> set (a # xs) \<Longrightarrow> lnext h' p = lnext h p"
    and "\<And>p. p \<in> set (xs @ [b]) \<Longrightarrow> lprev h' p = lprev h p"
  shows "dseg h' a xs b = dseg h a xs b"
  using assms by (induction xs arbitrary: a) auto

lemma dseg_linked:
  assumes "dseg h a xs b" and "p \<in> set (a # xs)"
  shows "lnext h p \<noteq> None"
  using assms by (induction xs arbitrary: a) auto

lemma dseg_last: "dseg h a xs b \<Longrightarrow> lprev h b = Some (last (a # xs))"
  by (induction xs arbitrary: a) auto

lemma list_rep_head_prev: "list_rep h head xs \<Longrightarrow> lprev h head = Some (last (head # xs))"
  unfolding list_rep_def by (blast intro: dseg_last)

text \<open>A ring may be read from any of its links.\<close>

lemma list_rep_rotate: "list_rep h head (xs @ l # ys) \<longleftrightarrow> list_rep h l (ys @ head # xs)"
  by (auto simp: list_rep_def)

lemma list_rep_not_null:
  "list_rep h head xs \<Longrightarrow> p \<in> set (head # xs) \<Longrightarrow> \<not> k_list_is_null p h"
  unfolding list_rep_def k_list_is_null_def by (meson dseg_linked)

lemma list_rep_head_next: "list_rep h head xs \<Longrightarrow> lnext h head = Some (hd (xs @ [head]))"
  by (cases xs) (auto simp: list_rep_def)

lemma k_list_is_empty_iff: "list_rep h head xs \<Longrightarrow> k_list_is_empty head h \<longleftrightarrow> xs = []"
  by (cases xs) (auto simp: list_rep_def k_list_is_empty_def)

subsection \<open>The operations implement the list operations\<close>

lemma k_list_init_rep: "list_rep (k_list_init head h) head []"
  by (simp add: list_rep_def k_list_init_def set_next_def set_prev_def)

lemma add_back_ring:
  assumes rep: "list_rep h head xs" and null: "k_list_is_null l h"
  obtains h' where "k_list_add_back head l h = Some h'" and "list_rep h' head (xs @ [l])"
proof -
  have l: "l \<noteq> head" "l \<notin> set xs"
    using list_rep_not_null [OF rep] null by auto
  from rep have d: "distinct (head # xs)" and seg: "dseg h head xs head"
    by (auto simp: list_rep_def)
  from dseg_last [OF seg] have last: "lprev h head = Some (last (head # xs))" .
  let ?h = "set_next l (Some head) (set_prev head (Some l)
              (set_next (last (head # xs)) (Some l)
                (set_prev l (Some (last (head # xs))) h)))"
  have op: "k_list_add_back head l h = Some ?h"
    using null last l by (simp add: k_list_add_back_def set_prev_def Let_def)
  have "dseg ?h head (xs @ [l]) head"
  proof (cases xs rule: rev_cases)
    case Nil
    then show ?thesis using l by (auto simp: set_next_def set_prev_def)
  next
    case (snoc ys y)
    have "dseg ?h head ys y = dseg h head ys y"
      by (rule dseg_cong) (use d l snoc in \<open>auto simp: set_next_def set_prev_def\<close>)
    then show ?thesis
      using seg l d snoc by (auto simp: set_next_def set_prev_def)
  qed
  with d l have "list_rep ?h head (xs @ [l])" by (auto simp: list_rep_def)
  with op show thesis by (rule that)
qed

text \<open>\<open>k_list_add_back\<close> on an inner link inserts just before it: the kernel uses this to keep
  its sorted queues.\<close>

lemma insert_before_ring:
  assumes rep: "list_rep h head (xs @ l # ys)" and null: "k_list_is_null n h"
  obtains h' where "k_list_add_back l n h = Some h'" and "list_rep h' head (xs @ n # l # ys)"
proof -
  from rep have "list_rep h l (ys @ head # xs)" by (simp only: list_rep_rotate)
  from add_back_ring [OF this null] obtain h' where op: "k_list_add_back l n h = Some h'"
    and r: "list_rep h' l (ys @ head # xs @ [n])" by auto
  from r have "list_rep h' head ((xs @ [n]) @ l # ys)" by (subst list_rep_rotate) simp
  with op show thesis by (auto intro: that)
qed

lemma add_front_is_add_back:
  assumes rep: "list_rep h head xs" and null: "k_list_is_null l h"
  shows "k_list_add_front head l h = k_list_add_back (hd (xs @ [head])) l h"
proof -
  have nl: "l \<noteq> head" using list_rep_not_null [OF rep] null by auto
  have nx: "lnext h head = Some (hd (xs @ [head]))" by (rule list_rep_head_next [OF rep])
  have pv: "lprev h (hd (xs @ [head])) = Some head"
    using rep by (cases xs) (auto simp: list_rep_def)
  have hl: "hd (xs @ [head]) \<noteq> l"
    using list_rep_not_null [OF rep] null by (cases xs) auto
  show ?thesis
    unfolding k_list_add_front_def k_list_add_back_def
    using null nx pv nl hl by (auto simp: set_next_def set_prev_def fun_upd_twist)
qed

lemma add_front_ring:
  assumes rep: "list_rep h head xs" and null: "k_list_is_null l h"
  obtains h' where "k_list_add_front head l h = Some h'" and "list_rep h' head (l # xs)"
proof (cases xs)
  case Nil
  with add_back_ring [OF rep null] add_front_is_add_back [OF rep null] that
  show thesis by auto
next
  case (Cons x ys)
  from rep have "list_rep h head ([] @ x # ys)" using Cons by simp
  from insert_before_ring [OF this null] obtain h' where
    "k_list_add_back x l h = Some h'" "list_rep h' head (l # x # ys)" by auto
  with add_front_is_add_back [OF rep null] Cons that show thesis by simp
qed

lemma remove_ring:
  assumes rep: "list_rep h l (n # ws)"
  shows "list_rep (k_list_remove l h) n ws" and "k_list_is_null l (k_list_remove l h)"
proof -
  from rep have d: "distinct (l # n # ws)" and seg: "dseg h l (n # ws) l"
    by (auto simp: list_rep_def)
  have nx: "lnext h l = Some n" using seg by simp
  have pv: "lprev h l = Some (last (n # ws))" using dseg_last [OF seg] by simp
  have ne: "last (n # ws) \<noteq> l" using d by (metis distinct.simps(2) last_in_set list.distinct(1))
  let ?h = "set_prev l None (set_next l None (set_prev n (Some (last (n # ws)))
              (set_next (last (n # ws)) (Some n) h)))"
  have op: "k_list_remove l h = ?h"
    using nx pv ne by (simp add: k_list_remove_def set_next_def Let_def)
  have "dseg ?h n ws n"
  proof (cases ws rule: rev_cases)
    case Nil
    then show ?thesis using d by (auto simp: set_next_def set_prev_def)
  next
    case (snoc vs p)
    have "dseg ?h n vs p = dseg h n vs p"
      by (rule dseg_cong) (use d snoc in \<open>auto simp: set_next_def set_prev_def\<close>)
    then show ?thesis
      using seg d snoc by (auto simp: set_next_def set_prev_def)
  qed
  with d op show "list_rep (k_list_remove l h) n ws" by (auto simp: list_rep_def)
  show "k_list_is_null l (k_list_remove l h)"
    by (simp add: op k_list_is_null_def set_next_def set_prev_def)
qed

lemma k_list_remove_rep:
  assumes rep: "list_rep h head (xs @ l # ys)"
  shows "list_rep (k_list_remove l h) head (xs @ ys)"
proof (cases ys)
  case Nil
  with rep have "list_rep h l (head # xs)" using list_rep_rotate [of h head xs l "[]"] by simp
  from remove_ring(1) [OF this] show ?thesis using Nil by simp
next
  case (Cons n zs)
  with rep have "list_rep h l (n # (zs @ head # xs))"
    using list_rep_rotate [of h head xs l ys] by simp
  from remove_ring(1) [OF this] show ?thesis
    using Cons by (simp add: list_rep_rotate [of _ head xs n zs])
qed

lemma k_list_remove_null:
  assumes "list_rep h head (xs @ l # ys)"
  shows "k_list_is_null l (k_list_remove l h)"
proof -
  from assms have "list_rep h l (ys @ head # xs)" by (simp only: list_rep_rotate)
  then show ?thesis by (cases ys) (auto dest: remove_ring(2))
qed

subsection \<open>Other lists are left alone\<close>

definition links_agree :: "'p set \<Rightarrow> 'p links \<Rightarrow> 'p links \<Rightarrow> bool" where
  "links_agree A h h' \<longleftrightarrow> (\<forall>p\<in>A. lnext h' p = lnext h p \<and> lprev h' p = lprev h p)"

lemma list_rep_frame:
  assumes "list_rep h head xs" and "links_agree (set (head # xs)) h h'"
  shows "list_rep h' head xs"
proof -
  have "dseg h' head xs head = dseg h head xs head"
    by (rule dseg_cong) (use assms(2) in \<open>auto simp: links_agree_def\<close>)
  with assms(1) show ?thesis by (simp add: list_rep_def)
qed

lemma add_back_frame:
  assumes rep: "list_rep h head xs" and op: "k_list_add_back head l h = Some h'"
    and A: "A \<inter> set (l # head # xs) = {}"
  shows "links_agree A h h'"
proof -
  from rep have "lprev h head = Some (last (head # xs))"
    by (rule list_rep_head_prev)
  moreover have "last (head # xs) \<in> set (head # xs)" by (rule last_in_set) simp
  ultimately show ?thesis
    using op A by (auto simp: links_agree_def k_list_add_back_def set_next_def set_prev_def
        Let_def split: if_splits)
qed

lemma remove_frame:
  assumes rep: "list_rep h head (xs @ l # ys)" and A: "A \<inter> set (head # xs @ l # ys) = {}"
  shows "links_agree A h (k_list_remove l h)"
proof -
  from rep have r: "list_rep h l (ys @ head # xs)" by (simp only: list_rep_rotate)
  have "lnext h l = Some (hd (ys @ head # xs))"
    using list_rep_head_next [OF r] by (cases ys) auto
  moreover from r have "lprev h l = Some (last (l # ys @ head # xs))"
    by (rule list_rep_head_prev)
  moreover have "last (l # ys @ head # xs) \<in> set (l # ys @ head # xs)"
    by (rule last_in_set) simp
  moreover have "hd (ys @ head # xs) \<in> set (ys @ head # xs)" by (rule hd_in_set) simp
  ultimately show ?thesis
    using A by (auto simp: links_agree_def k_list_remove_def set_next_def set_prev_def Let_def)
qed

subsection \<open>Traversal\<close>

lemma k_list_walk_seg:
  "dseg h a xs head \<Longrightarrow> head \<notin> set xs \<Longrightarrow> length xs < fuel \<Longrightarrow>
   Option.bind (lnext h a) (k_list_walk fuel h head) = Some xs"
proof (induction xs arbitrary: a fuel)
  case Nil
  then show ?case by (cases fuel) auto
next
  case (Cons x xs)
  then obtain f where "fuel = Suc f" by (cases fuel) auto
  with Cons.prems Cons.IH [of x f] show ?case
    by (cases "lnext h x") auto
qed

lemma k_list_foreach_rep:
  "list_rep h head xs \<Longrightarrow> length xs < fuel \<Longrightarrow> k_list_foreach fuel head h = Some xs"
  by (simp add: k_list_foreach_def list_rep_def k_list_walk_seg)

subsection \<open>The interface of kernel lists\<close>

text \<open>
  What the rest of the kernel relies on: a detached link can be put in front of, behind or
  inside a list, a linked one can be taken out and is detached again, and lists that share no
  link with the changed one keep their contents.
\<close>

locale intrusive_list =
  fixes rep :: "'h \<Rightarrow> 'p \<Rightarrow> 'p list \<Rightarrow> bool"
    and detached :: "'p \<Rightarrow> 'h \<Rightarrow> bool"
    and add_back :: "'p \<Rightarrow> 'p \<Rightarrow> 'h \<Rightarrow> 'h option"
    and remove :: "'p \<Rightarrow> 'h \<Rightarrow> 'h"
  assumes rep_distinct: "rep h q xs \<Longrightarrow> distinct (q # xs)"
    and linked_not_detached: "rep h q xs \<Longrightarrow> p \<in> set (q # xs) \<Longrightarrow> \<not> detached p h"
    and add_back_rep: "rep h q xs \<Longrightarrow> detached l h \<Longrightarrow>
      \<exists>h'. add_back q l h = Some h' \<and> rep h' q (xs @ [l])"
    and add_back_other: "rep h q xs \<Longrightarrow> detached l h \<Longrightarrow> add_back q l h = Some h' \<Longrightarrow>
      rep h r ys \<Longrightarrow> set (r # ys) \<inter> set (q # xs) = {} \<Longrightarrow> rep h' r ys"
    and remove_rep: "rep h q (xs @ l # ys) \<Longrightarrow> rep (remove l h) q (xs @ ys)"
    and remove_detached: "rep h q (xs @ l # ys) \<Longrightarrow> detached l (remove l h)"
    and remove_other: "rep h q (xs @ l # ys) \<Longrightarrow> rep h r zs \<Longrightarrow>
      set (r # zs) \<inter> set (q # xs @ l # ys) = {} \<Longrightarrow> rep (remove l h) r zs"
begin

text \<open>Moving a link from one list to the back of another: the step every wake-up, every
  requeue and every free-list operation of the kernel is made of.\<close>

lemma move_to_back:
  assumes src: "rep h q (xs @ l # ys)" and dst: "rep h r zs"
    and dis: "set (r # zs) \<inter> set (q # xs @ l # ys) = {}"
  shows "\<exists>h'. add_back r l (remove l h) = Some h' \<and> rep h' q (xs @ ys) \<and> rep h' r (zs @ [l])"
proof -
  have 1: "rep (remove l h) q (xs @ ys)" by (rule remove_rep [OF src])
  have 2: "rep (remove l h) r zs" by (rule remove_other [OF src dst dis])
  have 3: "detached l (remove l h)" by (rule remove_detached [OF src])
  from add_back_rep [OF 2 3] obtain h' where h': "add_back r l (remove l h) = Some h'"
    "rep h' r (zs @ [l])" by blast
  have "rep h' q (xs @ ys)"
    by (rule add_back_other [OF 2 3 h'(1) 1]) (use dis in auto)
  with h' show ?thesis by blast
qed

text \<open>Building a list by successive \<open>add_back\<close>s of detached links.\<close>

lemma move_all:
  assumes "rep h q xs" and "rep h r zs" and "set (r # zs) \<inter> set (q # xs) = {}"
  shows "\<exists>h'. fold (\<lambda>l m. Option.bind m (\<lambda>h. add_back r l (remove l h))) xs (Some h) = Some h'
           \<and> rep h' q [] \<and> rep h' r (zs @ xs)"
  using assms
proof (induction xs arbitrary: h zs)
  case Nil
  then show ?case by simp
next
  case (Cons x xs)
  from move_to_back [of h q "[]" x xs r zs] Cons.prems obtain h1 where
    h1: "add_back r x (remove x h) = Some h1" "rep h1 q xs" "rep h1 r (zs @ [x])" by auto
  have "set (r # zs @ [x]) \<inter> set (q # xs) = {}"
    using Cons.prems rep_distinct [OF Cons.prems(1)] by auto
  from Cons.IH [OF h1(2) h1(3) this] h1(1) show ?case by simp
qed

end

interpretation klist: intrusive_list list_rep k_list_is_null k_list_add_back k_list_remove
proof unfold_locales
  fix h :: "'p links" and q xs
  assume "list_rep h q xs"
  then show "distinct (q # xs)" by (simp add: list_rep_def)
next
  fix h :: "'p links" and q xs p
  assume "list_rep h q xs" "p \<in> set (q # xs)"
  then show "\<not> k_list_is_null p h" by (rule list_rep_not_null)
next
  fix h :: "'p links" and q xs l
  assume "list_rep h q xs" "k_list_is_null l h"
  then show "\<exists>h'. k_list_add_back q l h = Some h' \<and> list_rep h' q (xs @ [l])"
    by (meson add_back_ring)
next
  fix h :: "'p links" and q xs l h' r ys
  assume a: "list_rep h q xs" "k_list_is_null l h" "k_list_add_back q l h = Some h'"
    "list_rep h r ys" "set (r # ys) \<inter> set (q # xs) = {}"
  have "l \<notin> set (r # ys)" using list_rep_not_null [OF a(4)] a(2) by blast
  with a(5) have "set (r # ys) \<inter> set (l # q # xs) = {}" by auto
  from add_back_frame [OF a(1,3) this] show "list_rep h' r ys"
    by (rule list_rep_frame [OF a(4)])
next
  fix h :: "'p links" and q xs l ys
  assume "list_rep h q (xs @ l # ys)"
  then show "list_rep (k_list_remove l h) q (xs @ ys)" by (rule k_list_remove_rep)
next
  fix h :: "'p links" and q xs l ys
  assume "list_rep h q (xs @ l # ys)"
  then show "k_list_is_null l (k_list_remove l h)" by (rule k_list_remove_null)
next
  fix h :: "'p links" and q xs l ys r zs
  assume a: "list_rep h q (xs @ l # ys)" "list_rep h r zs"
    "set (r # zs) \<inter> set (q # xs @ l # ys) = {}"
  from remove_frame [OF a(1,3)] show "list_rep (k_list_remove l h) r zs"
    by (rule list_rep_frame [OF a(2)])
qed

subsection \<open>Moving a link\<close>

text \<open>
  C1: removing a link from the ring it is on and appending it to another ring never fails its
  assertion, leaves the first list without the link and in its old order, and makes the link
  the last one of the second list; both rings stay well linked in both directions.
\<close>

theorem k_list_move:
  assumes "list_rep h q (xs @ l # ys)" and "list_rep h r zs"
    and "set (r # zs) \<inter> set (q # xs @ l # ys) = {}"
  shows "\<exists>h'. k_list_add_back r l (k_list_remove l h) = Some h' \<and>
    list_rep h' q (xs @ ys) \<and> list_rep h' r (zs @ [l])"
  by (rule klist.move_to_back [OF assms])

definition two_rings :: "nat links" where
  "two_rings =
     \<lparr>lnext = (\<lambda>p. None)(0 := Some 1, 1 := Some 2, 2 := Some 0, 10 := Some 11, 11 := Some 10),
      lprev = (\<lambda>p. None)(1 := Some 0, 2 := Some 1, 0 := Some 2, 11 := Some 10, 10 := Some 11)\<rparr>"

theorem k_list_move_witness:
  "list_rep two_rings 0 ([] @ 1 # [2]) \<and> list_rep two_rings 10 [11] \<and>
   (\<exists>h'. k_list_add_back 10 1 (k_list_remove 1 two_rings) = Some h' \<and>
      list_rep h' 0 [2] \<and> list_rep h' 10 [11, 1])"
proof -
  have a: "list_rep two_rings 0 ([] @ 1 # [2])" and b: "list_rep two_rings 10 [11]"
    by (simp_all add: list_rep_def two_rings_def)
  from k_list_move [OF a b] a b show ?thesis by simp
qed

end
