(* ===== verification/K_Timeout.thy ===== *)
theory K_Timeout
  imports Kernel_Prelude
begin

section \<open>Timeout queues\<close>

text \<open>
  Models \<open>kernel/core/timeout.c\<close>.  A timeout queue keeps its entries in the order in which they
  expire; an entry stores the number of ticks that remain after its predecessor expired.  A
  queue is the list of its entries with these differences; ticks (\<open>k_tick_t\<close>, 64 bits wide and
  advanced once per timer interrupt) are integers.  An entry that is not in the list is one whose
  link is null.

  The abstract view is \<open>deadlines\<close>: each entry with the number of ticks until it expires.
\<close>

type_synonym 'e tqueue = "('e \<times> int) list"

subsection \<open>Operations\<close>

fun timeout_insert :: "'e \<Rightarrow> int \<Rightarrow> 'e tqueue \<Rightarrow> 'e tqueue" where
  "timeout_insert e r [] = [(e, r)]"
| "timeout_insert e r ((e', r') # q) =
     (if r' > r then (e, r) # (e', r' - r) # q
      else (e', r') # timeout_insert e (r - r') q)"

definition timeout_queue_add :: "'e \<Rightarrow> int \<Rightarrow> 'e tqueue \<Rightarrow> 'e tqueue option" where
  "timeout_queue_add e delay q = do {
     k_assert (delay > 0);
     k_assert (e \<notin> fst ` set q);
     Some (timeout_insert e delay q)
   }"

fun timeout_delete :: "'e \<Rightarrow> 'e tqueue \<Rightarrow> 'e tqueue" where
  "timeout_delete e [] = []"
| "timeout_delete e ((e', r') # q) =
     (if e' = e then (case q of [] \<Rightarrow> [] | (n, rn) # q' \<Rightarrow> (n, rn + r') # q')
      else (e', r') # timeout_delete e q)"

definition timeout_queue_remove :: "'e \<Rightarrow> 'e tqueue \<Rightarrow> 'e tqueue option" where
  "timeout_queue_remove e q = do {
     k_assert (e \<in> fst ` set q);
     Some (timeout_delete e q)
   }"

text \<open>\<open>_k_timeout_destroy\<close> unlinks the entry without giving its ticks to the successor.\<close>

definition timeout_destroy :: "'e \<Rightarrow> 'e tqueue \<Rightarrow> 'e tqueue" where
  "timeout_destroy e q = filter (\<lambda>x. fst x \<noteq> e) q"

text \<open>
  The two nested loops of \<open>_k_timeout_queue_adjust\<close>.  The callback receives the expired entry,
  already unlinked, and may change the queue; \<open>None\<close> is a panic in a callback or a loop that
  exceeds the fuel.
\<close>

fun timeout_drain ::
  "nat \<Rightarrow> ('e \<Rightarrow> 's \<times> 'e tqueue \<Rightarrow> ('s \<times> 'e tqueue) option) \<Rightarrow> 's \<times> 'e tqueue \<Rightarrow>
   ('s \<times> 'e tqueue) option" where
  "timeout_drain 0 callback (s, q) = None"
| "timeout_drain (Suc fuel) callback (s, q) =
     (case q of
        [] \<Rightarrow> Some (s, [])
      | (e, r) # q' \<Rightarrow>
          if r = 0 then do { sq \<leftarrow> callback e (s, q'); timeout_drain fuel callback sq }
          else Some (s, q))"

fun timeout_ticks ::
  "nat \<Rightarrow> ('e \<Rightarrow> 's \<times> 'e tqueue \<Rightarrow> ('s \<times> 'e tqueue) option) \<Rightarrow> int \<Rightarrow> 's \<times> 'e tqueue \<Rightarrow>
   ('s \<times> 'e tqueue) option" where
  "timeout_ticks 0 callback delta (s, q) = None"
| "timeout_ticks (Suc fuel) callback delta (s, q) =
     (if delta > 0 then
        (case q of
           [] \<Rightarrow> Some (s, [])
         | (e, r) # q' \<Rightarrow>
             if delta < r then Some (s, (e, r - delta) # q')
             else let t = (if delta > r then r else delta) in do {
               (s, q) \<leftarrow> timeout_drain fuel callback (s, (e, r - t) # q');
               if q = [] then Some (s, q)
               else timeout_ticks fuel callback (delta - t) (s, q)
             })
      else Some (s, q))"

definition timeout_queue_adjust ::
  "nat \<Rightarrow> ('e \<Rightarrow> 's \<times> 'e tqueue \<Rightarrow> ('s \<times> 'e tqueue) option) \<Rightarrow> int \<Rightarrow> 's \<times> 'e tqueue \<Rightarrow>
   ('s \<times> 'e tqueue) option" where
  "timeout_queue_adjust fuel callback delta sq =
     (case snd sq of
        [] \<Rightarrow> Some sq
      | (e, r) # q' \<Rightarrow>
          if delta = 0 then Some sq
          else do {
            k_assert (r \<noteq> 0);
            if delta < 0 then Some (fst sq, (e, r - delta) # q')
            else timeout_ticks fuel callback delta sq
          })"

subsection \<open>The abstract view\<close>

fun deadlines_from :: "int \<Rightarrow> 'e tqueue \<Rightarrow> ('e \<times> int) list" where
  "deadlines_from a [] = []"
| "deadlines_from a ((e, r) # q) = (e, a + r) # deadlines_from (a + r) q"

definition deadlines :: "'e tqueue \<Rightarrow> ('e \<times> int) list" where
  "deadlines q = deadlines_from 0 q"

definition tq_inv :: "'e tqueue \<Rightarrow> bool" where
  "tq_inv q \<longleftrightarrow> distinct (map fst q) \<and> (\<forall>x\<in>set q. 0 \<le> snd x) \<and> (q \<noteq> [] \<longrightarrow> 0 < snd (hd q))"

lemma tq_inv_Nil [simp]: "tq_inv []"
  by (simp add: tq_inv_def)

lemma fst_deadlines_from [simp]: "map fst (deadlines_from a q) = map fst q"
  by (induction a q rule: deadlines_from.induct) auto

lemma deadlines_from_eq_Nil [simp]: "deadlines_from a q = [] \<longleftrightarrow> q = []"
  by (cases q) auto

lemma deadlines_from_shift:
  "deadlines_from (a + b) q = map (\<lambda>(e, t). (e, a + t)) (deadlines_from b q)"
  by (induction b q rule: deadlines_from.induct) (auto simp: algebra_simps)

lemma deadlines_from_ge:
  "\<forall>x\<in>set q. 0 \<le> snd x \<Longrightarrow> y \<in> set (deadlines_from a q) \<Longrightarrow> a \<le> snd y"
  by (induction a q rule: deadlines_from.induct) force+

lemma filter_none: "(\<And>x. x \<in> set xs \<Longrightarrow> \<not> P x) \<Longrightarrow> filter P xs = []"
  by (auto simp: filter_empty_conv)

lemma filter_all: "(\<And>x. x \<in> set xs \<Longrightarrow> P x) \<Longrightarrow> filter P xs = xs"
  by (rule filter_True) auto

subsection \<open>Adding and removing\<close>

lemma deadlines_insert_from:
  assumes "\<forall>x\<in>set q. 0 \<le> snd x"
  shows "deadlines_from a (timeout_insert e r q) =
    filter (\<lambda>x. snd x \<le> a + r) (deadlines_from a q) @ (e, a + r) #
    filter (\<lambda>x. snd x > a + r) (deadlines_from a q)"
  using assms
proof (induction q arbitrary: a r)
  case Nil
  then show ?case by simp
next
  case (Cons x q)
  obtain e' r' where x: "x = (e', r')" by (cases x)
  show ?case
  proof (cases "r' > r")
    case True
    have "\<And>y. y \<in> set (deadlines_from (a + r') q) \<Longrightarrow> a + r < snd y"
      using deadlines_from_ge [of q _ "a + r'"] Cons.prems True by force
    with True x show ?thesis
      by (simp add: filter_all filter_none leD not_le)
  next
    case False
    with Cons.IH [of "a + r'" "r - r'"] Cons.prems x show ?thesis by simp
  qed
qed

lemma deadlines_insert:
  "tq_inv q \<Longrightarrow> deadlines (timeout_insert e r q) =
     filter (\<lambda>x. snd x \<le> r) (deadlines q) @ (e, r) # filter (\<lambda>x. snd x > r) (deadlines q)"
  using deadlines_insert_from [of q 0 e r] by (simp add: deadlines_def tq_inv_def)

lemma timeout_insert_fst: "set (map fst (timeout_insert e r q)) = insert e (fst ` set q)"
  by (induction e r q rule: timeout_insert.induct) auto

lemma timeout_insert_length: "length (timeout_insert e r q) = Suc (length q)"
  by (induction e r q rule: timeout_insert.induct) auto

lemma timeout_insert_distinct:
  "distinct (map fst q) \<Longrightarrow> e \<notin> fst ` set q \<Longrightarrow> distinct (map fst (timeout_insert e r q))"
proof (induction e r q rule: timeout_insert.induct)
  case (2 e r e' r' q)
  then show ?case using timeout_insert_fst [of e "r - r'" q] by auto
qed simp

lemma timeout_insert_nonneg:
  "\<forall>x\<in>set q. 0 \<le> snd x \<Longrightarrow> 0 \<le> r \<Longrightarrow> \<forall>x\<in>set (timeout_insert e r q). 0 \<le> snd x"
  by (induction e r q rule: timeout_insert.induct) auto

lemma timeout_insert_hd:
  "q \<noteq> [] \<longrightarrow> 0 < snd (hd q) \<Longrightarrow> 0 < r \<Longrightarrow> 0 < snd (hd (timeout_insert e r q))"
  by (cases q) auto

lemma timeout_insert_inv:
  "tq_inv q \<Longrightarrow> 0 < r \<Longrightarrow> e \<notin> fst ` set q \<Longrightarrow> tq_inv (timeout_insert e r q)"
  using timeout_insert_distinct [of q e r] timeout_insert_nonneg [of q r e] timeout_insert_hd [of q r e]
  by (simp add: tq_inv_def)

lemma deadlines_delete_from:
  "distinct (map fst q) \<Longrightarrow> deadlines_from a (timeout_delete e q) =
     filter (\<lambda>x. fst x \<noteq> e) (deadlines_from a q)"
proof (induction e q arbitrary: a rule: timeout_delete.induct)
  case (2 e e' r' q)
  show ?case
  proof (cases "e' = e")
    case True
    with "2.prems" have "e \<notin> fst ` set (deadlines_from (a + r') q)"
      by (metis (no_types, lifting) distinct.simps(2) fst_conv fst_deadlines_from list.simps(9) set_map)
    then have "filter (\<lambda>x. fst x \<noteq> e) (deadlines_from (a + r') q) = deadlines_from (a + r') q"
      by (intro filter_all) force
    with True show ?thesis by (auto split: list.split simp: algebra_simps)
  next
    case False
    with 2 show ?thesis by simp
  qed
qed simp

lemma deadlines_delete:
  "tq_inv q \<Longrightarrow> deadlines (timeout_delete e q) = filter (\<lambda>x. fst x \<noteq> e) (deadlines q)"
  by (simp add: deadlines_def tq_inv_def deadlines_delete_from)

lemma timeout_delete_fst: "map fst (timeout_delete e q) = remove1 e (map fst q)"
  by (induction e q rule: timeout_delete.induct) (auto split: list.split)

lemma timeout_delete_nonneg:
  "\<forall>x\<in>set q. 0 \<le> snd x \<Longrightarrow> \<forall>x\<in>set (timeout_delete e q). 0 \<le> snd x"
proof (induction e q rule: timeout_delete.induct)
  case (2 e e' r' q)
  show ?case
  proof (cases q)
    case (Cons y q')
    with 2 show ?thesis by (cases y) (simp split: if_splits)
  qed (use 2 in auto)
qed simp

lemma timeout_delete_hd:
  "\<forall>x\<in>set q. 0 \<le> snd x \<Longrightarrow> 0 < snd (hd q) \<Longrightarrow> timeout_delete e q \<noteq> [] \<Longrightarrow>
   0 < snd (hd (timeout_delete e q))"
  by (induction e q rule: timeout_delete.induct) (auto split: list.splits)

lemma timeout_delete_inv: "tq_inv q \<Longrightarrow> tq_inv (timeout_delete e q)"
proof -
  assume a: "tq_inv q"
  then have "distinct (map fst (timeout_delete e q))"
    by (simp add: tq_inv_def timeout_delete_fst distinct_remove1)
  moreover have "\<forall>x\<in>set (timeout_delete e q). 0 \<le> snd x"
    using a timeout_delete_nonneg [of q e] by (simp add: tq_inv_def)
  moreover have "timeout_delete e q \<noteq> [] \<longrightarrow> 0 < snd (hd (timeout_delete e q))"
    using a timeout_delete_hd [of q e] by (cases q) (auto simp: tq_inv_def)
  ultimately show ?thesis by (simp add: tq_inv_def)
qed

subsection \<open>The passing of ticks\<close>

fun fired :: "int \<Rightarrow> 'e tqueue \<Rightarrow> 'e list" where
  "fired d [] = []"
| "fired d ((e, r) # q) = (if r \<le> d then e # fired (d - r) q else [])"

fun advance :: "int \<Rightarrow> 'e tqueue \<Rightarrow> 'e tqueue" where
  "advance d [] = []"
| "advance d ((e, r) # q) = (if r \<le> d then advance (d - r) q else (e, r - d) # q)"

text \<open>A callback that leaves the queue alone and, on states satisfying \<open>P\<close>, acts by \<open>f\<close> and
  preserves \<open>P\<close>.\<close>

definition queue_preserving ::
  "('s \<Rightarrow> bool) \<Rightarrow> ('e \<Rightarrow> 's \<times> 'e tqueue \<Rightarrow> ('s \<times> 'e tqueue) option) \<Rightarrow> ('e \<Rightarrow> 's \<Rightarrow> 's) \<Rightarrow>
   bool" where
  "queue_preserving P callback f \<longleftrightarrow>
     (\<forall>e s q. P s \<longrightarrow> callback e (s, q) = Some (f e s, q) \<and> P (f e s))"

lemma queue_preserving_fold:
  "queue_preserving P callback f \<Longrightarrow> P s \<Longrightarrow> P (fold f es s)"
  by (induction es arbitrary: s) (auto simp: queue_preserving_def)

lemma timeout_drain_spec:
  assumes "queue_preserving P callback f"
  shows "P s \<Longrightarrow> \<forall>x\<in>set q. 0 \<le> snd x \<Longrightarrow> length q < fuel \<Longrightarrow>
    timeout_drain fuel callback (s, q) = Some (fold f (fired 0 q) s, advance 0 q)"
proof (induction q arbitrary: s fuel)
  case Nil
  then show ?case by (cases fuel) auto
next
  case (Cons x q)
  obtain e r where x: "x = (e, r)" by (cases x)
  from Cons.prems obtain g where g: "fuel = Suc g" by (cases fuel) auto
  show ?case
  proof (cases "r = 0")
    case True
    with Cons.IH [of "f e s" g] Cons.prems x g assms show ?thesis
      by (simp add: queue_preserving_def)
  next
    case False
    with Cons.prems x g show ?thesis by auto
  qed
qed

lemma advance_length: "length (advance d q) \<le> length q"
  by (induction d q rule: advance.induct) auto

lemma advance_nonneg: "\<forall>x\<in>set q. 0 \<le> snd x \<Longrightarrow> \<forall>x\<in>set (advance d q). 0 \<le> snd x"
  by (induction d q rule: advance.induct) auto

lemma advance_hd_pos: "advance d q \<noteq> [] \<Longrightarrow> 0 < snd (hd (advance d q))"
  by (induction d q rule: advance.induct) (auto split: if_splits)

lemma fired_advance_0:
  "\<forall>x\<in>set q. 0 \<le> snd x \<Longrightarrow> 0 \<le> d \<Longrightarrow>
    fired d q = fired 0 q @ fired d (advance 0 q) \<and> advance d q = advance d (advance 0 q)"
proof (induction q)
  case (Cons x q)
  obtain e r where x: "x = (e, r)" by (cases x)
  show ?case
  proof (cases "r = 0")
    case True
    with Cons x show ?thesis by simp
  next
    case False
    with Cons.prems x show ?thesis by simp
  qed
qed simp

lemma timeout_ticks_spec:
  assumes cb: "queue_preserving P callback f"
  shows "P s \<Longrightarrow> \<forall>x\<in>set q. 0 \<le> snd x \<Longrightarrow> q \<noteq> [] \<longrightarrow> 0 < snd (hd q) \<Longrightarrow> 0 \<le> delta \<Longrightarrow>
    length q + 1 < fuel \<Longrightarrow>
    timeout_ticks fuel callback delta (s, q) = Some (fold f (fired delta q) s, advance delta q)"
proof (induction fuel arbitrary: q delta s)
  case 0
  then show ?case by simp
next
  case (Suc fuel)
  show ?case
  proof (cases q)
    case Nil
    then show ?thesis by simp
  next
    case (Cons x q')
    obtain e r where x: "x = (e, r)" by (cases x)
    show ?thesis
    proof (cases "0 < delta \<and> r \<le> delta")
      case True
      let ?q = "advance 0 q'"
      have q': "\<forall>x\<in>set q'. 0 \<le> snd x" "Suc (length q') < fuel" using Suc.prems Cons by auto
      have drain: "timeout_drain fuel callback (s, (e, 0) # q') =
          Some (fold f (fired 0 q') (f e s), ?q)"
        using timeout_drain_spec [OF cb Suc.prems(1), of "(e, 0) # q'" fuel] q' by simp
      have "timeout_ticks fuel callback (delta - r) (s', ?q) =
          Some (fold f (fired (delta - r) ?q) s', advance (delta - r) ?q)" if "P s'" for s'
        using q'(2) True advance_length [of 0 q'] advance_hd_pos [of 0 q']
        by (intro Suc.IH that advance_nonneg q'(1)) simp_all
      moreover have "P (fold f (fired 0 q') (f e s))"
        using cb Suc.prems(1) queue_preserving_fold [OF cb] by (simp add: queue_preserving_def)
      moreover have "(if delta > r then r else delta) = r" using True by simp
      moreover have "advance (delta - r) ?q = []" if "?q = []" using that by simp
      ultimately show ?thesis
        using True drain fired_advance_0 [OF q'(1), of "delta - r"] Cons x by simp
    next
      case False
      then show ?thesis using Suc.prems Cons x by auto
    qed
  qed
qed

lemma timeout_queue_adjust_spec:
  assumes cb: "queue_preserving P callback f" and s: "P s" and inv: "tq_inv q" and d: "0 \<le> delta"
    and fuel: "length q + 1 < fuel"
  shows "timeout_queue_adjust fuel callback delta (s, q) =
    Some (fold f (fired delta q) s, advance delta q)"
proof (cases q)
  case Nil
  then show ?thesis by (simp add: timeout_queue_adjust_def)
next
  case (Cons x q')
  obtain e r where x: "x = (e, r)" by (cases x)
  show ?thesis
  proof (cases "delta = 0")
    case True
    with Cons x inv show ?thesis by (auto simp: timeout_queue_adjust_def tq_inv_def)
  next
    case False
    have "timeout_ticks fuel callback delta (s, q) =
        Some (fold f (fired delta q) s, advance delta q)"
      using inv d fuel by (intro timeout_ticks_spec [OF cb s]) (auto simp: tq_inv_def)
    with False Cons x inv d show ?thesis
      by (auto simp: timeout_queue_adjust_def tq_inv_def)
  qed
qed

lemma advance_inv: "tq_inv q \<Longrightarrow> tq_inv (advance d q)"
proof -
  assume a: "tq_inv q"
  have "distinct (map fst q) \<Longrightarrow> distinct (map fst (advance d q))"
    by (induction d q rule: advance.induct) auto
  with a advance_nonneg [of q d] advance_hd_pos [of d q] show ?thesis
    by (simp add: tq_inv_def)
qed

lemma fired_from:
  "\<forall>x\<in>set q. 0 \<le> snd x \<Longrightarrow>
    fired d q = map fst (filter (\<lambda>x. snd x \<le> a + d) (deadlines_from a q))"
proof (induction d q arbitrary: a rule: fired.induct)
  case (2 d e r q)
  show ?case
  proof (cases "r \<le> d")
    case True
    have "fired (d - r) q = map fst (filter (\<lambda>x. snd x \<le> (a + r) + (d - r)) (deadlines_from (a + r) q))"
      using "2.prems" by (intro "2.IH" True) simp
    with True show ?thesis by simp
  next
    case False
    have "\<And>y. y \<in> set (deadlines_from (a + r) q) \<Longrightarrow> a + d < snd y"
      using deadlines_from_ge [of q _ "a + r"] "2.prems" False by force
    with False show ?thesis by (simp add: filter_none not_le leD)
  qed
qed simp

lemma fired_deadlines: "tq_inv q \<Longrightarrow> fired d q = map fst (filter (\<lambda>x. snd x \<le> d) (deadlines q))"
  using fired_from [of q d 0] by (simp add: deadlines_def tq_inv_def)

lemma advance_from:
  "\<forall>x\<in>set q. 0 \<le> snd x \<Longrightarrow> deadlines_from a (advance d q) =
    map (\<lambda>(e, t). (e, t - d)) (filter (\<lambda>x. snd x > a + d) (deadlines_from a q))"
proof (induction d q arbitrary: a rule: advance.induct)
  case (2 d e r q)
  show ?case
  proof (cases "r \<le> d")
    case True
    have "deadlines_from a (advance (d - r) q) =
        map (\<lambda>(e, t). (e, t - r)) (deadlines_from (a + r) (advance (d - r) q))"
      using deadlines_from_shift [of "- r" "a + r" "advance (d - r) q"]
      by (simp add: algebra_simps)
    with True 2 show ?thesis by (auto simp: algebra_simps comp_def case_prod_beta)
  next
    case False
    have "\<And>y. y \<in> set (deadlines_from (a + r) q) \<Longrightarrow> a + d < snd y"
      using deadlines_from_ge [of q _ "a + r"] "2.prems" False by force
    then have "filter (\<lambda>x. snd x > a + d) (deadlines_from (a + r) q) = deadlines_from (a + r) q"
      by (rule filter_all)
    with False deadlines_from_shift [of "- d" "a + r" q] show ?thesis
      by (simp add: algebra_simps)
  qed
qed simp

lemma advance_deadlines:
  "tq_inv q \<Longrightarrow> deadlines (advance d q) =
    map (\<lambda>(e, t). (e, t - d)) (filter (\<lambda>x. snd x > d) (deadlines q))"
  using advance_from [of q 0 d] by (simp add: deadlines_def tq_inv_def)

subsection \<open>The contract of a timeout queue\<close>

text \<open>
  What the scheduler and the timers rely on, as laws over the abstract view: \<open>dl\<close> is the list
  of entries with the ticks they still have to wait.  \<open>tick\<close> returns the expired entries in
  the order of their callbacks and the remaining queue.
\<close>

locale deadline_queue =
  fixes dl :: "'q \<Rightarrow> ('e \<times> int) list"
    and invar :: "'q \<Rightarrow> bool"
    and add :: "'e \<Rightarrow> int \<Rightarrow> 'q \<Rightarrow> 'q option"
    and tick :: "int \<Rightarrow> 'q \<Rightarrow> 'e list \<times> 'q"
  assumes dl_pos: "invar q \<Longrightarrow> x \<in> set (dl q) \<Longrightarrow> 0 < snd x"
    and add_dl: "invar q \<Longrightarrow> 0 < d \<Longrightarrow> e \<notin> fst ` set (dl q) \<Longrightarrow>
      \<exists>q'. add e d q = Some q' \<and> invar q' \<and>
        dl q' = filter (\<lambda>x. snd x \<le> d) (dl q) @ (e, d) # filter (\<lambda>x. snd x > d) (dl q)"
    and tick_fired: "invar q \<Longrightarrow> 0 \<le> d \<Longrightarrow>
      fst (tick d q) = map fst (filter (\<lambda>x. snd x \<le> d) (dl q))"
    and tick_dl: "invar q \<Longrightarrow> 0 \<le> d \<Longrightarrow>
      dl (snd (tick d q)) = map (\<lambda>(e, t). (e, t - d)) (filter (\<lambda>x. snd x > d) (dl q))"
    and tick_invar: "invar q \<Longrightarrow> 0 \<le> d \<Longrightarrow> invar (snd (tick d q))"
begin

text \<open>An entry added with delay \<open>d\<close> is called back by exactly those waits that last at least
  \<open>d\<close> ticks.\<close>

lemma added_fires_iff:
  assumes "invar q" "0 < d" "e \<notin> fst ` set (dl q)" "add e d q = Some q'" "0 \<le> n"
  shows "e \<in> set (fst (tick n q')) \<longleftrightarrow> d \<le> n"
proof -
  from add_dl [OF assms(1-3)] assms(4) have inv: "invar q'"
    and dl: "dl q' = filter (\<lambda>x. snd x \<le> d) (dl q) @ (e, d) # filter (\<lambda>x. snd x > d) (dl q)"
    by auto
  have "e \<in> set (fst (tick n q')) \<longleftrightarrow> e \<in> fst ` set (filter (\<lambda>x. snd x \<le> n) (dl q'))"
    using tick_fired [OF inv assms(5)] by simp
  also have "\<dots> \<longleftrightarrow> d \<le> n" using assms(3) dl by force
  finally show ?thesis .
qed

text \<open>An entry that was already waiting keeps its own deadline when another one is added.\<close>

lemma others_unaffected:
  assumes "invar q" "0 < d" "e \<notin> fst ` set (dl q)" "add e d q = Some q'" "0 \<le> n" "x \<noteq> e"
  shows "x \<in> set (fst (tick n q')) \<longleftrightarrow> x \<in> set (fst (tick n q))"
proof -
  from add_dl [OF assms(1-3)] assms(4) have inv: "invar q'"
    and dl: "dl q' = filter (\<lambda>x. snd x \<le> d) (dl q) @ (e, d) # filter (\<lambda>x. snd x > d) (dl q)"
    by auto
  show ?thesis
    using tick_fired [OF inv assms(5)] tick_fired [OF assms(1,5)] dl assms(6)
    by (force simp: not_le)
qed

text \<open>Waiting \<open>a\<close> ticks and then \<open>b\<close> ticks calls back the same entries, in the same order for
  each of the two waits, as one wait of \<open>a + b\<close> ticks.\<close>

lemma tick_split:
  assumes "invar q" "0 \<le> a" "0 \<le> b"
  shows "set (fst (tick (a + b) q)) =
      set (fst (tick a q)) \<union> set (fst (tick b (snd (tick a q))))"
    and "dl (snd (tick (a + b) q)) = dl (snd (tick b (snd (tick a q))))"
proof -
  have inv: "invar (snd (tick a q))" by (rule tick_invar [OF assms(1,2)])
  show "set (fst (tick (a + b) q)) =
      set (fst (tick a q)) \<union> set (fst (tick b (snd (tick a q))))"
    using assms by (force simp: tick_fired inv tick_dl)
  have "filter (\<lambda>x. b < snd x)
          (map (\<lambda>(e, t). (e, t - a)) (filter (\<lambda>x. a < snd x) (dl q))) =
        map (\<lambda>(e, t). (e, t - a)) (filter (\<lambda>x. a + b < snd x) (dl q))"
    using assms(3) by (auto simp: filter_map comp_def case_prod_beta algebra_simps
        intro!: arg_cong [where f = "map _"] filter_cong)
  then show "dl (snd (tick (a + b) q)) = dl (snd (tick b (snd (tick a q))))"
    using assms inv by (simp add: tick_dl comp_def case_prod_beta algebra_simps)
qed

end

lemma deadlines_pos: "tq_inv q \<Longrightarrow> x \<in> set (deadlines q) \<Longrightarrow> 0 < snd x"
proof (cases q)
  case (Cons y q')
  assume "tq_inv q" "x \<in> set (deadlines q)"
  with Cons deadlines_from_ge [of q' x "snd y"] show ?thesis
    by (cases y) (auto simp: tq_inv_def deadlines_def)
qed (simp add: deadlines_def)

lemma fst_deadlines [simp]: "fst ` set (deadlines q) = fst ` set q"
  by (metis deadlines_def fst_deadlines_from list.set_map)

interpretation tq: deadline_queue deadlines tq_inv timeout_queue_add
  "\<lambda>d q. (fired d q, advance d q)"
proof unfold_locales
  fix q :: "'e tqueue" and d :: int and e :: 'e
  assume "tq_inv q" "0 < d" "e \<notin> fst ` set (deadlines q)"
  then show "\<exists>q'. timeout_queue_add e d q = Some q' \<and> tq_inv q' \<and> deadlines q' =
      filter (\<lambda>x. snd x \<le> d) (deadlines q) @ (e, d) # filter (\<lambda>x. snd x > d) (deadlines q)"
    by (simp add: timeout_queue_add_def timeout_insert_inv deadlines_insert)
qed (simp_all add: deadlines_pos fired_deadlines advance_deadlines advance_inv)

subsection \<open>Expiry is exact\<close>

text \<open>
  C2: when \<open>delta\<close> ticks pass, \<open>_k_timeout_queue_adjust\<close> terminates and runs the callbacks of
  exactly the entries whose deadline is at most \<open>delta\<close>, in the order of their deadlines, and every
  other entry keeps its deadline, now \<open>delta\<close> ticks closer; the queue invariant is preserved.
\<close>

theorem timeout_queue_adjust_exact:
  assumes "queue_preserving P callback f" and "P s" and "tq_inv q" and "0 \<le> delta"
    and "length q + 1 < fuel"
  shows "\<exists>q'. timeout_queue_adjust fuel callback delta (s, q) =
      Some (fold f (map fst (filter (\<lambda>x. snd x \<le> delta) (deadlines q))) s, q') \<and>
    tq_inv q' \<and>
    deadlines q' = map (\<lambda>(e, t). (e, t - delta)) (filter (\<lambda>x. snd x > delta) (deadlines q))"
  using timeout_queue_adjust_spec [OF assms] fired_deadlines [OF assms(3)]
    advance_deadlines [OF assms(3)] advance_inv [OF assms(3)] by simp

definition log_callback :: "'e \<Rightarrow> 'e list \<times> 'e tqueue \<Rightarrow> ('e list \<times> 'e tqueue) option" where
  "log_callback e sq = Some (fst sq @ [e], snd sq)"

theorem timeout_queue_adjust_exact_witness:
  "\<exists>q'. timeout_queue_adjust 9 log_callback 5 ([], [(1::nat, 3), (2, 2), (3, 0), (4, 4)]) =
      Some ([1, 2, 3], q') \<and> tq_inv q' \<and> deadlines q' = [(4, 4)]"
proof -
  have cb: "queue_preserving (\<lambda>_. True) log_callback (\<lambda>e s. s @ [e])"
    by (simp add: queue_preserving_def log_callback_def)
  have "tq_inv [(1::nat, 3), (2, 2), (3, 0), (4, 4)]" by (simp add: tq_inv_def)
  from timeout_queue_adjust_exact [OF cb TrueI this, of 5 9 "[]"] show ?thesis
    by (simp add: deadlines_def)
qed

text \<open>
  C3: an entry added with a positive delay \<open>d\<close> is called back by a wait of \<open>n\<close> ticks if and only
  if \<open>d \<le> n\<close>, and adding it does not change which of the other entries that wait calls back.
\<close>

theorem timeout_added_expires_on_time:
  assumes "tq_inv q" and "0 < d" and "e \<notin> fst ` set q" and "0 \<le> n"
  shows "\<exists>q' r. timeout_queue_add e d q = Some q' \<and> tq_inv q' \<and>
    timeout_queue_adjust (length q + 3) log_callback n ([], q') = Some r \<and>
    (e \<in> set (fst r) \<longleftrightarrow> d \<le> n) \<and>
    (\<forall>x. x \<noteq> e \<longrightarrow>
       (x \<in> set (fst r) \<longleftrightarrow> x \<in> set (map fst (filter (\<lambda>y. snd y \<le> n) (deadlines q)))))"
proof -
  have e: "e \<notin> fst ` set (deadlines q)" using assms(3) by simp
  from tq.add_dl [OF assms(1,2) e] obtain q' where
    q': "timeout_queue_add e d q = Some q'" "tq_inv q'" by blast
  have cb: "queue_preserving (\<lambda>_. True) log_callback (\<lambda>e s. s @ [e])"
    by (simp add: queue_preserving_def log_callback_def)
  have len: "length q' = Suc (length q)" using q'(1)
    by (auto simp: timeout_queue_add_def timeout_insert_length split: if_splits)
  have fold: "fold (\<lambda>e s. s @ [e]) ys xs = xs @ ys" for xs ys :: "'a list"
    by (induction ys arbitrary: xs) auto
  have run: "timeout_queue_adjust (length q + 3) log_callback n ([], q') =
      Some (fired n q', advance n q')"
    using timeout_queue_adjust_spec [OF cb TrueI q'(2) assms(4)] len by (simp add: fold)
  have "e \<in> set (fired n q') \<longleftrightarrow> d \<le> n"
    using tq.added_fires_iff [OF assms(1,2) e q'(1) assms(4)] by simp
  moreover have "x \<in> set (fired n q') \<longleftrightarrow> x \<in> set (fired n q)" if "x \<noteq> e" for x
    using tq.others_unaffected [OF assms(1,2) e q'(1) assms(4) that] by simp
  ultimately show ?thesis
    using q' run fired_deadlines [OF assms(1), of n] by auto
qed

theorem timeout_added_expires_on_time_witness:
  "\<exists>q' r. timeout_queue_add 7 4 [(1::nat, 3), (2, 2)] = Some q' \<and> tq_inv q' \<and>
     timeout_queue_adjust 5 log_callback 4 ([], q') = Some r \<and> 7 \<in> set (fst r)"
  using timeout_added_expires_on_time [of "[(1::nat, 3), (2, 2)]" 4 7 4]
  by (auto simp: tq_inv_def)

end
