(* ===== verification/K_Sched.thy ===== *)
theory K_Sched
  imports K_Timeout
begin

section \<open>The scheduler\<close>

text \<open>
  Models \<open>kernel/core/sched.c\<close>, the task, mutex and CPU structures it works on, and
  \<open>_k_mutex_may_raise_priority\<close> of \<open>kernel/core/mutex.c\<close>, with which it is mutually recursive.

  The kernel state is one record.  The lists threaded through \<open>task->link\<close> (run queues and wait
  queues) are the map \<open>queues\<close>, and \<open>link\<close> of a task is the queue its link is on (\<open>None\<close>: the link
  is null); the mutex lists of the tasks are kept likewise.  \<open>slock\<close> is the CPU holding
  \<open>_k_sched_spinlock\<close>.  A smaller priority number is a higher priority.

  A context switch cuts a C function in two: \<open>k_arch_switch\<close> saves the rest of the call.  The saved
  context of a task is modelled by a value of type \<open>kont\<close> that names this rest; the part before
  the switch and the part after it are two definitions.

  \<open>None\<close> is a panic: a failed assertion, an explicit \<open>k_panic\<close>, a null dereference or an index out
  of the range of \<open>sched_queue\<close>.
\<close>

type_synonym tid = nat
type_synonym mid = nat
type_synonym cpu_id = nat

datatype task_state = NONE | READY | RUNNING | SLEEP | SLEEP_UNWAKEABLE | SUSPENDED | DESTROYED

text \<open>The list heads a task can be linked on.\<close>

datatype qid = RunQ nat | MutexQ mid | CondQ nat | SemQ nat | RecvQ nat | SendQ nat | WaitQ nat

text \<open>The points at which a task gives up the CPU.  \<open>K_Run\<close> is a task outside these calls; a task
  that yields does so on top of what it was doing.\<close>

datatype kont =
    K_Run
  | K_Yield kont
  | K_Exit
  | K_Sleep int
  | K_MutexLock mid int
  | K_CondWait mid int
  | K_CondLock mid int
  | K_SemGet nat int bool

record ktask =
  link :: "qid option"
  tstate :: task_state
  prio :: nat
  saved_prio :: nat
  reschedule :: bool
  owned :: "mid list"
  sleep_on_mutex :: "mid option"
  tcontext :: kont
  sleep_result :: int

record kmutex =
  mutex_valid :: bool
  owner :: "tid option"
  mlink :: "tid option"
  mprio :: nat

record ksem =
  sem_valid :: bool
  count :: int

record sched =
  tasks :: "tid \<Rightarrow> ktask"
  mutexes :: "mid \<Rightarrow> kmutex"
  sems :: "nat \<Rightarrow> ksem"
  conds :: "nat \<Rightarrow> bool"
  queues :: "qid \<Rightarrow> tid list"
  timeouts :: "tid tqueue"
  cur :: "cpu_id \<Rightarrow> tid option"
  lock_count :: "cpu_id \<Rightarrow> int"
  slock :: "cpu_id option"

definition K_TASK_MAX_PRIORITIES :: nat where
  "K_TASK_MAX_PRIORITIES = 40"

abbreviation upd_task :: "tid \<Rightarrow> (ktask \<Rightarrow> ktask) \<Rightarrow> sched \<Rightarrow> sched" where
  "upd_task t f s \<equiv> s\<lparr>tasks := (tasks s)(t := f (tasks s t))\<rparr>"

abbreviation upd_mutex :: "mid \<Rightarrow> (kmutex \<Rightarrow> kmutex) \<Rightarrow> sched \<Rightarrow> sched" where
  "upd_mutex m f s \<equiv> s\<lparr>mutexes := (mutexes s)(m := f (mutexes s m))\<rparr>"

definition sleeping :: "task_state \<Rightarrow> bool" where
  "sleeping st \<longleftrightarrow> st = SLEEP \<or> st = SLEEP_UNWAKEABLE"

subsection \<open>List operations on the link of a task\<close>

definition link_remove :: "tid \<Rightarrow> sched \<Rightarrow> sched" where
  "link_remove t s =
     (case link (tasks s t) of
        None \<Rightarrow> s
      | Some q \<Rightarrow> (upd_task t (\<lambda>x. x\<lparr>link := None\<rparr>) s)
          \<lparr>queues := (queues s)(q := remove1 t (queues s q))\<rparr>)"

definition link_add_back :: "qid \<Rightarrow> tid \<Rightarrow> sched \<Rightarrow> sched option" where
  "link_add_back q t s = do {
     k_assert (link (tasks s t) = None);
     Some ((upd_task t (\<lambda>x. x\<lparr>link := Some q\<rparr>) s)
       \<lparr>queues := (queues s)(q := queues s q @ [t])\<rparr>)
   }"

subsection \<open>The scheduler lock\<close>

definition sched_lock :: "cpu_id \<Rightarrow> sched \<Rightarrow> sched option" where
  "sched_lock c s = do {
     k_assert (slock s = None);
     Some (s\<lparr>slock := Some c\<rparr>)
   }"

definition sched_unlock :: "cpu_id \<Rightarrow> sched \<Rightarrow> sched option" where
  "sched_unlock c s = do {
     k_assert (slock s = Some c);
     Some (s\<lparr>slock := None\<rparr>)
   }"

subsection \<open>Run queues\<close>

definition k_sched_enqueue :: "cpu_id \<Rightarrow> tid \<Rightarrow> sched \<Rightarrow> sched option" where
  "k_sched_enqueue c th s = do {
     k_assert (slock s = Some c);
     let s = upd_task th (\<lambda>x. x\<lparr>tstate := READY\<rparr>) s;
     k_assert (prio (tasks s th) < K_TASK_MAX_PRIORITIES);
     link_add_back (RunQ (prio (tasks s th))) th s
   }"

definition k_sched_dequeue :: "cpu_id \<Rightarrow> sched \<Rightarrow> (tid option \<times> sched) option" where
  "k_sched_dequeue c s = do {
     k_assert (slock s = Some c);
     Some (case List.find (\<lambda>i. queues s (RunQ i) \<noteq> []) [0..<K_TASK_MAX_PRIORITIES] of
        None \<Rightarrow> (None, s)
      | Some i \<Rightarrow> (let t = hd (queues s (RunQ i)) in (Some t, link_remove t s)))
   }"

text \<open>\<open>k_sched_switch\<close> up to and after \<open>k_arch_switch\<close>.\<close>

definition k_sched_switch_in :: "cpu_id \<Rightarrow> tid \<Rightarrow> sched \<Rightarrow> sched" where
  "k_sched_switch_in c t s = upd_task t (\<lambda>x. x\<lparr>tstate := RUNNING\<rparr>) (s\<lparr>cur := (cur s)(c := Some t)\<rparr>)"

definition k_sched_switch_out :: "cpu_id \<Rightarrow> sched \<Rightarrow> sched" where
  "k_sched_switch_out c s = s\<lparr>cur := (cur s)(c := None)\<rparr>"

text \<open>\<open>_k_sched_yield_locked\<close> saves the rest \<open>k\<close> of the current task's call and returns to the
  scheduler loop.\<close>

definition k_sched_yield_locked :: "cpu_id \<Rightarrow> kont \<Rightarrow> sched \<Rightarrow> sched option" where
  "k_sched_yield_locked c k s = do {
     k_assert (slock s = Some c);
     t \<leftarrow> cur s c;
     Some (k_sched_switch_out c (upd_task t (\<lambda>x. x\<lparr>tcontext := k\<rparr>) s))
   }"

subsection \<open>Wait queues\<close>

definition k_sched_priority_cmp :: "sched \<Rightarrow> tid \<Rightarrow> tid \<Rightarrow> int" where
  "k_sched_priority_cmp s t1 t2 = int (prio (tasks s t2)) - int (prio (tasks s t1))"

fun sched_insert :: "sched \<Rightarrow> tid \<Rightarrow> tid list \<Rightarrow> tid list" where
  "sched_insert s t [] = [t]"
| "sched_insert s t (l # ls) =
     (if k_sched_priority_cmp s t l > 0 then t # l # ls else l # sched_insert s t ls)"

definition k_sched_add :: "qid \<Rightarrow> tid \<Rightarrow> sched \<Rightarrow> sched option" where
  "k_sched_add q t s = do {
     k_assert (link (tasks s t) = None);
     Some ((upd_task t (\<lambda>x. x\<lparr>link := Some q\<rparr>) s)
       \<lparr>queues := (queues s)(q := sched_insert s t (queues s q))\<rparr>)
   }"

text \<open>\<open>_k_sched_sleep\<close> up to the context switch, called with the scheduler lock held.\<close>

definition k_sched_sleep_begin ::
  "cpu_id \<Rightarrow> qid option \<Rightarrow> task_state \<Rightarrow> int \<Rightarrow> kont \<Rightarrow> sched \<Rightarrow> sched option" where
  "k_sched_sleep_begin c queue state timeout k s = do {
     k_assert (slock s = Some c);
     k_assert (lock_count s c \<le> 0);
     t \<leftarrow> cur s c;
     s \<leftarrow> (if timeout \<noteq> 0
          then do { q \<leftarrow> timeout_queue_add t timeout (timeouts s); Some (s\<lparr>timeouts := q\<rparr>) }
          else Some s);
     let s = upd_task t (\<lambda>x. x\<lparr>tstate := state\<rparr>) s;
     s \<leftarrow> (case queue of None \<Rightarrow> Some s | Some q \<Rightarrow> k_sched_add q t s);
     k_sched_yield_locked c k s
   }"

text \<open>The rest of \<open>_k_sched_sleep\<close>: the task is running again on CPU \<open>c\<close>.\<close>

definition k_sched_sleep_end :: "cpu_id \<Rightarrow> int \<Rightarrow> sched \<Rightarrow> (int \<times> sched) option" where
  "k_sched_sleep_end c timeout s = do {
     t \<leftarrow> cur s c;
     s \<leftarrow> (if timeout \<noteq> 0 \<and> t \<in> fst ` set (timeouts s)
          then do { q \<leftarrow> timeout_queue_remove t (timeouts s); Some (s\<lparr>timeouts := q\<rparr>) }
          else Some s);
     Some (sleep_result (tasks s t), s)
   }"

subsection \<open>Waking up\<close>

definition k_sched_resume :: "cpu_id \<Rightarrow> tid \<Rightarrow> int \<Rightarrow> sched \<Rightarrow> sched option" where
  "k_sched_resume c t result s = do {
     k_assert (slock s = Some c);
     if sleeping (tstate (tasks s t)) then do {
       let s = link_remove t s;
       let s = link_remove t s;
       let s = upd_task t (\<lambda>x. x\<lparr>sleep_result := result\<rparr>) s;
       k_sched_enqueue c t s
     } else Some s
   }"

text \<open>The loop of \<open>_k_sched_wakeup_all_locked\<close> resumes the head until the queue is empty; the
  fuel is the number of iterations.\<close>

fun k_sched_wakeup_all_loop :: "nat \<Rightarrow> cpu_id \<Rightarrow> qid \<Rightarrow> int \<Rightarrow> sched \<Rightarrow> sched option" where
  "k_sched_wakeup_all_loop 0 c q result s = (if queues s q = [] then Some s else None)"
| "k_sched_wakeup_all_loop (Suc fuel) c q result s =
     (case queues s q of
        [] \<Rightarrow> Some s
      | t # _ \<Rightarrow> do { s \<leftarrow> k_sched_resume c t result s; k_sched_wakeup_all_loop fuel c q result s })"

definition k_sched_wakeup_all_locked :: "cpu_id \<Rightarrow> qid \<Rightarrow> int \<Rightarrow> sched \<Rightarrow> sched option" where
  "k_sched_wakeup_all_locked c q result s = do {
     k_assert (slock s = Some c);
     k_sched_wakeup_all_loop (length (queues s q)) c q result s
   }"

definition k_sched_wakeup_one_locked ::
  "cpu_id \<Rightarrow> qid \<Rightarrow> int \<Rightarrow> sched \<Rightarrow> (tid option \<times> sched) option" where
  "k_sched_wakeup_one_locked c q result s = do {
     k_assert (slock s = Some c);
     case queues s q of
       [] \<Rightarrow> Some (None, s)
     | t # _ \<Rightarrow> do { s \<leftarrow> k_sched_resume c t result s; Some (Some t, s) }
   }"

text \<open>\<open>_k_sched_may_yield\<close> returns whether the caller lost the CPU.\<close>

definition k_sched_may_yield :: "cpu_id \<Rightarrow> tid \<Rightarrow> sched \<Rightarrow> (bool \<times> sched) option" where
  "k_sched_may_yield c t s = do {
     k_assert (slock s = Some c);
     case cur s c of
       None \<Rightarrow> Some (False, s)
     | Some my \<Rightarrow>
         if k_sched_priority_cmp s t my > 0 then
           if lock_count s c > 0
           then Some (False, upd_task my (\<lambda>x. x\<lparr>reschedule := True\<rparr>) s)
           else do {
             s \<leftarrow> k_sched_enqueue c my s;
             s \<leftarrow> k_sched_yield_locked c (K_Yield (tcontext (tasks s my))) s;
             Some (True, s)
           }
         else Some (False, s)
   }"

subsection \<open>Timeouts\<close>

definition k_task_timeout_callback ::
  "cpu_id \<Rightarrow> tid \<Rightarrow> sched \<times> tid tqueue \<Rightarrow> (sched \<times> tid tqueue) option" where
  "k_task_timeout_callback c t sq =
     (if tstate (tasks (fst sq) t) = SLEEP
      then do { s \<leftarrow> k_sched_resume c t (- ETIMEDOUT) (fst sq); Some (s, snd sq) }
      else Some sq)"

definition k_sched_check_quantum :: "cpu_id \<Rightarrow> sched \<Rightarrow> sched option" where
  "k_sched_check_quantum c s =
     (case cur s c of
        None \<Rightarrow> Some s
      | Some t \<Rightarrow> do {
          s \<leftarrow> sched_lock c s;
          let s = upd_task t (\<lambda>x. x\<lparr>reschedule := True\<rparr>) s;
          sched_unlock c s
        })"

definition k_sched_adjust_timeouts :: "cpu_id \<Rightarrow> int \<Rightarrow> sched \<Rightarrow> sched option" where
  "k_sched_adjust_timeouts c delta s = do {
     s \<leftarrow> sched_lock c s;
     (s, q) \<leftarrow> timeout_queue_adjust (length (timeouts s) + 2) (k_task_timeout_callback c) delta
       (s, timeouts s);
     sched_unlock c (s\<lparr>timeouts := q\<rparr>)
   }"

subsection \<open>Priority inheritance\<close>

text \<open>
  \<open>_k_mutex_may_raise_priority\<close> and \<open>_k_sched_raise_priority\<close> call each other along the chain
  mutex, owner, mutex the owner waits for, \dots  The recursion is on the first; the second is
  unfolded in its body and then defined from it.
\<close>

partial_function (option) k_mutex_may_raise_priority ::
  "cpu_id \<Rightarrow> mid \<Rightarrow> nat \<Rightarrow> sched \<Rightarrow> sched option" where
  "k_mutex_may_raise_priority c m priority s = do {
     ow \<leftarrow> owner (mutexes s m);
     if mprio (mutexes s m) > priority then
       let s = upd_mutex m (\<lambda>x. x\<lparr>mprio := priority\<rparr>) s in
       if prio (tasks s ow) > priority then do {
         k_assert (slock s = Some c);
         let s = upd_task ow (\<lambda>x. x\<lparr>prio := priority\<rparr>) s;
         if tstate (tasks s ow) = READY then k_sched_enqueue c ow (link_remove ow s)
         else if sleeping (tstate (tasks s ow)) then
           (case sleep_on_mutex (tasks s ow) of
              None \<Rightarrow> Some s
            | Some m' \<Rightarrow> do {
                s \<leftarrow> k_sched_add (MutexQ m') ow (link_remove ow s);
                k_mutex_may_raise_priority c m' priority s
              })
         else Some s
       }
       else Some s
     else Some s
   }"

declare k_mutex_may_raise_priority.simps [code]

definition k_sched_raise_priority :: "cpu_id \<Rightarrow> tid \<Rightarrow> nat \<Rightarrow> sched \<Rightarrow> sched option" where
  "k_sched_raise_priority c t priority s = do {
     k_assert (slock s = Some c);
     k_assert (prio (tasks s t) > priority);
     let s = upd_task t (\<lambda>x. x\<lparr>prio := priority\<rparr>) s;
     if tstate (tasks s t) = READY then k_sched_enqueue c t (link_remove t s)
     else if sleeping (tstate (tasks s t)) then
       (case sleep_on_mutex (tasks s t) of
          None \<Rightarrow> Some s
        | Some m' \<Rightarrow> do {
            s \<leftarrow> k_sched_add (MutexQ m') t (link_remove t s);
            k_mutex_may_raise_priority c m' priority s
          })
     else Some s
   }"

definition k_mutex_get_highest_priority :: "mid list \<Rightarrow> sched \<Rightarrow> nat" where
  "k_mutex_get_highest_priority ms s =
     fold (\<lambda>m p. if mprio (mutexes s m) < p then mprio (mutexes s m) else p) ms K_TASK_MAX_PRIORITIES"

definition k_sched_update_effective_priority :: "cpu_id \<Rightarrow> sched \<Rightarrow> sched option" where
  "k_sched_update_effective_priority c s = do {
     t \<leftarrow> cur s c;
     let new_priority = saved_prio (tasks s t);
     let max_mutex_priority = k_mutex_get_highest_priority (owned (tasks s t)) s;
     let new_priority = (if max_mutex_priority < new_priority then max_mutex_priority else new_priority);
     Some (upd_task t (\<lambda>x. x\<lparr>prio := new_priority\<rparr>) s)
   }"

lemma k_mutex_may_raise_priority_unfold:
  "k_mutex_may_raise_priority c m priority s = do {
     ow \<leftarrow> owner (mutexes s m);
     if mprio (mutexes s m) > priority then
       let s = upd_mutex m (\<lambda>x. x\<lparr>mprio := priority\<rparr>) s in
       if prio (tasks s ow) > priority then k_sched_raise_priority c ow priority s
       else Some s
     else Some s
   }"
  by (subst k_mutex_may_raise_priority.simps, cases "owner (mutexes s m)")
    (simp_all add: k_sched_raise_priority_def Let_def)

subsection \<open>The invariant\<close>

text \<open>The queues hold exactly the tasks whose link says so, each once.\<close>

definition link_ok :: "sched \<Rightarrow> bool" where
  "link_ok s \<longleftrightarrow> (\<forall>t q. t \<in> set (queues s q) \<longleftrightarrow> link (tasks s t) = Some q) \<and>
     (\<forall>q. distinct (queues s q))"

text \<open>The fields of one task agree: a ready task is on the run queue of its priority and only
  such a task is; a task on a wait queue is asleep; a task waits in the queue of a mutex
  exactly when it sleeps for this mutex.\<close>

definition ktask_ok :: "ktask \<Rightarrow> bool" where
  "ktask_ok x \<longleftrightarrow>
     (\<forall>p. link x = Some (RunQ p) \<longrightarrow> tstate x = READY \<and> prio x = p) \<and>
     (tstate x = READY \<longrightarrow> link x = Some (RunQ (prio x))) \<and>
     (link x \<noteq> None \<longrightarrow> tstate x = READY \<or> sleeping (tstate x)) \<and>
     (\<forall>m. link x = Some (MutexQ m) \<longleftrightarrow> sleeping (tstate x) \<and> sleep_on_mutex x = Some m) \<and>
     prio x \<le> saved_prio x \<and> saved_prio x < K_TASK_MAX_PRIORITIES"

text \<open>A CPU runs at most one task and a running task runs on exactly one CPU.\<close>

definition cur_ok :: "sched \<Rightarrow> bool" where
  "cur_ok s \<longleftrightarrow> (\<forall>c t. cur s c = Some t \<longrightarrow> tstate (tasks s t) = RUNNING) \<and>
     (\<forall>t. tstate (tasks s t) = RUNNING \<longrightarrow> (\<exists>c. cur s c = Some t)) \<and>
     (\<forall>c c' t. cur s c = Some t \<longrightarrow> cur s c' = Some t \<longrightarrow> c = c')"

fun kont_timeout :: "kont \<Rightarrow> int" where
  "kont_timeout (K_Sleep n) = n"
| "kont_timeout (K_MutexLock m n) = n"
| "kont_timeout (K_CondWait m n) = n"
| "kont_timeout (K_SemGet i n u) = n"
| "kont_timeout _ = 0"

text \<open>A task is on the timeout queue, or marked as waiting for a mutex, only while it has not
  yet returned from its sleep.  The tasks in \<open>A\<close> are just about to.\<close>

definition asleep_task :: "bool \<Rightarrow> ktask \<Rightarrow> bool" where
  "asleep_task on_timeouts x \<longleftrightarrow>
     (on_timeouts \<longrightarrow> (tstate x = READY \<or> sleeping (tstate x)) \<and> kont_timeout (tcontext x) \<noteq> 0) \<and>
     (sleep_on_mutex x \<noteq> None \<longrightarrow> tstate x = READY \<or> sleeping (tstate x))"

definition asleep_ok :: "tid set \<Rightarrow> sched \<Rightarrow> bool" where
  "asleep_ok A s \<longleftrightarrow> tq_inv (timeouts s) \<and>
     (\<forall>t. t \<in> A \<or> asleep_task (t \<in> fst ` set (timeouts s)) (tasks s t))"

definition sched_inv :: "tid set \<Rightarrow> sched \<Rightarrow> bool" where
  "sched_inv A s \<longleftrightarrow> link_ok s \<and> (\<forall>t. ktask_ok (tasks s t)) \<and> cur_ok s \<and> asleep_ok A s"

lemmas sched_inv_defs = sched_inv_def link_ok_def ktask_ok_def cur_ok_def asleep_ok_def

subsection \<open>Moving a task between queues\<close>

lemma link_ok_cong:
  assumes "\<And>t. link (tasks s' t) = link (tasks s t)" and "queues s' = queues s"
  shows "link_ok s' \<longleftrightarrow> link_ok s"
  using assms by (simp add: link_ok_def)

lemma link_ok_remove:
  assumes "link_ok s"
  shows "link_ok (link_remove t s)"
proof (cases "link (tasks s t)")
  case None
  with assms show ?thesis by (simp add: link_remove_def)
next
  case (Some q)
  have "x \<in> set (queues (link_remove t s) q') \<longleftrightarrow> link (tasks (link_remove t s) x) = Some q'" for x q'
    using assms Some by (auto simp: link_remove_def link_ok_def set_remove1_eq)
  moreover have "distinct (queues (link_remove t s) q')" for q'
    using assms Some by (auto simp: link_remove_def link_ok_def)
  ultimately show ?thesis by (simp add: link_ok_def)
qed

lemma link_remove_simps [simp]:
  "link (tasks (link_remove t s) t) = None"
  "t' \<noteq> t \<Longrightarrow> tasks (link_remove t s) t' = tasks s t'"
  "tstate (tasks (link_remove t s) x) = tstate (tasks s x)"
  "prio (tasks (link_remove t s) x) = prio (tasks s x)"
  "saved_prio (tasks (link_remove t s) x) = saved_prio (tasks s x)"
  "owned (tasks (link_remove t s) x) = owned (tasks s x)"
  "sleep_on_mutex (tasks (link_remove t s) x) = sleep_on_mutex (tasks s x)"
  "tcontext (tasks (link_remove t s) x) = tcontext (tasks s x)"
  "sleep_result (tasks (link_remove t s) x) = sleep_result (tasks s x)"
  "reschedule (tasks (link_remove t s) x) = reschedule (tasks s x)"
  "mutexes (link_remove t s) = mutexes s"
  "sems (link_remove t s) = sems s"
  "timeouts (link_remove t s) = timeouts s"
  "cur (link_remove t s) = cur s"
  "lock_count (link_remove t s) = lock_count s"
  "slock (link_remove t s) = slock s"
  by (auto simp: link_remove_def split: option.split)

lemma link_remove_idem [simp]: "link_remove t (link_remove t s) = link_remove t s"
  by (subst link_remove_def) simp

lemma link_remove_null [simp]: "link (tasks s t) = None \<Longrightarrow> link_remove t s = s"
  by (simp add: link_remove_def)

lemma link_remove_queues:
  "link_ok s \<Longrightarrow> queues (link_remove t s) q = filter (\<lambda>x. x \<noteq> t) (queues s q)"
proof (cases "link (tasks s t) = Some q")
  case True
  assume "link_ok s"
  with True show ?thesis
    by (simp add: link_remove_def link_ok_def filter_neq_remove1)
next
  case False
  assume "link_ok s"
  with False have "t \<notin> set (queues s q)" by (simp add: link_ok_def)
  then have "filter (\<lambda>x. x \<noteq> t) (queues s q) = queues s q" by (intro filter_True) auto
  with False show ?thesis by (auto simp: link_remove_def split: option.split)
qed

lemma link_remove_task:
  "tasks (link_remove t s) t = (tasks s t)\<lparr>link := None\<rparr>"
  by (auto simp: link_remove_def split: option.split)

text \<open>Taking a task off its queue and inserting it into queue \<open>q\<close>.\<close>

definition moved :: "tid \<Rightarrow> qid \<Rightarrow> (tid list \<Rightarrow> tid list) \<Rightarrow> sched \<Rightarrow> sched" where
  "moved t q ins s = (upd_task t (\<lambda>x. x\<lparr>link := Some q\<rparr>) (link_remove t s))
     \<lparr>queues := (queues (link_remove t s))(q := ins (queues (link_remove t s) q))\<rparr>"

definition inserts :: "tid \<Rightarrow> (tid list \<Rightarrow> tid list) \<Rightarrow> bool" where
  "inserts t ins \<longleftrightarrow> (\<forall>xs. t \<notin> set xs \<longrightarrow> distinct xs \<longrightarrow>
     distinct (ins xs) \<and> set (ins xs) = insert t (set xs))"

lemma inserts_back [simp]: "inserts t (\<lambda>xs. xs @ [t])"
  by (auto simp: inserts_def)

lemma set_sched_insert: "set (sched_insert s t xs) = insert t (set xs)"
  by (induction s t xs rule: sched_insert.induct) auto

lemma inserts_sched_insert [simp]: "inserts t (sched_insert s t)"
proof -
  have "t \<notin> set xs \<Longrightarrow> distinct xs \<Longrightarrow> distinct (sched_insert s t xs)" for xs
    by (induction s t xs rule: sched_insert.induct) (auto simp: set_sched_insert)
  then show ?thesis by (simp add: inserts_def set_sched_insert)
qed

lemma moved_link_ok:
  assumes "link_ok s" and "inserts t ins"
  shows "link_ok (moved t q ins s)"
proof -
  let ?s = "link_remove t s"
  have l: "link_ok ?s" by (rule link_ok_remove [OF assms(1)])
  then have t: "t \<notin> set (queues ?s q')" for q'
    by (simp add: link_ok_def)
  with l assms(2) have i: "distinct (ins (queues ?s q))"
    "set (ins (queues ?s q)) = insert t (set (queues ?s q))"
    by (auto simp: inserts_def link_ok_def)
  have "x \<in> set (queues (moved t q ins s) q') \<longleftrightarrow> link (tasks (moved t q ins s) x) = Some q'" for x q'
    using l t i(2) by (auto simp: moved_def link_ok_def)
  moreover have "distinct (queues (moved t q ins s) q')" for q'
    using l i(1) by (simp add: moved_def link_ok_def)
  ultimately show ?thesis by (simp add: link_ok_def)
qed

lemma moved_simps [simp]:
  "tasks (moved t q ins s) = (tasks s)(t := (tasks s t)\<lparr>link := Some q\<rparr>)"
  "mutexes (moved t q ins s) = mutexes s"
  "sems (moved t q ins s) = sems s"
  "timeouts (moved t q ins s) = timeouts s"
  "cur (moved t q ins s) = cur s"
  "lock_count (moved t q ins s) = lock_count s"
  "slock (moved t q ins s) = slock s"
  by (auto simp: moved_def link_remove_task fun_eq_iff)

lemma moved_queues:
  "link_ok s \<Longrightarrow> queues (moved t q ins s) q' =
     (if q' = q then ins (filter (\<lambda>x. x \<noteq> t) (queues s q)) else filter (\<lambda>x. x \<noteq> t) (queues s q'))"
  by (simp add: moved_def link_remove_queues)

lemma link_add_back_removed:
  "link_add_back q t (link_remove t s) = Some (moved t q (\<lambda>xs. xs @ [t]) s)"
  by (simp add: link_add_back_def moved_def)

lemma k_sched_add_removed:
  "k_sched_add q t (link_remove t s) = Some (moved t q (sched_insert (link_remove t s) t) s)"
  by (simp add: k_sched_add_def moved_def)

subsection \<open>The operations preserve the invariant\<close>

text \<open>Changes of fields the invariant does not mention.\<close>

lemma sched_inv_slock [simp]: "sched_inv A (s\<lparr>slock := l\<rparr>) \<longleftrightarrow> sched_inv A s"
  by (simp add: sched_inv_defs)

lemma sched_inv_lock_count [simp]: "sched_inv A (s\<lparr>lock_count := l\<rparr>) \<longleftrightarrow> sched_inv A s"
  by (simp add: sched_inv_defs)

lemma sched_inv_mutexes [simp]: "sched_inv A (s\<lparr>mutexes := l\<rparr>) \<longleftrightarrow> sched_inv A s"
  by (simp add: sched_inv_defs)

lemma sched_inv_sems [simp]: "sched_inv A (s\<lparr>sems := l\<rparr>) \<longleftrightarrow> sched_inv A s"
  by (simp add: sched_inv_defs)

lemma sched_inv_conds [simp]: "sched_inv A (s\<lparr>conds := l\<rparr>) \<longleftrightarrow> sched_inv A s"
  by (simp add: sched_inv_defs)

text \<open>A change of one task that keeps its link and state.\<close>

lemma sched_inv_upd_task:
  assumes "sched_inv A s" and "ktask_ok (f (tasks s t))"
    and "link (f (tasks s t)) = link (tasks s t)" and "tstate (f (tasks s t)) = tstate (tasks s t)"
    and "t \<in> A \<or> (sleep_on_mutex (f (tasks s t)) = sleep_on_mutex (tasks s t) \<and>
      tcontext (f (tasks s t)) = tcontext (tasks s t))"
  shows "sched_inv A (upd_task t f s)"
proof -
  have "link_ok (upd_task t f s) \<longleftrightarrow> link_ok s" by (rule link_ok_cong) (use assms(3) in auto)
  moreover have "cur_ok (upd_task t f s)" using assms(1,4) by (auto simp: sched_inv_def cur_ok_def)
  moreover have "asleep_ok A (upd_task t f s)"
    using assms(1,4,5) by (auto simp: sched_inv_def asleep_ok_def asleep_task_def)
  ultimately show ?thesis using assms(1,2) by (simp add: sched_inv_def)
qed

lemma sched_inv_task: "sched_inv A s \<Longrightarrow> ktask_ok (tasks s t)"
  by (simp add: sched_inv_def)

lemma ktask_ok_irrelevant [simp]:
  "ktask_ok (x\<lparr>reschedule := b\<rparr>) = ktask_ok x"
  "ktask_ok (x\<lparr>tcontext := k\<rparr>) = ktask_ok x"
  "ktask_ok (x\<lparr>sleep_result := r\<rparr>) = ktask_ok x"
  "ktask_ok (x\<lparr>owned := ms\<rparr>) = ktask_ok x"
  by (simp_all add: ktask_ok_def)

lemma ktask_ok_ready_link: "ktask_ok x \<Longrightarrow> tstate x = READY \<Longrightarrow> link x = Some (RunQ (prio x))"
  unfolding ktask_ok_def by blast

lemma ktask_ok_linked: "ktask_ok x \<Longrightarrow> link x = Some q \<Longrightarrow> tstate x = READY \<or> sleeping (tstate x)"
  unfolding ktask_ok_def by blast

lemma ktask_ok_run_queue: "ktask_ok x \<Longrightarrow> link x = Some (RunQ p) \<Longrightarrow> tstate x = READY \<and> prio x = p"
  unfolding ktask_ok_def by blast

lemma ktask_ok_mutex_queue:
  "ktask_ok x \<Longrightarrow> link x = Some (MutexQ m) \<longleftrightarrow> sleeping (tstate x) \<and> sleep_on_mutex x = Some m"
  unfolding ktask_ok_def by blast

lemma ktask_ok_prio: "ktask_ok x \<Longrightarrow> prio x \<le> saved_prio x \<and> saved_prio x < K_TASK_MAX_PRIORITIES"
  unfolding ktask_ok_def by blast

lemma ktask_ok_ready:
  "ktask_ok x \<Longrightarrow> ktask_ok (x\<lparr>link := Some (RunQ (prio x)), tstate := READY\<rparr>)"
  by (simp add: ktask_ok_def sleeping_def)

lemma sched_inv_reschedule [simp]:
  "sched_inv A s \<Longrightarrow> sched_inv A (upd_task t (\<lambda>x. x\<lparr>reschedule := b\<rparr>) s)"
  by (rule sched_inv_upd_task) (simp_all add: sched_inv_task)

text \<open>A change that moves one task \<open>t\<close> to another queue and state, keeping the CPUs.\<close>

lemma sched_inv_moved:
  assumes inv: "sched_inv A s" and ins: "inserts t ins"
    and ok: "ktask_ok (f (tasks s t))" and link: "link (f (tasks s t)) = Some q"
    and nr: "tstate (tasks s t) \<noteq> RUNNING" "tstate (f (tasks s t)) \<noteq> RUNNING"
    and same: "tcontext (f (tasks s t)) = tcontext (tasks s t)"
  shows "sched_inv A ((moved t q ins s)\<lparr>tasks := (tasks s)(t := f (tasks s t))\<rparr>)"
    (is "sched_inv A ?s")
proof -
  have "link_ok ?s \<longleftrightarrow> link_ok (moved t q ins s)"
    by (rule link_ok_cong) (use link in auto)
  then have "link_ok ?s" using inv ins moved_link_ok by (simp add: sched_inv_def)
  moreover have "cur_ok ?s" using inv nr by (auto simp: sched_inv_def cur_ok_def)
  moreover have "tstate (f (tasks s t)) = READY \<or> sleeping (tstate (f (tasks s t)))"
    by (rule ktask_ok_linked [OF ok link])
  with inv same have "t \<in> A \<or> asleep_task (t \<in> fst ` set (timeouts s)) (f (tasks s t))"
    by (auto simp: sched_inv_def asleep_ok_def asleep_task_def)
  then have "asleep_ok A ?s" using inv by (simp add: sched_inv_def asleep_ok_def)
  ultimately show ?thesis using inv ok by (simp add: sched_inv_def)
qed

definition resumed :: "tid \<Rightarrow> int \<Rightarrow> sched \<Rightarrow> sched" where
  "resumed t r s = (moved t (RunQ (prio (tasks s t))) (\<lambda>xs. xs @ [t]) s)
     \<lparr>tasks := (tasks s)(t := (tasks s t)
        \<lparr>link := Some (RunQ (prio (tasks s t))), tstate := READY, sleep_result := r\<rparr>)\<rparr>"

lemma prio_bound: "sched_inv A s \<Longrightarrow> prio (tasks s t) < K_TASK_MAX_PRIORITIES"
  using sched_inv_task [of A s t] by (simp add: ktask_ok_def)

lemma k_sched_resume_eq:
  assumes "sched_inv A s" and "slock s = Some c"
  shows "k_sched_resume c t r s =
    Some (if sleeping (tstate (tasks s t)) then resumed t r s else s)"
proof (cases "sleeping (tstate (tasks s t))")
  case True
  then show ?thesis
    using assms(2) prio_bound [OF assms(1), of t]
    by (simp add: k_sched_resume_def k_sched_enqueue_def link_add_back_def resumed_def moved_def
        link_remove_task Let_def)
      (simp add: link_remove_def fun_eq_iff split: option.split)
next
  case False
  with assms(2) show ?thesis by (simp add: k_sched_resume_def)
qed

lemma resumed_inv:
  assumes "sched_inv A s" and "sleeping (tstate (tasks s t))"
  shows "sched_inv A (resumed t r s)"
  unfolding resumed_def using assms
  by (intro sched_inv_moved [where f = "\<lambda>x. x\<lparr>link := Some (RunQ (prio x)), tstate := READY, sleep_result := r\<rparr>"])
    (use sched_inv_task [of A s t] in \<open>auto simp: ktask_ok_def sleeping_def\<close>)

lemma resumed_simps [simp]:
  "mutexes (resumed t r s) = mutexes s"
  "sems (resumed t r s) = sems s"
  "timeouts (resumed t r s) = timeouts s"
  "cur (resumed t r s) = cur s"
  "lock_count (resumed t r s) = lock_count s"
  "slock (resumed t r s) = slock s"
  "tasks (resumed t r s) = (tasks s)(t := (tasks s t)
     \<lparr>link := Some (RunQ (prio (tasks s t))), tstate := READY, sleep_result := r\<rparr>)"
  by (simp_all add: resumed_def)

lemma resumed_queues:
  "sched_inv A s \<Longrightarrow> queues (resumed t r s) q =
     (if q = RunQ (prio (tasks s t)) then filter (\<lambda>x. x \<noteq> t) (queues s q) @ [t]
      else filter (\<lambda>x. x \<noteq> t) (queues s q))"
  by (simp add: resumed_def moved_queues sched_inv_def)

subsubsection \<open>Waking up\<close>

text \<open>The queues tasks sleep on.\<close>

fun is_wait_queue :: "qid \<Rightarrow> bool" where
  "is_wait_queue (RunQ p) = False"
| "is_wait_queue _ = True"

lemma ktask_ok_wait:
  assumes "ktask_ok x" and "link x = Some q" and "is_wait_queue q"
  shows "sleeping (tstate x)"
  using ktask_ok_linked [OF assms(1,2)] ktask_ok_ready_link [OF assms(1)] assms(2,3)
  by (metis is_wait_queue.simps(1) option.inject)

lemma wait_queue_sleeping:
  assumes "sched_inv A s" and "is_wait_queue q" and "t \<in> set (queues s q)"
  shows "sleeping (tstate (tasks s t))"
proof -
  have "link (tasks s t) = Some q" using assms(1,3) by (simp add: sched_inv_def link_ok_def)
  from ktask_ok_wait [OF sched_inv_task [OF assms(1), of t] this assms(2)] show ?thesis .
qed

lemma k_sched_wakeup_one_eq:
  assumes "sched_inv A s" and "slock s = Some c" and "is_wait_queue q"
  shows "k_sched_wakeup_one_locked c q r s =
    Some (case queues s q of [] \<Rightarrow> (None, s) | t # _ \<Rightarrow> (Some t, resumed t r s))"
  using assms wait_queue_sleeping [OF assms(1,3)]
  by (auto simp: k_sched_wakeup_one_locked_def k_sched_resume_eq split: list.split)

lemma resumed_wait_queue:
  assumes "sched_inv A s" and "is_wait_queue q" and "queues s q = t # ts"
  shows "queues (resumed t r s) q = ts"
proof -
  have "distinct (t # ts)" using assms(1,3) by (metis link_ok_def sched_inv_def)
  with assms show ?thesis by (cases q) (auto simp: resumed_queues)
qed

definition woken_all :: "qid \<Rightarrow> int \<Rightarrow> sched \<Rightarrow> sched" where
  "woken_all q r s = fold (\<lambda>t. resumed t r) (queues s q) s"

lemma k_sched_wakeup_all_loop_eq:
  assumes "sched_inv A s" and "slock s = Some c" and "is_wait_queue q" and "queues s q = ts"
  shows "k_sched_wakeup_all_loop (length ts) c q r s = Some (fold (\<lambda>t. resumed t r) ts s) \<and>
    sched_inv A (fold (\<lambda>t. resumed t r) ts s)"
  using assms
proof (induction ts arbitrary: s)
  case Nil
  then show ?case by simp
next
  case (Cons t ts)
  have sl: "sleeping (tstate (tasks s t))"
    using wait_queue_sleeping [OF Cons.prems(1,3), of t] Cons.prems(4) by simp
  have "queues (resumed t r s) q = ts" by (rule resumed_wait_queue [OF Cons.prems(1,3,4)])
  with Cons.IH [OF resumed_inv [OF Cons.prems(1) sl]] Cons.prems sl show ?case
    by (simp add: k_sched_resume_eq)
qed

lemma k_sched_wakeup_all_eq:
  assumes "sched_inv A s" and "slock s = Some c" and "is_wait_queue q"
  shows "k_sched_wakeup_all_locked c q r s = Some (woken_all q r s)"
    and "sched_inv A (woken_all q r s)"
  using k_sched_wakeup_all_loop_eq [OF assms refl, of r] assms(2)
  by (simp_all add: k_sched_wakeup_all_locked_def woken_all_def)

lemma fold_resumed_fields:
  "mutexes (fold (\<lambda>t. resumed t r) ts s) = mutexes s \<and>
   sems (fold (\<lambda>t. resumed t r) ts s) = sems s \<and>
   timeouts (fold (\<lambda>t. resumed t r) ts s) = timeouts s \<and>
   cur (fold (\<lambda>t. resumed t r) ts s) = cur s \<and>
   lock_count (fold (\<lambda>t. resumed t r) ts s) = lock_count s \<and>
   slock (fold (\<lambda>t. resumed t r) ts s) = slock s"
  by (induction ts arbitrary: s) simp_all

lemma fold_resumed_tasks:
  "tasks (fold (\<lambda>t. resumed t r) ts s) x =
     (if x \<in> set ts then (tasks s x)
        \<lparr>link := Some (RunQ (prio (tasks s x))), tstate := READY, sleep_result := r\<rparr>
      else tasks s x)"
  by (induction ts arbitrary: s) auto

lemmas woken_all_fields = fold_resumed_fields [of r "queues s q" s for r q s, folded woken_all_def]
lemmas woken_all_tasks = fold_resumed_tasks [of r "queues s q" s for r q s, folded woken_all_def]

lemma woken_all_empties:
  assumes "sched_inv A s" and "slock s = Some c" and "is_wait_queue q"
  shows "queues (woken_all q r s) q = []"
proof -
  let ?s = "woken_all q r s"
  have inv: "sched_inv A ?s" by (rule k_sched_wakeup_all_eq [OF assms])
  have "t \<notin> set (queues ?s q)" for t
  proof
    assume t: "t \<in> set (queues ?s q)"
    then have q: "link (tasks ?s t) = Some q" using inv by (simp add: sched_inv_def link_ok_def)
    show False
    proof (cases "t \<in> set (queues s q)")
      case True
      then show False using q assms(3) by (cases q) (auto simp: woken_all_tasks)
    next
      case False
      then show False using q assms(1) by (simp add: woken_all_tasks sched_inv_def link_ok_def)
    qed
  qed
  then show ?thesis by (meson list.set_sel(1) neq_Nil_conv)
qed

subsubsection \<open>Leaving and taking a CPU\<close>

lemma cur_running: "sched_inv A s \<Longrightarrow> cur s c = Some t \<Longrightarrow> tstate (tasks s t) = RUNNING"
  by (simp add: sched_inv_def cur_ok_def)

lemma running_unlinked: "sched_inv A s \<Longrightarrow> cur s c = Some t \<Longrightarrow> link (tasks s t) = None"
  using cur_running [of A s c t] sched_inv_task [of A s t]
  by (auto simp: ktask_ok_def sleeping_def)

lemma sched_inv_mono: "sched_inv A s \<Longrightarrow> A \<subseteq> B \<Longrightarrow> sched_inv B s"
  by (auto simp: sched_inv_def asleep_ok_def)

lemma asleep_task_off: "sleep_on_mutex x = None \<Longrightarrow> asleep_task False x"
  by (simp add: asleep_task_def)

lemma asleep_task_weaken: "asleep_task b x \<Longrightarrow> (b' \<Longrightarrow> b) \<Longrightarrow> asleep_task b' x"
  by (auto simp: asleep_task_def)

lemma sched_inv_shrink:
  assumes "sched_inv {t} s" and "t \<notin> fst ` set (timeouts s)" and "sleep_on_mutex (tasks s t) = None"
  shows "sched_inv {} s"
proof -
  have "asleep_task (t \<in> fst ` set (timeouts s)) (tasks s t)"
    using assms(2,3) by (simp add: asleep_task_off)
  with assms(1) show ?thesis unfolding sched_inv_def asleep_ok_def by auto
qed

lemma running_not_waiting:
  assumes "sched_inv {} s" and "cur s c = Some t"
  shows "t \<notin> fst ` set (timeouts s)" and "sleep_on_mutex (tasks s t) = None"
proof -
  have "tstate (tasks s t) = RUNNING" by (rule cur_running [OF assms])
  moreover have "asleep_task (t \<in> fst ` set (timeouts s)) (tasks s t)"
    using assms(1) by (simp add: sched_inv_def asleep_ok_def)
  ultimately show "t \<notin> fst ` set (timeouts s)" and "sleep_on_mutex (tasks s t) = None"
    by (auto simp: asleep_task_def sleeping_def)
qed

lemma cur_ok_leave:
  assumes "cur_ok s" and "cur s c = Some t" and "tstate x \<noteq> RUNNING"
    and "tasks s' = (tasks s)(t := x)" and "cur s' = (cur s)(c := None)"
  shows "cur_ok s'"
proof -
  have 1: "\<exists>ca. ca \<noteq> c \<and> cur s ca = Some u" if "u \<noteq> t" "tstate (tasks s u) = RUNNING" for u
    using assms(1,2) that unfolding cur_ok_def by (metis option.inject)
  have 2: "tstate (tasks s u) = RUNNING \<and> u \<noteq> t" if "ca \<noteq> c" "cur s ca = Some u" for ca u
    using assms(1,2) that unfolding cur_ok_def by metis
  show ?thesis unfolding cur_ok_def
  proof (intro conjI allI impI)
    fix u assume "tstate (tasks s' u) = RUNNING"
    with assms(3,4) have "u \<noteq> t" "tstate (tasks s u) = RUNNING" by (auto split: if_splits)
    from 1 [OF this] show "\<exists>c. cur s' c = Some u" using assms(5) by auto
  qed (use 2 assms in \<open>auto simp: cur_ok_def split: if_splits\<close>)
qed

lemma asleep_ok_leave:
  assumes "sched_inv {t} s" and "tq_inv tos" and "fst ` set tos \<subseteq> insert t (fst ` set (timeouts s))"
    and "asleep_task (t \<in> fst ` set tos) x"
    and "tasks s' = (tasks s)(t := x)" and "timeouts s' = tos"
  shows "asleep_ok {} s'"
proof -
  have "asleep_task (u \<in> fst ` set tos) (tasks s u)" if "u \<noteq> t" for u
  proof (rule asleep_task_weaken)
    show "asleep_task (u \<in> fst ` set (timeouts s)) (tasks s u)"
      using assms(1) that by (auto simp: sched_inv_def asleep_ok_def)
  qed (use assms(3) that in blast)
  with assms(2,4-6) show ?thesis by (simp add: asleep_ok_def)
qed

lemma sched_inv_leave:
  assumes inv: "sched_inv {t} s" and cur: "cur s c = Some t" and ok: "ktask_ok x"
    and link: "link x = None" and nr: "tstate x \<noteq> RUNNING"
    and tos: "tq_inv tos" "fst ` set tos \<subseteq> insert t (fst ` set (timeouts s))"
    and sl: "asleep_task (t \<in> fst ` set tos) x"
  shows "sched_inv {} (s\<lparr>tasks := (tasks s)(t := x), cur := (cur s)(c := None), timeouts := tos\<rparr>)"
    (is "sched_inv {} ?s")
proof -
  have "link_ok ?s \<longleftrightarrow> link_ok s"
    by (rule link_ok_cong) (use link running_unlinked [OF inv cur] in auto)
  moreover have "cur_ok ?s"
    by (rule cur_ok_leave [OF _ cur nr]) (use inv in \<open>simp_all add: sched_inv_def\<close>)
  moreover have "asleep_ok {} ?s" by (rule asleep_ok_leave [OF inv tos sl]) simp_all
  ultimately show ?thesis using inv ok by (simp add: sched_inv_def)
qed

lemma sched_inv_leave_queue:
  assumes inv: "sched_inv {t} s" and cur: "cur s c = Some t" and ins: "inserts t ins"
    and ok: "ktask_ok x" and link: "link x = Some q"
    and tos: "tq_inv tos" "fst ` set tos \<subseteq> insert t (fst ` set (timeouts s))"
    and sl: "t \<in> fst ` set tos \<longrightarrow> kont_timeout (tcontext x) \<noteq> 0"
  shows "sched_inv {} ((moved t q ins s)
    \<lparr>tasks := (tasks s)(t := x), cur := (cur s)(c := None), timeouts := tos\<rparr>)"
    (is "sched_inv {} ?s")
proof -
  have st: "tstate x = READY \<or> sleeping (tstate x)" by (rule ktask_ok_linked [OF ok link])
  then have nr: "tstate x \<noteq> RUNNING" by (auto simp: sleeping_def)
  have a: "asleep_task (t \<in> fst ` set tos) x" using st sl by (simp add: asleep_task_def)
  have "link_ok ?s \<longleftrightarrow> link_ok (moved t q ins s)"
    by (rule link_ok_cong) (use link in auto)
  then have "link_ok ?s" using inv ins moved_link_ok by (simp add: sched_inv_def)
  moreover have "cur_ok ?s"
    by (rule cur_ok_leave [OF _ cur nr]) (use inv in \<open>simp_all add: sched_inv_def\<close>)
  moreover have "asleep_ok {} ?s" by (rule asleep_ok_leave [OF inv tos a]) simp_all
  ultimately show ?thesis using inv ok by (simp add: sched_inv_def)
qed

subsubsection \<open>Sleeping\<close>

lemma sched_insert_cong:
  "(\<And>x. prio (tasks s' x) = prio (tasks s x)) \<Longrightarrow> sched_insert s' t xs = sched_insert s t xs"
  by (induction s t xs rule: sched_insert.induct) (auto simp: k_sched_priority_cmp_def)

definition timeouts_with :: "tid \<Rightarrow> int \<Rightarrow> sched \<Rightarrow> tid tqueue" where
  "timeouts_with t timeout s = (if timeout \<noteq> 0 then timeout_insert t timeout (timeouts s) else timeouts s)"

definition slept :: "cpu_id \<Rightarrow> tid \<Rightarrow> qid \<Rightarrow> task_state \<Rightarrow> int \<Rightarrow> kont \<Rightarrow> sched \<Rightarrow> sched" where
  "slept c t q st timeout k s = (moved t q (sched_insert s t) s)
     \<lparr>tasks := (tasks s)(t := (tasks s t)\<lparr>tstate := st, link := Some q, tcontext := k\<rparr>),
      cur := (cur s)(c := None), timeouts := timeouts_with t timeout s\<rparr>"

lemma timeouts_with_props:
  assumes "sched_inv A s" and "t \<notin> fst ` set (timeouts s)" and "0 \<le> timeout"
  shows "tq_inv (timeouts_with t timeout s)"
    and "fst ` set (timeouts_with t timeout s) \<subseteq> insert t (fst ` set (timeouts s))"
    and "t \<in> fst ` set (timeouts_with t timeout s) \<longrightarrow> timeout \<noteq> 0"
proof -
  have "tq_inv (timeouts s)" using assms(1) by (simp add: sched_inv_def asleep_ok_def)
  then show "tq_inv (timeouts_with t timeout s)"
    using assms(2,3) by (simp add: timeouts_with_def timeout_insert_inv)
  show "fst ` set (timeouts_with t timeout s) \<subseteq> insert t (fst ` set (timeouts s))"
    using timeout_insert_fst [of t timeout "timeouts s"] by (auto simp: timeouts_with_def)
  show "t \<in> fst ` set (timeouts_with t timeout s) \<longrightarrow> timeout \<noteq> 0"
    using assms(2) by (simp add: timeouts_with_def)
qed

lemma k_sched_sleep_begin_eq:
  assumes inv: "sched_inv A s" and lock: "slock s = Some c" and cnt: "lock_count s c \<le> 0"
    and cur: "cur s c = Some t" and t: "t \<notin> fst ` set (timeouts s)" and timeout: "0 \<le> timeout"
  shows "k_sched_sleep_begin c (Some q) st timeout k s = Some (slept c t q st timeout k s)"
proof -
  have null: "link (tasks s t) = None" by (rule running_unlinked [OF inv cur])
  have ins: "sched_insert (s\<lparr>timeouts := tos,
        tasks := (tasks s)(t := (tasks s t)\<lparr>tstate := st\<rparr>)\<rparr>) t xs = sched_insert s t xs"
    "sched_insert (upd_task t (tstate_update (\<lambda>_. st)) s) t xs = sched_insert s t xs" for tos xs
    by (rule sched_insert_cong, simp)+
  show ?thesis
  proof (cases "timeout = 0")
    case True
    with lock cnt cur null show ?thesis
      by (simp add: k_sched_sleep_begin_def k_sched_add_def ins k_sched_yield_locked_def
          k_sched_switch_out_def slept_def moved_def timeouts_with_def Let_def)
  next
    case False
    with timeout t lock cnt cur null show ?thesis
      by (simp add: k_sched_sleep_begin_def k_sched_add_def ins k_sched_yield_locked_def
          timeout_queue_add_def k_sched_switch_out_def slept_def moved_def timeouts_with_def Let_def)
  qed
qed

lemma k_sched_sleep_begin_lock: "k_sched_sleep_begin c q st n k s = Some s' \<Longrightarrow> lock_count s c \<le> 0"
  by (auto simp: k_sched_sleep_begin_def k_assert_def split: if_splits)

lemma slept_inv:
  assumes inv: "sched_inv {t} s" and cur: "cur s c = Some t" and t: "t \<notin> fst ` set (timeouts s)"
    and timeout: "0 \<le> timeout" and k: "kont_timeout k = timeout" and st: "sleeping st"
    and q: "is_wait_queue q" "\<And>m. q = MutexQ m \<longleftrightarrow> sleep_on_mutex (tasks s t) = Some m"
  shows "sched_inv {} (slept c t q st timeout k s)"
proof -
  have "st \<noteq> READY" using st by (auto simp: sleeping_def)
  moreover have "\<And>p. q \<noteq> RunQ p" using q(1) by auto
  ultimately have ok: "ktask_ok ((tasks s t)\<lparr>tstate := st, link := Some q, tcontext := k\<rparr>)"
    using ktask_ok_prio [OF sched_inv_task [OF inv, of t]] st q(2) by (simp add: ktask_ok_def)
  show ?thesis
    unfolding slept_def using timeouts_with_props [OF inv t timeout] k
    by (intro sched_inv_leave_queue [OF inv cur _ ok]) simp_all
qed

lemma slept_simps [simp]:
  "mutexes (slept c t q st timeout k s) = mutexes s"
  "sems (slept c t q st timeout k s) = sems s"
  "cur (slept c t q st timeout k s) = (cur s)(c := None)"
  "lock_count (slept c t q st timeout k s) = lock_count s"
  "slock (slept c t q st timeout k s) = slock s"
  "tasks (slept c t q st timeout k s) =
     (tasks s)(t := (tasks s t)\<lparr>tstate := st, link := Some q, tcontext := k\<rparr>)"
  by (simp_all add: slept_def)

lemma slept_queues:
  assumes "sched_inv A s" and "cur s c = Some t"
  shows "queues (slept c t q st timeout k s) q' =
    (if q' = q then sched_insert s t (queues s q) else queues s q')"
proof -
  have "link_ok s" using assms(1) by (simp add: sched_inv_def)
  moreover have "\<forall>q. t \<notin> set (queues s q)"
    using running_unlinked [OF assms] assms(1) by (simp add: sched_inv_def link_ok_def)
  ultimately show ?thesis by (simp add: slept_def moved_queues)
qed

definition timeouts_without :: "tid \<Rightarrow> int \<Rightarrow> sched \<Rightarrow> tid tqueue" where
  "timeouts_without t timeout s = (if timeout \<noteq> 0 then timeout_delete t (timeouts s) else timeouts s)"

lemma timeout_delete_absent: "t \<notin> fst ` set q \<Longrightarrow> timeout_delete t q = q"
  by (induction t q rule: timeout_delete.induct) auto

lemma k_sched_sleep_end_eq:
  assumes "cur s c = Some t"
  shows "k_sched_sleep_end c timeout s =
    Some (sleep_result (tasks s t), s\<lparr>timeouts := timeouts_without t timeout s\<rparr>)"
proof -
  have "(if timeout \<noteq> 0 \<and> t \<in> fst ` set (timeouts s)
      then do { q \<leftarrow> timeout_queue_remove t (timeouts s); Some (s\<lparr>timeouts := q\<rparr>) } else Some s) =
    Some (s\<lparr>timeouts := timeouts_without t timeout s\<rparr>)"
    by (auto simp: timeout_queue_remove_def timeouts_without_def timeout_delete_absent)
  then show ?thesis using assms by (simp add: k_sched_sleep_end_def)
qed

lemma timeouts_without_props:
  assumes "sched_inv {t} s" and "t \<in> fst ` set (timeouts s) \<longrightarrow> timeout \<noteq> 0"
  shows "t \<notin> fst ` set (timeouts_without t timeout s)"
    and "sched_inv {t} (s\<lparr>timeouts := timeouts_without t timeout s\<rparr>)"
proof -
  let ?q = "timeouts_without t timeout s"
  have tq: "tq_inv (timeouts s)" using assms(1) by (simp add: sched_inv_def asleep_ok_def)
  have "set (map fst (timeout_delete t (timeouts s))) = set (map fst (timeouts s)) - {t}"
    using tq by (simp add: timeout_delete_fst tq_inv_def set_remove1_eq)
  then have fst: "fst ` set ?q = fst ` set (timeouts s) - {t}"
    using assms(2) by (auto simp: timeouts_without_def)
  then show "t \<notin> fst ` set ?q" by simp
  have "tq_inv ?q" using tq by (simp add: timeouts_without_def timeout_delete_inv)
  moreover have "u = t \<or> asleep_task (u \<in> fst ` set ?q) (tasks s u)" for u
  proof (cases "u = t")
    case False
    then have "asleep_task (u \<in> fst ` set (timeouts s)) (tasks s u)"
      using assms(1) by (auto simp: sched_inv_def asleep_ok_def)
    then show ?thesis by (rule asleep_task_weaken [THEN disjI2]) (use fst in auto)
  qed simp
  ultimately show "sched_inv {t} (s\<lparr>timeouts := ?q\<rparr>)"
    using assms(1) by (simp add: sched_inv_def asleep_ok_def link_ok_def cur_ok_def)
qed

subsubsection \<open>Yielding\<close>

definition yielded :: "cpu_id \<Rightarrow> tid \<Rightarrow> kont \<Rightarrow> sched \<Rightarrow> sched" where
  "yielded c t k s = (moved t (RunQ (prio (tasks s t))) (\<lambda>xs. xs @ [t]) s)
     \<lparr>tasks := (tasks s)(t := (tasks s t)
        \<lparr>tstate := READY, link := Some (RunQ (prio (tasks s t))), tcontext := k\<rparr>),
      cur := (cur s)(c := None), timeouts := timeouts s\<rparr>"

lemma yield_eq:
  assumes inv: "sched_inv A s" and lock: "slock s = Some c" and cur: "cur s c = Some t"
  shows "do { s \<leftarrow> k_sched_enqueue c t s; k_sched_yield_locked c k s } = Some (yielded c t k s)"
  using running_unlinked [OF inv cur] lock cur prio_bound [OF inv, of t]
  by (simp add: k_sched_enqueue_def link_add_back_def k_sched_yield_locked_def
      k_sched_switch_out_def yielded_def moved_def Let_def)

lemma yield_bind:
  assumes inv: "sched_inv A s" and lock: "slock s = Some c" and cur: "cur s c = Some t"
  shows "do { s \<leftarrow> k_sched_enqueue c t s; s \<leftarrow> k_sched_yield_locked c k s; f s } = f (yielded c t k s)"
  using yield_eq [OF assms, of k] by (auto simp: Option.bind_eq_Some_conv)

text \<open>The saved context may depend on what the task was doing: \<open>k_sched_enqueue\<close> leaves it alone.\<close>

lemma yield_bind':
  assumes inv: "sched_inv A s" and lock: "slock s = Some c" and cur: "cur s c = Some t"
  shows "do { s \<leftarrow> k_sched_enqueue c t s; s \<leftarrow> k_sched_yield_locked c (k (tcontext (tasks s t))) s; f s } =
    f (yielded c t (k (tcontext (tasks s t))) s)"
  using running_unlinked [OF inv cur] lock cur prio_bound [OF inv, of t]
  by (simp add: k_sched_enqueue_def link_add_back_def k_sched_yield_locked_def
      k_sched_switch_out_def yielded_def moved_def Let_def)

lemma yielded_inv:
  assumes inv: "sched_inv {} s" and cur: "cur s c = Some t"
  shows "sched_inv {} (yielded c t k s)"
proof -
  have ok: "ktask_ok ((tasks s t)\<lparr>tstate := READY, link := Some (RunQ (prio (tasks s t))), tcontext := k\<rparr>)"
    using ktask_ok_prio [OF sched_inv_task [OF inv, of t]] by (simp add: ktask_ok_def sleeping_def)
  have "tq_inv (timeouts s)" using inv by (simp add: sched_inv_def asleep_ok_def)
  from sched_inv_leave_queue [OF sched_inv_mono [OF inv] cur inserts_back ok _ this]
    running_not_waiting [OF inv cur]
  show ?thesis by (simp add: yielded_def subset_insertI)
qed

lemma yielded_simps [simp]:
  "mutexes (yielded c t k s) = mutexes s"
  "sems (yielded c t k s) = sems s"
  "timeouts (yielded c t k s) = timeouts s"
  "cur (yielded c t k s) = (cur s)(c := None)"
  "lock_count (yielded c t k s) = lock_count s"
  "slock (yielded c t k s) = slock s"
  "tasks (yielded c t k s) = (tasks s)(t := (tasks s t)
     \<lparr>tstate := READY, link := Some (RunQ (prio (tasks s t))), tcontext := k\<rparr>)"
  by (simp_all add: yielded_def)

lemma yielded_queues:
  assumes "sched_inv A s" and "cur s c = Some t"
  shows "queues (yielded c t k s) q =
    (if q = RunQ (prio (tasks s t)) then queues s q @ [t] else queues s q)"
proof -
  have "link_ok s" using assms(1) by (simp add: sched_inv_def)
  moreover have "\<forall>q. t \<notin> set (queues s q)"
    using running_unlinked [OF assms] assms(1) by (simp add: sched_inv_def link_ok_def)
  ultimately show ?thesis by (simp add: yielded_def moved_queues)
qed

lemma k_sched_may_yield_eq:
  assumes "sched_inv A s" and "slock s = Some c"
  shows "k_sched_may_yield c t s = Some (case cur s c of
      None \<Rightarrow> (False, s)
    | Some my \<Rightarrow>
        if prio (tasks s t) < prio (tasks s my) then
          if lock_count s c > 0 then (False, upd_task my (\<lambda>x. x\<lparr>reschedule := True\<rparr>) s)
          else (True, yielded c my (K_Yield (tcontext (tasks s my))) s)
        else (False, s))"
  using yield_bind' [OF assms, of _ K_Yield] assms(2)
  by (auto simp: k_sched_may_yield_def k_sched_priority_cmp_def split: option.split)

subsubsection \<open>The scheduler loop\<close>

text \<open>Some ready task has the highest priority, and it is the first of its run queue.\<close>

definition best_ready :: "tid \<Rightarrow> sched \<Rightarrow> bool" where
  "best_ready t s \<longleftrightarrow> tstate (tasks s t) = READY \<and>
     (\<forall>u. tstate (tasks s u) = READY \<longrightarrow> prio (tasks s t) \<le> prio (tasks s u)) \<and>
     (\<exists>ts. queues s (RunQ (prio (tasks s t))) = t # ts)"

lemma ready_queued:
  assumes "sched_inv A s"
  shows "tstate (tasks s t) = READY \<and> prio (tasks s t) = p \<longleftrightarrow> t \<in> set (queues s (RunQ p))"
proof -
  have "t \<in> set (queues s (RunQ p)) \<longleftrightarrow> link (tasks s t) = Some (RunQ p)"
    using assms by (simp add: sched_inv_def link_ok_def)
  with ktask_ok_ready_link [OF sched_inv_task [OF assms, of t]]
    ktask_ok_run_queue [OF sched_inv_task [OF assms, of t]] show ?thesis by auto
qed

lemma k_sched_dequeue_cases:
  assumes inv: "sched_inv A s" and lock: "slock s = Some c"
  obtains (idle) "k_sched_dequeue c s = Some (None, s)" and "\<forall>t. tstate (tasks s t) \<noteq> READY"
  | (run) t where "k_sched_dequeue c s = Some (Some t, link_remove t s)" and "best_ready t s"
proof (cases "List.find (\<lambda>i. queues s (RunQ i) \<noteq> []) [0..<K_TASK_MAX_PRIORITIES]")
  case None
  then have "\<forall>i<K_TASK_MAX_PRIORITIES. queues s (RunQ i) = []" by (auto simp: find_None_iff)
  then have "tstate (tasks s t) \<noteq> READY" for t
    using ready_queued [OF inv, of t "prio (tasks s t)"] prio_bound [OF inv, of t] by auto
  with None lock idle show thesis by (simp add: k_sched_dequeue_def)
next
  case (Some i)
  then have ne: "queues s (RunQ i) \<noteq> []" and least: "\<forall>j<i. queues s (RunQ j) = []"
    by (auto simp: find_Some_iff)
  let ?t = "hd (queues s (RunQ i))"
  have t: "tstate (tasks s ?t) = READY" "prio (tasks s ?t) = i"
    using ready_queued [OF inv, of ?t i] ne by auto
  have "i \<le> prio (tasks s u)" if "tstate (tasks s u) = READY" for u
    using ready_queued [OF inv, of u "prio (tasks s u)"] that least by (metis empty_iff leI list.set(1))
  with t ne have "best_ready ?t s" by (auto simp: best_ready_def neq_Nil_conv)
  with Some lock run [of ?t] show thesis by (simp add: k_sched_dequeue_def Let_def)
qed

lemma cur_ok_enter:
  assumes "cur_ok s" and "cur s c = None" and "tstate (tasks s t) \<noteq> RUNNING" and "tstate x = RUNNING"
    and "tasks s' = (tasks s)(t := x)" and "cur s' = (cur s)(c := Some t)"
  shows "cur_ok s'"
proof -
  have t: "cur s ca \<noteq> Some t" for ca using assms(1,3) unfolding cur_ok_def by blast
  show ?thesis unfolding cur_ok_def
  proof (intro conjI allI impI)
    fix u assume "tstate (tasks s' u) = RUNNING"
    then show "\<exists>ca. cur s' ca = Some u"
    proof (cases "u = t")
      case True
      then show ?thesis using assms(6) by auto
    next
      case False
      then obtain ca where "cur s ca = Some u"
        using assms(1,5) \<open>tstate (tasks s' u) = RUNNING\<close> unfolding cur_ok_def by auto
      moreover from this assms(2) have "ca \<noteq> c" by auto
      ultimately show ?thesis using assms(6) by auto
    qed
  next
    fix ca u assume "cur s' ca = Some u"
    then show "tstate (tasks s' u) = RUNNING"
      using assms(1,4-6) t unfolding cur_ok_def by (auto split: if_splits)
  next
    fix ca cb u assume "cur s' ca = Some u" "cur s' cb = Some u"
    then show "ca = cb"
      using assms(1,6) t unfolding cur_ok_def by (auto split: if_splits)
  qed
qed

lemma link_remove_tasks: "tasks (link_remove t s) = (tasks s)(t := (tasks s t)\<lparr>link := None\<rparr>)"
  by (rule ext) (simp add: link_remove_task)

lemma switched_in_inv:
  assumes inv: "sched_inv {} s" and ready: "tstate (tasks s t) = READY" and cur: "cur s c = None"
  shows "sched_inv {t} (k_sched_switch_in c t (link_remove t s))" (is "sched_inv _ ?s")
proof -
  have l: "link_ok ?s \<longleftrightarrow> link_ok (link_remove t s)"
    by (rule link_ok_cong) (simp_all add: k_sched_switch_in_def)
  have "link_ok ?s" unfolding l using inv by (intro link_ok_remove) (simp add: sched_inv_def)
  moreover have "ktask_ok (tasks ?s u)" for u
  proof (cases "u = t")
    case True
    then show ?thesis using ktask_ok_prio [OF sched_inv_task [OF inv, of t]]
      by (simp add: k_sched_switch_in_def link_remove_task ktask_ok_def sleeping_def)
  next
    case False
    then show ?thesis using sched_inv_task [OF inv, of u] by (simp add: k_sched_switch_in_def)
  qed
  moreover have "cur_ok ?s"
    by (rule cur_ok_enter [of s c t "(tasks s t)\<lparr>link := None, tstate := RUNNING\<rparr>"])
      (use inv cur ready in \<open>simp_all add: sched_inv_def k_sched_switch_in_def link_remove_tasks\<close>)
  moreover have "asleep_ok {t} ?s"
    using inv by (auto simp: k_sched_switch_in_def sched_inv_def asleep_ok_def)
  ultimately show ?thesis by (simp add: sched_inv_def)
qed

subsubsection \<open>Expiry of timeouts\<close>

definition expire :: "tid \<Rightarrow> sched \<Rightarrow> sched" where
  "expire t s = (if tstate (tasks s t) = SLEEP then resumed t (- ETIMEDOUT) s else s)"

lemma expire_inv: "sched_inv A s \<Longrightarrow> sched_inv A (expire t s)"
  by (simp add: expire_def resumed_inv sleeping_def)

lemma timeout_callback_preserving:
  "queue_preserving (\<lambda>s. sched_inv A s \<and> slock s = Some c) (k_task_timeout_callback c) expire"
  by (auto simp: queue_preserving_def k_task_timeout_callback_def expire_def k_sched_resume_eq
      sleeping_def resumed_inv)

lemma fold_expire_fields:
  "mutexes (fold expire ts s) = mutexes s \<and> sems (fold expire ts s) = sems s \<and>
   timeouts (fold expire ts s) = timeouts s \<and> cur (fold expire ts s) = cur s \<and>
   lock_count (fold expire ts s) = lock_count s \<and> slock (fold expire ts s) = slock s"
  by (induction ts arbitrary: s) (simp_all add: expire_def)

lemma fold_expire_tasks:
  "tasks (fold expire ts s) x =
     (if x \<in> set ts \<and> tstate (tasks s x) = SLEEP
      then (tasks s x)\<lparr>link := Some (RunQ (prio (tasks s x))), tstate := READY,
        sleep_result := - ETIMEDOUT\<rparr>
      else tasks s x)"
  by (induction ts arbitrary: s) (auto simp: expire_def)

definition ticked :: "int \<Rightarrow> sched \<Rightarrow> sched" where
  "ticked d s = (fold expire (fired d (timeouts s)) s)\<lparr>timeouts := advance d (timeouts s)\<rparr>"

lemma advance_subset: "fst ` set (advance d q) \<subseteq> fst ` set q"
  by (induction d q rule: advance.induct) (auto simp: image_iff)

lemma fold_expire_inv: "sched_inv A s \<Longrightarrow> sched_inv A (fold expire ts s)"
  by (induction ts arbitrary: s) (simp_all add: expire_inv)

lemma ticked_inv:
  assumes "sched_inv A s"
  shows "sched_inv A (ticked d s)"
proof -
  let ?s = "fold expire (fired d (timeouts s)) s"
  have inv: "sched_inv A ?s" by (rule fold_expire_inv [OF assms])
  have tos: "timeouts ?s = timeouts s" by (simp add: fold_expire_fields)
  have "u \<in> A \<or> asleep_task (u \<in> fst ` set (advance d (timeouts s))) (tasks ?s u)" for u
  proof (cases "u \<in> A")
    case False
    then have "asleep_task (u \<in> fst ` set (timeouts s)) (tasks ?s u)"
      using inv tos by (auto simp: sched_inv_def asleep_ok_def)
    then show ?thesis
      by (rule asleep_task_weaken [THEN disjI2]) (use advance_subset [of d "timeouts s"] in blast)
  qed simp
  moreover have "tq_inv (advance d (timeouts s))"
    using assms by (simp add: sched_inv_def asleep_ok_def advance_inv)
  ultimately show ?thesis
    using inv by (simp add: ticked_def sched_inv_def asleep_ok_def link_ok_def cur_ok_def)
qed

lemma k_sched_adjust_timeouts_eq:
  assumes inv: "sched_inv A s" and lock: "slock s = None" and d: "0 \<le> d"
  shows "k_sched_adjust_timeouts c d s =
    Some ((ticked d (s\<lparr>slock := Some c\<rparr>))\<lparr>slock := None\<rparr>)"
proof -
  let ?s = "s\<lparr>slock := Some c\<rparr>"
  have "tq_inv (timeouts s)" using inv by (simp add: sched_inv_def asleep_ok_def)
  then have "timeout_queue_adjust (length (timeouts s) + 2) (k_task_timeout_callback c) d
      (?s, timeouts s) = Some (fold expire (fired d (timeouts s)) ?s, advance d (timeouts s))"
    by (intro timeout_queue_adjust_spec [OF timeout_callback_preserving [of A]]) (use inv d in auto)
  then show ?thesis
    using lock by (simp add: k_sched_adjust_timeouts_def sched_lock_def sched_unlock_def ticked_def
        fold_expire_fields)
qed

subsection \<open>The next task\<close>

text \<open>
  C4: in a well-formed state \<open>k_sched_dequeue\<close> never fails; it returns no task only if no task is
  ready, and otherwise a ready task of the highest priority that has waited longest among the
  ready tasks of this priority, taken off its run queue.
\<close>

theorem k_sched_dequeue_highest_priority:
  assumes "sched_inv A s" and "slock s = Some c"
  shows "\<exists>r s'. k_sched_dequeue c s = Some (r, s') \<and> (case r of
      None \<Rightarrow> s' = s \<and> (\<forall>t. tstate (tasks s t) \<noteq> READY)
    | Some t \<Rightarrow> tstate (tasks s t) = READY \<and>
        (\<forall>u. tstate (tasks s u) = READY \<longrightarrow> prio (tasks s t) \<le> prio (tasks s u)) \<and>
        queues s (RunQ (prio (tasks s t))) = t # queues s' (RunQ (prio (tasks s t))) \<and>
        link (tasks s' t) = None)"
proof (rule k_sched_dequeue_cases [OF assms])
  assume "k_sched_dequeue c s = Some (None, s)" "\<forall>t. tstate (tasks s t) \<noteq> READY"
  then show ?thesis by simp
next
  fix t assume t: "k_sched_dequeue c s = Some (Some t, link_remove t s)" "best_ready t s"
  then obtain ts where q: "queues s (RunQ (prio (tasks s t))) = t # ts"
    by (auto simp: best_ready_def)
  have "link_ok s" "distinct (t # ts)"
    using assms(1) q by (auto simp: sched_inv_def link_ok_def) (metis distinct.simps(2))+
  then have "queues (link_remove t s) (RunQ (prio (tasks s t))) = ts"
    by (simp add: link_remove_queues q)
  with t q show ?thesis by (auto simp: best_ready_def)
qed

definition idle_task :: ktask where
  "idle_task = \<lparr>link = None, tstate = NONE, prio = 0, saved_prio = 0, reschedule = False, owned = [],
     sleep_on_mutex = None, tcontext = K_Run, sleep_result = 0\<rparr>"

definition initial_sched :: sched where
  "initial_sched = \<lparr>tasks = \<lambda>t. idle_task,
     mutexes = \<lambda>m. \<lparr>mutex_valid = True, owner = None, mlink = None, mprio = K_TASK_MAX_PRIORITIES\<rparr>,
     sems = \<lambda>i. \<lparr>sem_valid = True, count = 0\<rparr>, conds = \<lambda>i. True, queues = \<lambda>q. [], timeouts = [],
     cur = \<lambda>c. None, lock_count = \<lambda>c. 0, slock = None\<rparr>"

lemma initial_sched_inv: "sched_inv {} initial_sched"
  by (simp add: sched_inv_defs initial_sched_def idle_task_def sleeping_def asleep_task_def
      K_TASK_MAX_PRIORITIES_def)

text \<open>A state with three ready tasks, two of the same priority.\<close>

definition ready_task :: "nat \<Rightarrow> ktask" where
  "ready_task p = idle_task\<lparr>link := Some (RunQ p), tstate := READY, prio := p, saved_prio := p\<rparr>"

definition three_ready :: sched where
  "three_ready = initial_sched\<lparr>slock := Some 0,
     tasks := (\<lambda>t. idle_task)(1 := ready_task 20, 2 := ready_task 10, 3 := ready_task 10),
     queues := (\<lambda>q. [])(RunQ 20 := [1], RunQ 10 := [3, 2])\<rparr>"

lemma three_ready_inv: "sched_inv {} three_ready"
proof -
  have "link_ok three_ready"
    by (auto simp: link_ok_def three_ready_def ready_task_def initial_sched_def idle_task_def)
  moreover have "ktask_ok idle_task" "ktask_ok (ready_task 20)" "ktask_ok (ready_task 10)"
    by (simp_all add: ktask_ok_def ready_task_def idle_task_def sleeping_def K_TASK_MAX_PRIORITIES_def)
  moreover have "cur_ok three_ready" "asleep_ok {} three_ready"
    by (simp_all add: cur_ok_def asleep_ok_def asleep_task_def three_ready_def ready_task_def
        initial_sched_def idle_task_def)
  ultimately show ?thesis by (simp add: sched_inv_def three_ready_def)
qed

theorem k_sched_dequeue_highest_priority_witness:
  "sched_inv {} three_ready \<and> slock three_ready = Some 0 \<and>
   (\<exists>s'. k_sched_dequeue 0 three_ready = Some (Some 3, s') \<and> queues s' (RunQ 10) = [2])"
proof -
  have l: "slock three_ready = Some 0" by (simp add: three_ready_def)
  have "fst (the (k_sched_dequeue 0 three_ready)) = Some 3"
    by code_simp
  with k_sched_dequeue_highest_priority [OF three_ready_inv l] three_ready_inv l show ?thesis
    by (auto simp: three_ready_def ready_task_def)
qed

end
