(* ===== verification/K_Mutex.thy ===== *)
theory K_Mutex
  imports K_Sched
begin

section \<open>Mutexes with priority inheritance\<close>

text \<open>
  Models \<open>kernel/core/mutex.c\<close>.  The wait queue of mutex \<open>m\<close> is \<open>queues s (MutexQ m)\<close>; \<open>mlink\<close> is
  the task on whose list of owned mutexes the mutex is linked.  A call that may sleep returns
  \<open>Some r\<close> when it returned \<open>r\<close> and \<open>None\<close> when the caller was put to sleep; its rest after the
  context switch is a definition of its own.
\<close>

definition k_mutex_init :: "mid \<Rightarrow> sched \<Rightarrow> sched" where
  "k_mutex_init m s =
     (upd_mutex m (\<lambda>x. \<lparr>mutex_valid = True, owner = None, mlink = None,
        mprio = K_TASK_MAX_PRIORITIES\<rparr>) s)\<lparr>queues := (queues s)(MutexQ m := [])\<rparr>"

definition k_mutex_fini :: "cpu_id \<Rightarrow> mid \<Rightarrow> sched \<Rightarrow> sched option" where
  "k_mutex_fini c m s = do {
     k_assert (mutex_valid (mutexes s m));
     s \<leftarrow> sched_lock c s;
     k_assert (owner (mutexes s m) = None);
     s \<leftarrow> k_sched_wakeup_all_locked c (MutexQ m) (- EINVAL) s;
     sched_unlock c s
   }"

definition k_mutex_try_lock_locked :: "cpu_id \<Rightarrow> mid \<Rightarrow> sched \<Rightarrow> (int \<times> sched) option" where
  "k_mutex_try_lock_locked c m s = do {
     t \<leftarrow> cur s c;
     case owner (mutexes s m) of
       Some ow \<Rightarrow> Some (if ow = t then - EDEADLK else - EAGAIN, s)
     | None \<Rightarrow> do {
         k_assert (prio (tasks s t) \<le> mprio (mutexes s m));
         let s = upd_mutex m (\<lambda>x. x\<lparr>owner := Some t\<rparr>) s;
         k_assert (mlink (mutexes s m) = None);
         let s = upd_mutex m (\<lambda>x. x\<lparr>mlink := Some t\<rparr>) s;
         Some (0, upd_task t (\<lambda>x. x\<lparr>owned := m # owned x\<rparr>) s)
       }
   }"

definition k_mutex_try_lock :: "cpu_id \<Rightarrow> mid \<Rightarrow> sched \<Rightarrow> (int \<times> sched) option" where
  "k_mutex_try_lock c m s = do {
     k_assert (mutex_valid (mutexes s m));
     k_assert (cur s c \<noteq> None);
     s \<leftarrow> sched_lock c s;
     (r, s) \<leftarrow> k_mutex_try_lock_locked c m s;
     s \<leftarrow> sched_unlock c s;
     Some (r, s)
   }"

text \<open>One round of the loop of \<open>_k_mutex_timed_lock\<close>; \<open>k\<close> is the context saved when it sleeps.\<close>

definition k_mutex_lock_round ::
  "cpu_id \<Rightarrow> mid \<Rightarrow> int \<Rightarrow> kont \<Rightarrow> sched \<Rightarrow> (int option \<times> sched) option" where
  "k_mutex_lock_round c m timeout k s = do {
     my_task \<leftarrow> cur s c;
     (r, s) \<leftarrow> k_mutex_try_lock_locked c m s;
     if r = 0 then Some (Some 0, s)
     else if r \<noteq> - EAGAIN then Some (Some r, s)
     else do {
       s \<leftarrow> k_mutex_may_raise_priority c m (prio (tasks s my_task)) s;
       let s = upd_task my_task (\<lambda>x. x\<lparr>sleep_on_mutex := Some m\<rparr>) s;
       s \<leftarrow> k_sched_sleep_begin c (Some (MutexQ m)) SLEEP timeout k s;
       Some (None, s)
     }
   }"

text \<open>The loop continues here when the task runs again.\<close>

definition k_mutex_lock_resume ::
  "cpu_id \<Rightarrow> mid \<Rightarrow> int \<Rightarrow> kont \<Rightarrow> sched \<Rightarrow> (int option \<times> sched) option" where
  "k_mutex_lock_resume c m timeout k s = do {
     my_task \<leftarrow> cur s c;
     (r, s) \<leftarrow> k_sched_sleep_end c timeout s;
     let s = upd_task my_task (\<lambda>x. x\<lparr>sleep_on_mutex := None\<rparr>) s;
     if r < 0 then Some (Some r, s)
     else k_mutex_lock_round c m timeout k s
   }"

text \<open>A call that returned releases the scheduler lock; a call that sleeps leaves it to the
  scheduler loop.\<close>

definition unlock_on_return ::
  "cpu_id \<Rightarrow> int option \<times> sched \<Rightarrow> (int option \<times> sched) option" where
  "unlock_on_return c rs =
     (case fst rs of
        None \<Rightarrow> Some rs
      | Some r \<Rightarrow> do { s \<leftarrow> sched_unlock c (snd rs); Some (Some r, s) })"

definition k_mutex_timed_lock ::
  "cpu_id \<Rightarrow> mid \<Rightarrow> int \<Rightarrow> sched \<Rightarrow> (int option \<times> sched) option" where
  "k_mutex_timed_lock c m timeout s = do {
     k_assert (cur s c \<noteq> None);
     k_assert (mutex_valid (mutexes s m));
     s \<leftarrow> sched_lock c s;
     rs \<leftarrow> k_mutex_lock_round c m timeout (K_MutexLock m timeout) s;
     unlock_on_return c rs
   }"

definition k_mutex_recalc_priority :: "mid \<Rightarrow> sched \<Rightarrow> sched" where
  "k_mutex_recalc_priority m s =
     (case queues s (MutexQ m) of
        [] \<Rightarrow> upd_mutex m (\<lambda>x. x\<lparr>mprio := K_TASK_MAX_PRIORITIES\<rparr>) s
      | t # _ \<Rightarrow> upd_mutex m (\<lambda>x. x\<lparr>mprio := prio (tasks s t)\<rparr>) s)"

definition mutex_link_remove :: "mid \<Rightarrow> sched \<Rightarrow> sched" where
  "mutex_link_remove m s =
     (case mlink (mutexes s m) of
        None \<Rightarrow> s
      | Some t \<Rightarrow> upd_mutex m (\<lambda>x. x\<lparr>mlink := None\<rparr>) (upd_task t (\<lambda>x. x\<lparr>owned := remove1 m (owned x)\<rparr>) s))"

definition k_mutex_unlock_locked :: "cpu_id \<Rightarrow> mid \<Rightarrow> sched \<Rightarrow> sched option" where
  "k_mutex_unlock_locked c m s = do {
     let s = mutex_link_remove m s;
     let s = upd_mutex m (\<lambda>x. x\<lparr>owner := None\<rparr>) s;
     (_, s) \<leftarrow> k_sched_wakeup_one_locked c (MutexQ m) 0 s;
     let s = k_mutex_recalc_priority m s;
     k_sched_update_effective_priority c s
   }"

definition k_mutex_holding :: "cpu_id \<Rightarrow> mid \<Rightarrow> sched \<Rightarrow> bool option" where
  "k_mutex_holding c m s = do {
     k_assert (mutex_valid (mutexes s m));
     s \<leftarrow> sched_lock c s;
     let ow = owner (mutexes s m);
     s \<leftarrow> sched_unlock c s;
     Some (ow \<noteq> None \<and> ow = cur s c)
   }"

definition k_mutex_unlock :: "cpu_id \<Rightarrow> mid \<Rightarrow> sched \<Rightarrow> (int \<times> sched) option" where
  "k_mutex_unlock c m s = do {
     h \<leftarrow> k_mutex_holding c m s;
     k_assert h;
     s \<leftarrow> sched_lock c s;
     s \<leftarrow> k_mutex_unlock_locked c m s;
     s \<leftarrow> sched_unlock c s;
     Some (0, s)
   }"

subsection \<open>The invariant\<close>

text \<open>The owner fields and the lists of owned mutexes agree.\<close>

definition own_ok :: "sched \<Rightarrow> bool" where
  "own_ok s \<longleftrightarrow> (\<forall>m t. m \<in> set (owned (tasks s t)) \<longleftrightarrow> owner (mutexes s m) = Some t) \<and>
     (\<forall>t. distinct (owned (tasks s t))) \<and> (\<forall>m. mlink (mutexes s m) = owner (mutexes s m))"

text \<open>The owner of a mutex has at least the priority of the mutex.\<close>

definition inherit_ok :: "sched \<Rightarrow> bool" where
  "inherit_ok s \<longleftrightarrow> (\<forall>m t. owner (mutexes s m) = Some t \<longrightarrow> prio (tasks s t) \<le> mprio (mutexes s m))"

text \<open>A mutex has at least the priority of each task that waits for it.\<close>

definition waiters_ok :: "mid \<Rightarrow> sched \<Rightarrow> bool" where
  "waiters_ok m s \<longleftrightarrow> (\<forall>t\<in>set (queues s (MutexQ m)). mprio (mutexes s m) \<le> prio (tasks s t))"

text \<open>The queue of a mutex is in the order of priority.\<close>

definition sorted_ok :: "sched \<Rightarrow> bool" where
  "sorted_ok s \<longleftrightarrow> (\<forall>m. sorted (map (\<lambda>t. prio (tasks s t)) (queues s (MutexQ m))))"

definition mutex_inv :: "sched \<Rightarrow> bool" where
  "mutex_inv s \<longleftrightarrow> own_ok s \<and> inherit_ok s \<and> (\<forall>m. waiters_ok m s) \<and> sorted_ok s"

lemmas mutex_inv_defs = mutex_inv_def own_ok_def inherit_ok_def waiters_ok_def sorted_ok_def

lemma initial_mutex_inv: "mutex_inv initial_sched"
  by (simp add: mutex_inv_defs initial_sched_def idle_task_def)

lemma mutex_inv_irrelevant [simp]:
  "mutex_inv (s\<lparr>slock := l\<rparr>) \<longleftrightarrow> mutex_inv s"
  "mutex_inv (s\<lparr>lock_count := lc\<rparr>) \<longleftrightarrow> mutex_inv s"
  "mutex_inv (s\<lparr>sems := sm\<rparr>) \<longleftrightarrow> mutex_inv s"
  "mutex_inv (s\<lparr>conds := cs\<rparr>) \<longleftrightarrow> mutex_inv s"
  "mutex_inv (s\<lparr>timeouts := tos\<rparr>) \<longleftrightarrow> mutex_inv s"
  "mutex_inv (s\<lparr>cur := cu\<rparr>) \<longleftrightarrow> mutex_inv s"
  by (simp_all add: mutex_inv_defs)

text \<open>What the other components do keeps the mutexes, the priorities and the lists of owned
  mutexes, and removes tasks from the queues of mutexes at most.\<close>

definition mutex_frame :: "sched \<Rightarrow> sched \<Rightarrow> bool" where
  "mutex_frame s s' \<longleftrightarrow> mutexes s' = mutexes s \<and>
     (\<forall>t. prio (tasks s' t) = prio (tasks s t) \<and> owned (tasks s' t) = owned (tasks s t)) \<and>
     (\<forall>m. \<exists>P. queues s' (MutexQ m) = filter P (queues s (MutexQ m)))"

lemma mutex_inv_frame:
  assumes "mutex_inv s" and "mutex_frame s s'"
  shows "mutex_inv s'"
proof -
  have m: "mutexes s' = mutexes s" and t: "\<And>t. prio (tasks s' t) = prio (tasks s t)"
    "\<And>t. owned (tasks s' t) = owned (tasks s t)"
    using assms(2) by (auto simp: mutex_frame_def)
  have q: "\<exists>P. queues s' (MutexQ m) = filter P (queues s (MutexQ m))" for m
    using assms(2) by (simp add: mutex_frame_def)
  have "waiters_ok m s'" for m
    using assms(1) q [of m] m t by (auto simp: mutex_inv_defs)
  moreover have "sorted (map (\<lambda>t. prio (tasks s t)) (queues s' (MutexQ m)))" for m
  proof -
    from q obtain P where "queues s' (MutexQ m) = filter P (queues s (MutexQ m))" by blast
    then show ?thesis using assms(1) by (simp add: mutex_inv_defs sorted_filter)
  qed
  ultimately show ?thesis
    using assms(1) m t by (simp add: mutex_inv_def own_ok_def inherit_ok_def sorted_ok_def)
qed

lemma filter_self [simp]: "\<exists>P. xs = filter P xs"
  by (rule exI [of _ "\<lambda>_. True"]) simp

lemma mutex_frame_refl: "mutex_frame s s"
  by (simp add: mutex_frame_def)

lemma mutex_frame_trans: "mutex_frame s s' \<Longrightarrow> mutex_frame s' s'' \<Longrightarrow> mutex_frame s s''"
  unfolding mutex_frame_def by simp (metis filter_filter)

lemma mutex_frame_resumed: "sched_inv A s \<Longrightarrow> mutex_frame s (resumed t r s)"
  by (auto simp: mutex_frame_def resumed_queues)

lemma mutex_frame_fold:
  assumes "\<And>t s. sched_inv A s \<Longrightarrow> sched_inv A (f t s) \<and> mutex_frame s (f t s)" and "sched_inv A s"
  shows "mutex_frame s (fold f ts s)"
  using assms(2)
proof (induction ts arbitrary: s)
  case Nil
  then show ?case by (simp add: mutex_frame_refl)
next
  case (Cons t ts)
  with assms(1) [OF Cons.prems, of t] show ?case by (auto intro: mutex_frame_trans)
qed

lemma mutex_frame_woken:
  assumes "sched_inv A s" and "is_wait_queue q" and "queues s q = ts"
  shows "mutex_frame s (fold (\<lambda>t. resumed t r) ts s)"
  using assms
proof (induction ts arbitrary: s)
  case Nil
  then show ?case by (simp add: mutex_frame_refl)
next
  case (Cons t ts)
  have "sleeping (tstate (tasks s t))"
    using wait_queue_sleeping [OF Cons.prems(1,2), of t] Cons.prems(3) by simp
  from Cons.IH [OF resumed_inv [OF Cons.prems(1) this] Cons.prems(2) resumed_wait_queue [OF Cons.prems]]
  have "mutex_frame (resumed t r s) (fold (\<lambda>t. resumed t r) ts (resumed t r s))" .
  from mutex_frame_trans [OF mutex_frame_resumed [OF Cons.prems(1)] this] show ?case by simp
qed

lemma mutex_frame_expire: "sched_inv A s \<Longrightarrow> mutex_frame s (expire t s)"
  by (simp add: expire_def mutex_frame_refl mutex_frame_resumed)

lemma mutex_frame_ticked: "sched_inv A s \<Longrightarrow> mutex_frame s (ticked d s)"
  using mutex_frame_fold [of A expire s "fired d (timeouts s)"] expire_inv mutex_frame_expire
  by (auto simp: ticked_def mutex_frame_def)

lemma mutex_frame_yielded:
  "sched_inv A s \<Longrightarrow> cur s c = Some t \<Longrightarrow> mutex_frame s (yielded c t k s)"
  by (auto simp: mutex_frame_def yielded_queues)

lemma mutex_frame_slept:
  "sched_inv A s \<Longrightarrow> cur s c = Some t \<Longrightarrow> (\<And>m. q \<noteq> MutexQ m) \<Longrightarrow>
   mutex_frame s (slept c t q st timeout k s)"
  by (auto simp: mutex_frame_def slept_queues)

subsection \<open>Raising priorities along a chain\<close>

text \<open>What a raise leaves alone.\<close>

definition raise_frame :: "sched \<Rightarrow> sched \<Rightarrow> bool" where
  "raise_frame s s' \<longleftrightarrow> cur s' = cur s \<and> slock s' = slock s \<and> timeouts s' = timeouts s \<and>
     sems s' = sems s \<and> lock_count s' = lock_count s \<and>
     (\<forall>m. owner (mutexes s' m) = owner (mutexes s m) \<and> mprio (mutexes s' m) \<le> mprio (mutexes s m)) \<and>
     (\<forall>t. tstate (tasks s' t) = tstate (tasks s t) \<and> saved_prio (tasks s' t) = saved_prio (tasks s t) \<and>
        owned (tasks s' t) = owned (tasks s t) \<and> sleep_on_mutex (tasks s' t) = sleep_on_mutex (tasks s t) \<and>
        tcontext (tasks s' t) = tcontext (tasks s t) \<and> sleep_result (tasks s' t) = sleep_result (tasks s t) \<and>
        prio (tasks s' t) \<le> prio (tasks s t)) \<and>
     (\<forall>q. is_wait_queue q \<longrightarrow> set (queues s' q) = set (queues s q))"

lemma raise_frame_refl: "raise_frame s s"
  by (simp add: raise_frame_def)

lemma raise_frame_trans: "raise_frame s s' \<Longrightarrow> raise_frame s' s'' \<Longrightarrow> raise_frame s s''"
  unfolding raise_frame_def by (auto intro: order_trans)

lemma raise_frame_mprio: "raise_frame s s' \<Longrightarrow> mprio (mutexes s' m) \<le> mprio (mutexes s m)"
  by (simp add: raise_frame_def)

text \<open>The state with the priority of task \<open>t\<close> set to \<open>p\<close> and its place in the queues updated;
  the second component is the mutex whose priority is considered next.\<close>

definition reprio :: "tid \<Rightarrow> nat \<Rightarrow> sched \<Rightarrow> sched" where
  "reprio t p s =
     (if tstate (tasks s t) = READY then
        (moved t (RunQ p) (\<lambda>xs. xs @ [t]) s)
          \<lparr>tasks := (tasks s)(t := (tasks s t)\<lparr>prio := p, link := Some (RunQ p)\<rparr>)\<rparr>
      else if sleeping (tstate (tasks s t)) \<and> sleep_on_mutex (tasks s t) \<noteq> None then
        let q = MutexQ (the (sleep_on_mutex (tasks s t))) in
        (moved t q (sched_insert (upd_task t (\<lambda>x. x\<lparr>prio := p\<rparr>) s) t) s)
          \<lparr>tasks := (tasks s)(t := (tasks s t)\<lparr>prio := p, link := Some q\<rparr>)\<rparr>
      else upd_task t (\<lambda>x. x\<lparr>prio := p\<rparr>) s)"

lemma reprio_inv:
  assumes inv: "sched_inv A s" and p: "p < prio (tasks s t)"
  shows "sched_inv A (reprio t p s)"
proof -
  note ok = sched_inv_task [OF inv, of t]
  have b: "p \<le> saved_prio (tasks s t)" "saved_prio (tasks s t) < K_TASK_MAX_PRIORITIES"
    using ktask_ok_prio [OF ok] p by auto
  show ?thesis
  proof (cases "tstate (tasks s t) = READY")
    case True
    have "ktask_ok ((tasks s t)\<lparr>prio := p, link := Some (RunQ p)\<rparr>)"
      using b True by (simp add: ktask_ok_def sleeping_def)
    from sched_inv_moved [OF inv inserts_back, of "\<lambda>x. x\<lparr>prio := p, link := Some (RunQ p)\<rparr>", OF this]
      True show ?thesis by (simp add: reprio_def)
  next
    case nready: False
    show ?thesis
    proof (cases "sleeping (tstate (tasks s t)) \<and> sleep_on_mutex (tasks s t) \<noteq> None")
      case True
      then obtain m where m: "sleep_on_mutex (tasks s t) = Some m" and sl: "sleeping (tstate (tasks s t))"
        by auto
      then have "tstate (tasks s t) \<noteq> RUNNING" by (auto simp: sleeping_def)
      moreover have "ktask_ok ((tasks s t)\<lparr>prio := p, link := Some (MutexQ m)\<rparr>)"
        using b sl m nready by (simp add: ktask_ok_def)
      ultimately show ?thesis
        using sched_inv_moved [OF inv inserts_sched_insert,
            of "\<lambda>x. x\<lparr>prio := p, link := Some (MutexQ m)\<rparr>"] m sl nready
        by (simp add: reprio_def Let_def)
    next
      case False
      have "link (tasks s t) \<noteq> Some (RunQ p')" for p'
        using ktask_ok_run_queue [OF ok] nready by blast
      then have "ktask_ok ((tasks s t)\<lparr>prio := p\<rparr>)"
        using ok b nready unfolding ktask_ok_def by simp
      then have "sched_inv A (upd_task t (\<lambda>x. x\<lparr>prio := p\<rparr>) s)"
        by (intro sched_inv_upd_task [OF inv]) simp_all
      with False nready show ?thesis by (auto simp: reprio_def)
    qed
  qed
qed

lemma ktask_swap: "(x :: ktask)\<lparr>prio := p, link := l\<rparr> = x\<lparr>link := l, prio := p\<rparr>"
  by (cases x) simp

lemma ktask_ready_id: "tstate (x :: ktask) = READY \<Longrightarrow> x\<lparr>prio := p, tstate := READY, link := l\<rparr> = x\<lparr>prio := p, link := l\<rparr>"
  by (cases x) simp

lemma link_remove_prio:
  "link_remove t (upd_task t (\<lambda>x. x\<lparr>prio := p\<rparr>) s) = upd_task t (\<lambda>x. x\<lparr>prio := p\<rparr>) (link_remove t s)"
  by (simp add: link_remove_def ktask_swap split: option.split)

lemma reprio_ready:
  assumes "slock s = Some c" and "p < K_TASK_MAX_PRIORITIES" and "tstate (tasks s t) = READY"
  shows "k_sched_enqueue c t (link_remove t (upd_task t (\<lambda>x. x\<lparr>prio := p\<rparr>) s)) = Some (reprio t p s)"
  using assms
  by (simp add: link_remove_prio k_sched_enqueue_def link_add_back_def reprio_def moved_def
      link_remove_tasks ktask_ready_id Let_def)

lemma reprio_sleep:
  assumes "sleeping (tstate (tasks s t))" and "sleep_on_mutex (tasks s t) = Some m"
  shows "k_sched_add (MutexQ m) t (link_remove t (upd_task t (\<lambda>x. x\<lparr>prio := p\<rparr>) s)) =
    Some (reprio t p s)"
proof -
  have "tstate (tasks s t) \<noteq> READY" using assms(1) by (auto simp: sleeping_def)
  moreover have "sched_insert (upd_task t (\<lambda>x. x\<lparr>prio := p\<rparr>) (link_remove t s)) t xs =
      sched_insert (upd_task t (\<lambda>x. x\<lparr>prio := p\<rparr>) s) t xs" for xs
    by (rule sched_insert_cong) simp
  ultimately show ?thesis
    using assms by (simp add: link_remove_prio k_sched_add_def reprio_def moved_def
        link_remove_tasks Let_def)
qed

lemma k_sched_raise_priority_eq:
  assumes inv: "sched_inv A s" and lock: "slock s = Some c" and p: "p < prio (tasks s t)"
  shows "k_sched_raise_priority c t p s =
    (case sleep_on_mutex (tasks s t) of
       Some m \<Rightarrow> if sleeping (tstate (tasks s t)) then k_mutex_may_raise_priority c m p (reprio t p s)
         else Some (reprio t p s)
     | None \<Rightarrow> Some (reprio t p s))"
proof -
  have b: "p < K_TASK_MAX_PRIORITIES" using prio_bound [OF inv, of t] p by simp
  consider "tstate (tasks s t) = READY" | "sleeping (tstate (tasks s t))"
    | "tstate (tasks s t) \<noteq> READY" "\<not> sleeping (tstate (tasks s t))" by blast
  then show ?thesis
  proof cases
    case 1
    with reprio_ready [OF lock b] lock p show ?thesis
      by (simp add: k_sched_raise_priority_def sleeping_def Let_def split: option.split)
  next
    case 2
    then have "tstate (tasks s t) \<noteq> READY" by (auto simp: sleeping_def)
    with 2 reprio_sleep [of s t] lock p show ?thesis
      by (auto simp: k_sched_raise_priority_def reprio_def Let_def split: option.split)
  next
    case 3
    with lock p show ?thesis
      by (simp add: k_sched_raise_priority_def reprio_def Let_def split: option.split)
  qed
qed

lemma sched_insert_sorted:
  "sorted (map (\<lambda>x. prio (tasks s x)) xs) \<Longrightarrow>
   sorted (map (\<lambda>x. prio (tasks s x)) (sched_insert s t xs))"
proof (induction s t xs rule: sched_insert.induct)
  case (2 s t l ls)
  then show ?case by (auto simp: k_sched_priority_cmp_def set_sched_insert)
qed simp

lemma reprio_simps [simp]:
  "mutexes (reprio t p s) = mutexes s"
  "sems (reprio t p s) = sems s"
  "timeouts (reprio t p s) = timeouts s"
  "cur (reprio t p s) = cur s"
  "lock_count (reprio t p s) = lock_count s"
  "slock (reprio t p s) = slock s"
  "prio (tasks (reprio t p s) x) = (if x = t then p else prio (tasks s x))"
  "tstate (tasks (reprio t p s) x) = tstate (tasks s x)"
  "saved_prio (tasks (reprio t p s) x) = saved_prio (tasks s x)"
  "owned (tasks (reprio t p s) x) = owned (tasks s x)"
  "sleep_on_mutex (tasks (reprio t p s) x) = sleep_on_mutex (tasks s x)"
  "tcontext (tasks (reprio t p s) x) = tcontext (tasks s x)"
  "sleep_result (tasks (reprio t p s) x) = sleep_result (tasks s x)"
  by (simp_all add: reprio_def Let_def)

text \<open>A new priority only moves the task within the queue it waits in.\<close>

lemma reprio_queue:
  assumes inv: "sched_inv A s" and q: "is_wait_queue q"
  shows "queues (reprio t p s) q = queues s q \<or>
    t \<in> set (queues s q) \<and> queues (reprio t p s) q =
      sched_insert (upd_task t (\<lambda>x. x\<lparr>prio := p\<rparr>) s) t (filter (\<lambda>x. x \<noteq> t) (queues s q))"
proof -
  have l: "link_ok s" using inv by (simp add: sched_inv_def)
  have "t \<in> set (queues s q) \<longleftrightarrow> link (tasks s t) = Some q" for q using l by (simp add: link_ok_def)
  note mem = this
  show ?thesis
  proof (cases "tstate (tasks s t) = READY")
    case True
    then have "t \<notin> set (queues s q)"
      using wait_queue_sleeping [OF inv q, of t] by (auto simp: sleeping_def)
    moreover have "q \<noteq> RunQ p" using q by auto
    ultimately show ?thesis using True l by (simp add: reprio_def moved_queues)
  next
    case False
    show ?thesis
    proof (cases "sleeping (tstate (tasks s t)) \<and> sleep_on_mutex (tasks s t) \<noteq> None")
      case True
      then obtain m where m: "sleep_on_mutex (tasks s t) = Some m" "sleeping (tstate (tasks s t))"
        by auto
      with ktask_ok_mutex_queue [OF sched_inv_task [OF inv, of t]] mem
      have "t \<in> set (queues s q) \<longleftrightarrow> q = MutexQ m" for q by auto
      with m False l show ?thesis by (simp add: reprio_def moved_queues Let_def)
    qed (use False in \<open>auto simp: reprio_def\<close>)
  qed
qed

lemma reprio_queue_set:
  assumes "sched_inv A s" and "is_wait_queue q"
  shows "set (queues (reprio t p s) q) = set (queues s q)"
  using reprio_queue [OF assms, of t p] by (auto simp: set_sched_insert)

lemma reprio_sorted:
  assumes inv: "sched_inv A s" and sorted: "sorted_ok s"
    and only: "\<And>m. t \<in> set (queues s (MutexQ m)) \<Longrightarrow>
      sleeping (tstate (tasks s t)) \<and> sleep_on_mutex (tasks s t) = Some m"
  shows "sorted_ok (reprio t p s)"
  unfolding sorted_ok_def
proof
  fix m
  let ?q = "queues s (MutexQ m)"
  let ?pr = "\<lambda>x. prio (tasks (upd_task t (\<lambda>x. x\<lparr>prio := p\<rparr>) s) x)"
  have pr: "(\<lambda>x. prio (tasks (reprio t p s) x)) = ?pr" by (auto simp: fun_eq_iff)
  have s: "sorted (map (\<lambda>x. prio (tasks s x)) (filter (\<lambda>x. x \<noteq> t) ?q))"
    using sorted by (simp add: sorted_ok_def sorted_filter)
  moreover have "map (\<lambda>x. prio (tasks s x)) (filter (\<lambda>x. x \<noteq> t) ?q) = map ?pr (filter (\<lambda>x. x \<noteq> t) ?q)"
    by simp
  ultimately have s': "sorted (map ?pr (filter (\<lambda>x. x \<noteq> t) ?q))" by simp
  show "sorted (map (\<lambda>x. prio (tasks (reprio t p s) x)) (queues (reprio t p s) (MutexQ m)))"
    unfolding pr
  proof (cases "t \<in> set ?q")
    case False
    then have "queues (reprio t p s) (MutexQ m) = ?q"
      using reprio_queue [OF inv, of "MutexQ m" t p] by auto
    with False s' show "sorted (map ?pr (queues (reprio t p s) (MutexQ m)))" by simp
  next
    case True
    from only [OF True] True inv have "queues (reprio t p s) (MutexQ m) =
        sched_insert (upd_task t (\<lambda>x. x\<lparr>prio := p\<rparr>) s) t (filter (\<lambda>x. x \<noteq> t) ?q)"
      by (auto simp: reprio_def moved_queues sched_inv_def sleeping_def Let_def)
    with sched_insert_sorted [OF s'] show "sorted (map ?pr (queues (reprio t p s) (MutexQ m)))" by simp
  qed
qed

text \<open>The state in which the chain reaches mutex \<open>m\<close>: everything but the priority of \<open>m\<close> is in
  order, and \<open>m\<close> is when its priority is at most \<open>p\<close>.\<close>

definition raise_pre :: "mid \<Rightarrow> nat \<Rightarrow> sched \<Rightarrow> bool" where
  "raise_pre m p s \<longleftrightarrow> own_ok s \<and> inherit_ok s \<and> sorted_ok s \<and> (\<forall>m'. m' \<noteq> m \<longrightarrow> waiters_ok m' s) \<and>
     (\<forall>t\<in>set (queues s (MutexQ m)). mprio (mutexes s m) \<le> prio (tasks s t) \<or> p \<le> prio (tasks s t))"

lemma raise_pre_done:
  "raise_pre m p s \<Longrightarrow> mprio (mutexes s m) \<le> p \<Longrightarrow> mutex_inv s"
  unfolding raise_pre_def mutex_inv_def waiters_ok_def by (metis le_trans)

lemma mutex_inv_raise_pre: "mutex_inv s \<Longrightarrow> raise_pre m p s"
  by (simp add: raise_pre_def mutex_inv_def waiters_ok_def)

lemma waiting_task:
  assumes "sched_inv A s" and "t \<in> set (queues s (MutexQ m))"
  shows "sleeping (tstate (tasks s t)) \<and> sleep_on_mutex (tasks s t) = Some m"
proof -
  have "link (tasks s t) = Some (MutexQ m)" using assms by (simp add: sched_inv_def link_ok_def)
  then show ?thesis using ktask_ok_mutex_queue [OF sched_inv_task [OF assms(1), of t]] by simp
qed

lemma raise_mprio:
  assumes "raise_pre m p s" and "owner (mutexes s m) = Some ow" and "p < mprio (mutexes s m)"
    and "prio (tasks s ow) \<le> p"
  shows "mutex_inv (upd_mutex m (\<lambda>x. x\<lparr>mprio := p\<rparr>) s)"
proof -
  have "p \<le> prio (tasks s t)" if "t \<in> set (queues s (MutexQ m))" for t
    using assms(1,3) that unfolding raise_pre_def by fastforce
  then show ?thesis using assms by (auto simp: raise_pre_def mutex_inv_defs)
qed

lemma raise_step:
  assumes inv: "sched_inv A s" and pre: "raise_pre m p s" and ow: "owner (mutexes s m) = Some ow"
    and p: "p < mprio (mutexes s m)" "p < prio (tasks s ow)"
  defines "s' \<equiv> reprio ow p (upd_mutex m (\<lambda>x. x\<lparr>mprio := p\<rparr>) s)"
  shows "raise_frame s s'" and "\<And>m'. sleep_on_mutex (tasks s ow) = Some m' \<Longrightarrow> raise_pre m' p s'"
    and "\<not> sleeping (tstate (tasks s ow)) \<or> sleep_on_mutex (tasks s ow) = None \<Longrightarrow> mutex_inv s'"
proof -
  let ?s = "upd_mutex m (\<lambda>x. x\<lparr>mprio := p\<rparr>) s"
  have inv1: "sched_inv A ?s" using inv by simp
  have set: "set (queues s' q) = set (queues s q)" if "is_wait_queue q" for q
    using reprio_queue_set [OF inv1 that, of ow p] by (simp add: s'_def)
  show frame: "raise_frame s s'"
    using p set by (auto simp: raise_frame_def s'_def)
  have "sorted_ok ?s" using pre by (simp add: raise_pre_def sorted_ok_def)
  then have sorted: "sorted_ok s'"
    unfolding s'_def using waiting_task [OF inv] by (intro reprio_sorted [OF inv1]) auto
  have own: "own_ok s'" using pre by (simp add: raise_pre_def own_ok_def s'_def)
  have inherit: "inherit_ok s'"
    using pre ow p by (auto simp: raise_pre_def inherit_ok_def s'_def) (metis le_trans less_imp_le)+
  have wait: "mprio (mutexes s' m') \<le> prio (tasks s' t) \<or> t = ow"
    if "t \<in> set (queues s (MutexQ m'))" for t m'
  proof (cases "m' = m")
    case True
    with pre that p have "p \<le> prio (tasks s t)" unfolding raise_pre_def by fastforce
    with True show ?thesis by (simp add: s'_def)
  next
    case False
    with pre that have "mprio (mutexes s m') \<le> prio (tasks s t)"
      by (simp add: raise_pre_def waiters_ok_def)
    with False show ?thesis by (simp add: s'_def)
  qed
  have w: "waiters_ok m' s'" if "ow \<notin> set (queues s (MutexQ m'))" for m'
    using wait [of _ m'] that set [of "MutexQ m'"] by (auto simp: waiters_ok_def)
  show "raise_pre m' p s'" if "sleep_on_mutex (tasks s ow) = Some m'" for m'
    unfolding raise_pre_def
  proof (intro conjI allI impI ballI own inherit sorted)
    fix m2 assume "m2 \<noteq> m'"
    then have "ow \<notin> set (queues s (MutexQ m2))" using waiting_task [OF inv, of ow m2] that by auto
    then show "waiters_ok m2 s'" by (rule w)
  next
    fix t assume "t \<in> set (queues s' (MutexQ m'))"
    then show "mprio (mutexes s' m') \<le> prio (tasks s' t) \<or> p \<le> prio (tasks s' t)"
      using wait [of t m'] set [of "MutexQ m'"] by (auto simp: s'_def)
  qed
  show "mutex_inv s'" if "\<not> sleeping (tstate (tasks s ow)) \<or> sleep_on_mutex (tasks s ow) = None"
  proof -
    have "ow \<notin> set (queues s (MutexQ m'))" for m' using waiting_task [OF inv, of ow m'] that by auto
    then show ?thesis using w own inherit sorted by (simp add: mutex_inv_def)
  qed
qed

text \<open>The result of a raise that returns.\<close>

lemma k_mutex_may_raise_priority_correct:
  assumes "k_mutex_may_raise_priority c m p s = Some s'"
  shows "sched_inv A s \<Longrightarrow> raise_pre m p s \<Longrightarrow> slock s = Some c \<Longrightarrow>
    sched_inv A s' \<and> mutex_inv s' \<and> raise_frame s s' \<and> mprio (mutexes s' m) \<le> p \<and>
    (\<forall>t. prio (tasks s' t) = prio (tasks s t) \<or> prio (tasks s' t) = p)"
  using assms
proof (induction c m p s s' rule: k_mutex_may_raise_priority.raw_induct
    [rotated 1, consumes 1, case_names step])
  case (step f c m p s s')
  from step.hyps obtain ow where ow: "owner (mutexes s m) = Some ow" by (auto simp: Option.bind_eq_Some_conv)
  let ?s = "upd_mutex m (\<lambda>x. x\<lparr>mprio := p\<rparr>) s"
  have frame: "raise_frame s ?s" if "p < mprio (mutexes s m)" using that by (auto simp: raise_frame_def)
  consider (low) "mprio (mutexes s m) \<le> p" | (owner) "p < mprio (mutexes s m)" "prio (tasks s ow) \<le> p"
    | (raise) "p < mprio (mutexes s m)" "p < prio (tasks s ow)" by linarith
  then show ?case
  proof cases
    case low
    with step ow raise_pre_done show ?thesis by (auto simp: raise_frame_refl)
  next
    case owner
    with step ow raise_mprio [OF step.prems(2) ow owner] frame show ?thesis by auto
  next
    case raise
    let ?s' = "reprio ow p ?s"
    have inv: "sched_inv A ?s'"
      using step.prems(1) raise by (intro reprio_inv) simp_all
    have b: "p < K_TASK_MAX_PRIORITIES" using prio_bound [OF step.prems(1), of ow] raise by simp
    note next_state = raise_step [OF step.prems(1,2) ow raise]
    show ?thesis
    proof (cases "sleeping (tstate (tasks s ow)) \<and> sleep_on_mutex (tasks s ow) \<noteq> None")
      case True
      then obtain m' where m': "sleep_on_mutex (tasks s ow) = Some m'" "sleeping (tstate (tasks s ow))"
        by auto
      then have nr: "tstate (tasks s ow) \<noteq> READY" by (auto simp: sleeping_def)
      have "f c m' p ?s' = Some s'"
        using step.hyps ow raise step.prems(3) m' nr reprio_sleep [of ?s ow m' p] by simp
      from step.IH [OF this inv next_state(2) [OF m'(1)]] step.prems(3)
      have r: "sched_inv A s'" "mutex_inv s'" "raise_frame ?s' s'"
        "\<forall>t. prio (tasks s' t) = prio (tasks ?s' t) \<or> prio (tasks s' t) = p" by simp_all
      moreover have "prio (tasks s' u) = prio (tasks s u) \<or> prio (tasks s' u) = p" for u
        using r(4) [rule_format, of u] by (simp split: if_splits)
      ultimately show ?thesis
        using raise_frame_mprio [OF r(3), of m] raise_frame_trans [OF next_state(1) r(3)] by simp
    next
      case False
      then have "s' = ?s'"
        using step.hyps ow raise step.prems(3) reprio_ready [of ?s c p ow] b
        by (auto simp: reprio_def Let_def split: if_splits option.splits)
      with inv next_state(1,3) False show ?thesis by auto
    qed
  qed
qed

text \<open>
  The raise returns whenever every mutex that a sleeping task waits for has an owner: each
  call lowers the priority number of one more owned mutex to \<open>p\<close>, so the chain ends even if the
  tasks wait for each other in a cycle.
\<close>

definition chain_ok :: "sched \<Rightarrow> bool" where
  "chain_ok s \<longleftrightarrow> finite {m. owner (mutexes s m) \<noteq> None} \<and>
     (\<forall>t m. sleeping (tstate (tasks s t)) \<longrightarrow> sleep_on_mutex (tasks s t) = Some m \<longrightarrow>
        owner (mutexes s m) \<noteq> None)"

lemma k_mutex_may_raise_priority_returns:
  assumes "sched_inv A s" and "slock s = Some c" and "owner (mutexes s m) \<noteq> None" and "chain_ok s"
  shows "\<exists>s'. k_mutex_may_raise_priority c m p s = Some s'"
  using assms
proof (induction "card {m. owner (mutexes s m) \<noteq> None \<and> p < mprio (mutexes s m)}"
    arbitrary: m s rule: less_induct)
  case less
  from less.prems(3) obtain ow where ow: "owner (mutexes s m) = Some ow" by auto
  let ?s = "upd_mutex m (\<lambda>x. x\<lparr>mprio := p\<rparr>) s"
  let ?s' = "reprio ow p ?s"
  show ?case
  proof (cases "p < mprio (mutexes s m) \<and> p < prio (tasks s ow)")
    case False
    then show ?thesis using ow by (subst k_mutex_may_raise_priority_unfold) (auto simp: Let_def)
  next
    case True
    have inv: "sched_inv A ?s'" using less.prems(1) True by (intro reprio_inv) simp_all
    have eq: "k_mutex_may_raise_priority c m p s = k_sched_raise_priority c ow p ?s"
      using ow True by (subst k_mutex_may_raise_priority_unfold) (simp add: Let_def)
    have inv1: "sched_inv A ?s" using less.prems(1) by simp
    have rp: "k_sched_raise_priority c ow p ?s = (case sleep_on_mutex (tasks ?s ow) of
        Some m \<Rightarrow> if sleeping (tstate (tasks ?s ow)) then k_mutex_may_raise_priority c m p ?s'
          else Some ?s' | None \<Rightarrow> Some ?s')"
      by (rule k_sched_raise_priority_eq [OF inv1]) (use less.prems(2) True in simp_all)
    have next_mutex: "\<exists>s'. k_mutex_may_raise_priority c m' p ?s' = Some s'"
      if m': "sleep_on_mutex (tasks s ow) = Some m'" "sleeping (tstate (tasks s ow))" for m'
    proof (rule less.hyps)
      have "{m. owner (mutexes ?s' m) \<noteq> None \<and> p < mprio (mutexes ?s' m)} =
          {m. owner (mutexes s m) \<noteq> None \<and> p < mprio (mutexes s m)} - {m}" by auto
      moreover have "finite {m. owner (mutexes s m) \<noteq> None \<and> p < mprio (mutexes s m)}"
        using less.prems(4) by (auto simp: chain_ok_def intro: finite_subset [rotated])
      moreover have "m \<in> {m. owner (mutexes s m) \<noteq> None \<and> p < mprio (mutexes s m)}"
        using True ow by simp
      ultimately show "card {m. owner (mutexes ?s' m) \<noteq> None \<and> p < mprio (mutexes ?s' m)} <
          card {m. owner (mutexes s m) \<noteq> None \<and> p < mprio (mutexes s m)}"
        by (metis (no_types, lifting) card_Diff1_less)
      show "owner (mutexes ?s' m') \<noteq> None" using less.prems(4) m' by (auto simp: chain_ok_def)
      have "{m. owner (mutexes ?s' m) \<noteq> None} = {m. owner (mutexes s m) \<noteq> None}" by auto
      then show "chain_ok ?s'" using less.prems(4) by (auto simp: chain_ok_def)
    qed (use inv less.prems(2) in simp_all)
    show ?thesis unfolding eq rp using next_mutex by (auto split: option.split)
  qed
qed

subsection \<open>Locking\<close>

lemma mutex_inv_same:
  assumes "mutexes s' = mutexes s" and "queues s' = queues s"
    and "\<And>t. prio (tasks s' t) = prio (tasks s t)" and "\<And>t. owned (tasks s' t) = owned (tasks s t)"
  shows "mutex_inv s' \<longleftrightarrow> mutex_inv s"
proof -
  have "mutex_frame s s'" "mutex_frame s' s" using assms by (simp_all add: mutex_frame_def)
  then show ?thesis using mutex_inv_frame by blast
qed

lemma mutex_inv_sleep_on [simp]:
  "mutex_inv (upd_task t (\<lambda>x. x\<lparr>sleep_on_mutex := l\<rparr>) s) \<longleftrightarrow> mutex_inv s"
  by (rule mutex_inv_same) simp_all

lemma mutex_inv_reschedule [simp]:
  "mutex_inv (upd_task t (\<lambda>x. x\<lparr>reschedule := b\<rparr>) s) \<longleftrightarrow> mutex_inv s"
  by (rule mutex_inv_same) simp_all

definition locked :: "tid \<Rightarrow> mid \<Rightarrow> sched \<Rightarrow> sched" where
  "locked t m s = upd_task t (\<lambda>x. x\<lparr>owned := m # owned x\<rparr>)
     (upd_mutex m (\<lambda>x. x\<lparr>owner := Some t, mlink := Some t\<rparr>) s)"

lemma k_mutex_try_lock_locked_eq:
  assumes "mutex_inv s" and "cur s c = Some t"
  shows "k_mutex_try_lock_locked c m s =
    (case owner (mutexes s m) of
       Some ow \<Rightarrow> Some (if ow = t then - EDEADLK else - EAGAIN, s)
     | None \<Rightarrow> if prio (tasks s t) \<le> mprio (mutexes s m) then Some (0, locked t m s) else None)"
  using assms by (auto simp: k_mutex_try_lock_locked_def locked_def mutex_inv_def own_ok_def Let_def
      split: option.split)

lemma locked_mutex_inv:
  assumes inv: "mutex_inv s" and free: "owner (mutexes s m) = None"
    and p: "prio (tasks s t) \<le> mprio (mutexes s m)"
  shows "mutex_inv (locked t m s)"
proof -
  have "m \<notin> set (owned (tasks s u))" for u using inv free by (simp add: mutex_inv_def own_ok_def)
  then have "own_ok (locked t m s)" using inv by (auto simp: mutex_inv_def own_ok_def locked_def)
  moreover have pr: "prio (tasks (locked t m s) u) = prio (tasks s u)" for u by (simp add: locked_def)
  moreover have "mprio (mutexes (locked t m s) m') = mprio (mutexes s m')" for m'
    by (simp add: locked_def)
  moreover have "queues (locked t m s) = queues s" by (simp add: locked_def)
  moreover have "inherit_ok (locked t m s)"
    using inv p by (simp add: mutex_inv_def inherit_ok_def locked_def)
  ultimately show ?thesis using inv by (simp add: mutex_inv_def waiters_ok_def sorted_ok_def)
qed

lemma locked_sched_inv: "sched_inv A s \<Longrightarrow> sched_inv A (locked t m s)"
  unfolding locked_def by (rule sched_inv_upd_task) (simp_all add: sched_inv_task)

lemma slept_mutex_inv:
  assumes inv: "sched_inv A s" and cur: "cur s c = Some t" and minv: "mutex_inv s"
    and p: "mprio (mutexes s m) \<le> prio (tasks s t)"
  shows "mutex_inv (slept c t (MutexQ m) st timeout k s)" (is "mutex_inv ?s")
proof -
  have pr: "prio (tasks ?s u) = prio (tasks s u)" "owned (tasks ?s u) = owned (tasks s u)" for u by simp_all
  have q: "queues ?s (MutexQ m') =
      (if m' = m then sched_insert s t (queues s (MutexQ m)) else queues s (MutexQ m'))" for m'
    by (simp add: slept_queues [OF inv cur])
  have "waiters_ok m' ?s" for m'
    using minv p unfolding waiters_ok_def mutex_inv_def q pr by (auto simp: set_sched_insert)
  moreover have "sorted_ok ?s"
    using minv unfolding sorted_ok_def mutex_inv_def q pr by (simp add: sched_insert_sorted)
  ultimately show ?thesis
    using minv unfolding mutex_inv_def own_ok_def inherit_ok_def pr by simp
qed

lemma k_mutex_lock_round_eq:
  assumes "mutex_inv s" and "cur s c = Some t"
  shows "k_mutex_lock_round c m timeout k s =
    (case owner (mutexes s m) of
       None \<Rightarrow> if prio (tasks s t) \<le> mprio (mutexes s m) then Some (Some 0, locked t m s) else None
     | Some ow \<Rightarrow> if ow = t then Some (Some (- EDEADLK), s) else do {
         s1 \<leftarrow> k_mutex_may_raise_priority c m (prio (tasks s t)) s;
         s2 \<leftarrow> k_sched_sleep_begin c (Some (MutexQ m)) SLEEP timeout k
           (upd_task t (\<lambda>x. x\<lparr>sleep_on_mutex := Some m\<rparr>) s1);
         Some (None, s2)
       })"
  unfolding k_mutex_lock_round_def k_mutex_try_lock_locked_eq [OF assms, of m] using assms(2)
  by (simp add: errno_defs Let_def split: option.split)

text \<open>The possible results of a round of the locking loop.\<close>

lemma k_mutex_lock_round_cases:
  assumes run: "k_mutex_lock_round c m timeout k s = Some (r, s')"
    and inv: "sched_inv {} s" "mutex_inv s" and lock: "slock s = Some c"
    and cur: "cur s c = Some t" and timeout: "0 \<le> timeout" "kont_timeout k = timeout"
  obtains (acquired) "r = Some 0" and "owner (mutexes s m) = None" and "s' = locked t m s"
    "prio (tasks s t) \<le> mprio (mutexes s m)"
  | (deadlock) "r = Some (- EDEADLK)" and "owner (mutexes s m) = Some t" and "s' = s"
  | (blocked) ow s1 where "r = None" and "owner (mutexes s m) = Some ow" and "ow \<noteq> t"
    and "raise_frame s s1" and "sched_inv {t} s1" and "mutex_inv s1"
    and "mprio (mutexes s1 m) \<le> prio (tasks s1 t)"
    and "s' = slept c t (MutexQ m) SLEEP timeout k (upd_task t (\<lambda>x. x\<lparr>sleep_on_mutex := Some m\<rparr>) s1)"
proof (cases "owner (mutexes s m)")
  case None
  with run have "r = Some 0 \<and> s' = locked t m s \<and> prio (tasks s t) \<le> mprio (mutexes s m)"
    unfolding k_mutex_lock_round_eq [OF inv(2) cur] by (simp split: if_splits)
  with None show thesis by (intro acquired) simp_all
next
  case (Some ow)
  show thesis
  proof (cases "ow = t")
    case True
    with run Some have "r = Some (- EDEADLK) \<and> s' = s"
      unfolding k_mutex_lock_round_eq [OF inv(2) cur] by simp
    with Some True show thesis by (intro deadlock) simp_all
  next
    case False
    with run Some obtain s1 s2 where
      s1: "k_mutex_may_raise_priority c m (prio (tasks s t)) s = Some s1" and
      s2: "k_sched_sleep_begin c (Some (MutexQ m)) SLEEP timeout k
        (upd_task t (\<lambda>x. x\<lparr>sleep_on_mutex := Some m\<rparr>) s1) = Some s2" "r = None" "s' = s2"
      unfolding k_mutex_lock_round_eq [OF inv(2) cur] by (auto simp: Option.bind_eq_Some_conv)
    have inv1: "sched_inv {t} s1 \<and> mutex_inv s1 \<and> raise_frame s s1 \<and>
        mprio (mutexes s1 m) \<le> prio (tasks s t) \<and>
        (\<forall>u. prio (tasks s1 u) = prio (tasks s u) \<or> prio (tasks s1 u) = prio (tasks s t))"
      by (rule k_mutex_may_raise_priority_correct [OF s1 sched_inv_mono [OF inv(1)]
            mutex_inv_raise_pre [OF inv(2)] lock]) simp
    let ?s1 = "upd_task t (\<lambda>x. x\<lparr>sleep_on_mutex := Some m\<rparr>) s1"
    have "lock_count s1 c \<le> 0" using k_sched_sleep_begin_lock [OF s2(1)] by simp
    then have cur1: "cur s1 c = Some t" and tos: "timeouts s1 = timeouts s" and lk: "slock s1 = Some c"
      "lock_count s1 c \<le> 0" using inv1 cur lock by (simp_all add: raise_frame_def)
    have "link (tasks s1 t) = None" "tstate (tasks s1 t) = RUNNING"
      using running_unlinked cur_running inv1 cur1 by blast+
    then have "ktask_ok ((tasks s1 t)\<lparr>sleep_on_mutex := Some m\<rparr>)"
      using ktask_ok_prio [OF sched_inv_task [of "{t}" s1 t]] inv1 by (simp add: ktask_ok_def sleeping_def)
    then have inv2: "sched_inv {t} ?s1"
      using inv1 by (intro sched_inv_upd_task) simp_all
    have "k_sched_sleep_begin c (Some (MutexQ m)) SLEEP timeout k ?s1 =
        Some (slept c t (MutexQ m) SLEEP timeout k ?s1)"
      by (rule k_sched_sleep_begin_eq [OF inv2])
        (use lk cur1 tos running_not_waiting [OF inv(1) cur] timeout in simp_all)
    with s2 have "s' = slept c t (MutexQ m) SLEEP timeout k ?s1" by simp
    moreover have "mprio (mutexes s1 m) \<le> prio (tasks s1 t)" using inv1 by metis
    ultimately show thesis using blocked [of ow s1] s2(2) Some False inv1 by blast
  qed
qed

lemma sched_inv_sleep_on_running:
  assumes inv: "sched_inv {t} s" and run: "tstate (tasks s t) = RUNNING"
  shows "sched_inv {t} (upd_task t (\<lambda>x. x\<lparr>sleep_on_mutex := l\<rparr>) s)"
proof -
  have "link (tasks s t) = None"
    using ktask_ok_linked [OF sched_inv_task [OF inv, of t]] run by (cases "link (tasks s t)") (auto simp: sleeping_def)
  with run ktask_ok_prio [OF sched_inv_task [OF inv, of t]]
  have "ktask_ok ((tasks s t)\<lparr>sleep_on_mutex := l\<rparr>)" by (simp add: ktask_ok_def sleeping_def)
  then show ?thesis using inv by (intro sched_inv_upd_task) simp_all
qed

lemma k_mutex_lock_round_inv:
  assumes run: "k_mutex_lock_round c m timeout k s = Some (r, s')"
    and inv: "sched_inv {} s" "mutex_inv s" and lock: "slock s = Some c"
    and cur: "cur s c = Some t" and timeout: "0 \<le> timeout" "kont_timeout k = timeout"
  shows "sched_inv {} s' \<and> mutex_inv s' \<and> slock s' = Some c \<and> lock_count s' = lock_count s \<and>
    sems s' = sems s \<and> cur s' = (if r = None then (cur s)(c := None) else cur s) \<and>
    (r = Some 0 \<longrightarrow> owner (mutexes s' m) = Some t)"
proof (rule k_mutex_lock_round_cases [OF assms])
  assume "r = Some 0" "owner (mutexes s m) = None" "s' = locked t m s"
    "prio (tasks s t) \<le> mprio (mutexes s m)"
  then show ?thesis using inv lock
    by (simp add: locked_sched_inv locked_mutex_inv) (simp add: locked_def)
next
  assume "r = Some (- EDEADLK)" "s' = s"
  then show ?thesis using inv lock by (simp add: errno_defs)
next
  fix ow s1
  assume *: "r = None" "raise_frame s s1" "sched_inv {t} s1" "mutex_inv s1"
    "mprio (mutexes s1 m) \<le> prio (tasks s1 t)"
    "s' = slept c t (MutexQ m) SLEEP timeout k (upd_task t (\<lambda>x. x\<lparr>sleep_on_mutex := Some m\<rparr>) s1)"
  let ?s1 = "upd_task t (\<lambda>x. x\<lparr>sleep_on_mutex := Some m\<rparr>) s1"
  have cur1: "cur s1 c = Some t" and tos: "timeouts s1 = timeouts s"
    using *(2) cur by (simp_all add: raise_frame_def)
  have inv2: "sched_inv {t} ?s1"
    by (rule sched_inv_sleep_on_running [OF *(3) cur_running [OF *(3) cur1]])
  have "sched_inv {} s'"
    unfolding *(6)
    by (rule slept_inv [OF inv2])
      (use cur1 tos running_not_waiting [OF inv(1) cur] timeout in \<open>auto simp: sleeping_def\<close>)
  moreover have "mutex_inv s'"
    unfolding *(6) by (rule slept_mutex_inv [OF inv2]) (use cur1 * in simp_all)
  ultimately show ?thesis using * lock by (simp add: raise_frame_def)
qed

subsection \<open>Unlocking\<close>

lemma fold_least:
  fixes g :: "'a \<Rightarrow> nat"
  defines "f \<equiv> \<lambda>m p. if g m < p then g m else p"
  shows "fold f ms p \<le> p \<and> (\<forall>m\<in>set ms. fold f ms p \<le> g m)"
proof (induction ms arbitrary: p)
  case (Cons m ms)
  have le: "f m p \<le> p" "f m p \<le> g m" by (simp_all add: f_def)
  have 1: "fold f ms (f m p) \<le> f m p" and 2: "\<forall>x\<in>set ms. fold f ms (f m p) \<le> g x"
    using Cons.IH [of "f m p"] by blast+
  have "fold f ms (f m p) \<le> p" "fold f ms (f m p) \<le> g m"
    using le_trans [OF 1 le(1)] le_trans [OF 1 le(2)] .
  with 2 show ?case by simp
qed simp

lemma k_mutex_get_highest_priority_le:
  "k_mutex_get_highest_priority ms s \<le> K_TASK_MAX_PRIORITIES \<and>
   (\<forall>m\<in>set ms. k_mutex_get_highest_priority ms s \<le> mprio (mutexes s m))"
  unfolding k_mutex_get_highest_priority_def by (rule fold_least)

lemma fold_least_attained:
  fixes g :: "'a \<Rightarrow> nat"
  shows "fold (\<lambda>m p. if g m < p then g m else p) ms p = p \<or>
    (\<exists>m\<in>set ms. fold (\<lambda>m p. if g m < p then g m else p) ms p = g m)"
proof (induction ms arbitrary: p)
  case (Cons m ms)
  from Cons.IH [of "if g m < p then g m else p"] show ?case by (auto split: if_splits)
qed simp

lemma k_mutex_get_highest_priority_attained:
  "k_mutex_get_highest_priority ms s = K_TASK_MAX_PRIORITIES \<or>
   (\<exists>m\<in>set ms. k_mutex_get_highest_priority ms s = mprio (mutexes s m))"
  unfolding k_mutex_get_highest_priority_def by (rule fold_least_attained)

text \<open>The state after the mutex was taken from its owner, before a waiter is woken.\<close>

definition released :: "mid \<Rightarrow> sched \<Rightarrow> sched" where
  "released m s = upd_mutex m (\<lambda>x. x\<lparr>owner := None\<rparr>) (mutex_link_remove m s)"

lemma released_simps [simp]:
  "queues (released m s) = queues s" "cur (released m s) = cur s" "slock (released m s) = slock s"
  "timeouts (released m s) = timeouts s" "sems (released m s) = sems s"
  "lock_count (released m s) = lock_count s"
  "prio (tasks (released m s) t) = prio (tasks s t)" "tstate (tasks (released m s) t) = tstate (tasks s t)"
  "saved_prio (tasks (released m s) t) = saved_prio (tasks s t)"
  "sleep_on_mutex (tasks (released m s) t) = sleep_on_mutex (tasks s t)"
  "mprio (mutexes (released m s) m') = mprio (mutexes s m')"
  "owner (mutexes (released m s) m') = (if m' = m then None else owner (mutexes s m'))"
  by (auto simp: released_def mutex_link_remove_def split: option.split)

lemma released_inv:
  assumes inv: "sched_inv A s" and minv: "mutex_inv s"
  shows "sched_inv A (released m s)" and "mutex_inv (released m s)"
proof -
  have "sched_inv A (upd_task t (\<lambda>x. x\<lparr>owned := remove1 m (owned x)\<rparr>) s)" for t
    by (rule sched_inv_upd_task [OF inv]) (simp_all add: sched_inv_task [OF inv])
  then show "sched_inv A (released m s)"
    using inv by (simp add: released_def mutex_link_remove_def split: option.split)
  have "own_ok (released m s)"
  proof (cases "owner (mutexes s m)")
    case None
    with minv show ?thesis
      by (auto simp: released_def mutex_link_remove_def mutex_inv_def own_ok_def)
  next
    case (Some t)
    with minv show ?thesis
      by (auto simp: released_def mutex_link_remove_def mutex_inv_def own_ok_def set_remove1_eq)
  qed
  moreover have "inherit_ok (released m s)" using minv by (simp add: mutex_inv_def inherit_ok_def)
  ultimately show "mutex_inv (released m s)"
    using minv by (simp add: mutex_inv_def waiters_ok_def sorted_ok_def)
qed

lemma recalc_mutex_inv:
  assumes minv: "mutex_inv s" and free: "owner (mutexes s m) = None"
  shows "mutex_inv (k_mutex_recalc_priority m s)" (is "mutex_inv ?s")
proof -
  have fields: "tasks ?s = tasks s" "queues ?s = queues s"
    "owner (mutexes ?s m') = owner (mutexes s m')" "mlink (mutexes ?s m') = mlink (mutexes s m')"
    "m' \<noteq> m \<Longrightarrow> mprio (mutexes ?s m') = mprio (mutexes s m')" for m'
    by (auto simp: k_mutex_recalc_priority_def split: list.split)
  have "waiters_ok m' ?s" for m'
  proof (cases "m' = m")
    case True
    have "sorted (map (\<lambda>t. prio (tasks s t)) (queues s (MutexQ m)))"
      using minv by (simp add: mutex_inv_def sorted_ok_def)
    then have "waiters_ok m ?s"
      by (auto simp: waiters_ok_def k_mutex_recalc_priority_def split: list.split)
    with True show ?thesis by simp
  next
    case False
    then show ?thesis using minv by (simp add: mutex_inv_def waiters_ok_def fields)
  qed
  moreover have "inherit_ok ?s"
    using minv free unfolding mutex_inv_def inherit_ok_def fields by (metis fields(5) option.distinct(1))
  ultimately show ?thesis using minv by (simp add: mutex_inv_def own_ok_def sorted_ok_def fields)
qed

lemma recalc_sched_inv: "sched_inv A s \<Longrightarrow> sched_inv A (k_mutex_recalc_priority m s)"
  by (auto simp: k_mutex_recalc_priority_def split: list.split)

definition effective_prio :: "tid \<Rightarrow> sched \<Rightarrow> nat" where
  "effective_prio t s = min (saved_prio (tasks s t)) (k_mutex_get_highest_priority (owned (tasks s t)) s)"

lemma k_sched_update_effective_priority_eq:
  "cur s c = Some t \<Longrightarrow> k_sched_update_effective_priority c s =
     Some (upd_task t (\<lambda>x. x\<lparr>prio := effective_prio t s\<rparr>) s)"
  by (simp add: k_sched_update_effective_priority_def effective_prio_def Let_def min_def)

lemma running_not_queued:
  assumes "sched_inv A s" and "cur s c = Some t"
  shows "t \<notin> set (queues s q)"
  using running_unlinked [OF assms] assms(1) by (simp add: sched_inv_def link_ok_def)

lemma effective_inv:
  assumes inv: "sched_inv {} s" and minv: "mutex_inv s" and cur: "cur s c = Some t"
  shows "sched_inv {} (upd_task t (\<lambda>x. x\<lparr>prio := effective_prio t s\<rparr>) s)"
    and "mutex_inv (upd_task t (\<lambda>x. x\<lparr>prio := effective_prio t s\<rparr>) s)" (is "mutex_inv ?s")
proof -
  have "ktask_ok ((tasks s t)\<lparr>prio := effective_prio t s\<rparr>)"
    using ktask_ok_prio [OF sched_inv_task [OF inv, of t]] cur_running [OF inv cur]
      running_unlinked [OF inv cur]
    by (simp add: ktask_ok_def sleeping_def effective_prio_def)
  then show "sched_inv {} ?s" by (intro sched_inv_upd_task [OF inv]) simp_all
  have q: "t \<notin> set (queues s (MutexQ m))" for m by (rule running_not_queued [OF inv cur])
  have "prio (tasks ?s t) \<le> mprio (mutexes s m)" if "owner (mutexes s m) = Some t" for m
    using k_mutex_get_highest_priority_le [of "owned (tasks s t)" s] minv that
    by (auto simp: effective_prio_def mutex_inv_def own_ok_def min_le_iff_disj)
  then have "inherit_ok ?s" using minv by (auto simp: mutex_inv_def inherit_ok_def)
  moreover have qs: "queues ?s = queues s" by simp
  have eq: "map (\<lambda>u. prio (tasks ?s u)) (queues s (MutexQ m)) =
      map (\<lambda>u. prio (tasks s u)) (queues s (MutexQ m))" for m using q [of m] by auto
  have "sorted_ok ?s"
    unfolding sorted_ok_def qs eq using minv by (simp add: mutex_inv_def sorted_ok_def)
  moreover have "waiters_ok m ?s" for m using minv q [of m] by (auto simp: mutex_inv_def waiters_ok_def)
  ultimately show "mutex_inv ?s" using minv by (simp add: mutex_inv_def own_ok_def)
qed

text \<open>The waiter that gets the chance to lock the mutex next.\<close>

definition handed_over :: "mid \<Rightarrow> sched \<Rightarrow> sched" where
  "handed_over m s =
     (let s = released m s;
          s = (case queues s (MutexQ m) of [] \<Rightarrow> s | w # _ \<Rightarrow> resumed w 0 s)
      in k_mutex_recalc_priority m s)"

lemma handed_over_inv:
  assumes inv: "sched_inv A s" and minv: "mutex_inv s"
  shows "sched_inv A (handed_over m s)" and "mutex_inv (handed_over m s)"
proof -
  let ?s = "case queues s (MutexQ m) of [] \<Rightarrow> released m s | w # _ \<Rightarrow> resumed w 0 (released m s)"
  note r = released_inv [OF inv minv, of m]
  have "sched_inv A ?s"
    using r wait_queue_sleeping [OF r(1), of "MutexQ m"] by (auto intro: resumed_inv split: list.split)
  moreover have "mutex_inv ?s"
    using r mutex_inv_frame [OF r(2) mutex_frame_resumed [OF r(1)]] by (simp split: list.split)
  moreover have "owner (mutexes ?s m) = None" by (simp split: list.split)
  ultimately show "sched_inv A (handed_over m s)" "mutex_inv (handed_over m s)"
    by (simp_all add: handed_over_def recalc_sched_inv recalc_mutex_inv Let_def)
qed

lemma handed_over_simps [simp]:
  "cur (handed_over m s) = cur s" "slock (handed_over m s) = slock s"
  "timeouts (handed_over m s) = timeouts s" "sems (handed_over m s) = sems s"
  "lock_count (handed_over m s) = lock_count s"
  "prio (tasks (handed_over m s) t) = prio (tasks s t)"
  "saved_prio (tasks (handed_over m s) t) = saved_prio (tasks s t)"
  "sleep_on_mutex (tasks (handed_over m s) t) = sleep_on_mutex (tasks s t)"
  "owner (mutexes (handed_over m s) m') = (if m' = m then None else owner (mutexes s m'))"
  by (auto simp: handed_over_def k_mutex_recalc_priority_def Let_def split: list.split)

lemma k_mutex_unlock_locked_eq:
  assumes inv: "sched_inv {} s" and minv: "mutex_inv s" and lock: "slock s = Some c"
    and cur: "cur s c = Some t"
  shows "k_mutex_unlock_locked c m s =
    Some (upd_task t (\<lambda>x. x\<lparr>prio := effective_prio t (handed_over m s)\<rparr>) (handed_over m s))"
proof -
  note r = released_inv [OF inv minv, of m]
  have w: "k_sched_wakeup_one_locked c (MutexQ m) 0 (released m s) =
      Some (case queues s (MutexQ m) of [] \<Rightarrow> (None, released m s)
        | w # _ \<Rightarrow> (Some w, resumed w 0 (released m s)))"
    using k_sched_wakeup_one_eq [OF r(1), of c "MutexQ m" 0] lock by simp
  have "k_mutex_unlock_locked c m s = k_sched_update_effective_priority c (handed_over m s)"
    by (simp add: k_mutex_unlock_locked_def released_def [symmetric] w handed_over_def Let_def
        split: list.split)
  then show ?thesis using cur by (simp add: k_sched_update_effective_priority_eq)
qed

lemma handed_over_queue:
  assumes "sched_inv A s" and "mutex_inv s"
  shows "queues (handed_over m s) (MutexQ m) = tl (queues s (MutexQ m))"
    and "queues s (MutexQ m) = w # ws \<Longrightarrow> tstate (tasks (handed_over m s) w) = READY"
    and "queues s (MutexQ m) = w # ws \<Longrightarrow> sleep_result (tasks (handed_over m s) w) = 0"
  using resumed_wait_queue [OF released_inv(1) [OF assms], of "MutexQ m"]
  by (auto simp: handed_over_def k_mutex_recalc_priority_def Let_def split: list.split)

end
