(* ===== verification/K_Task.thy ===== *)
theory K_Task
  imports K_Mutex
begin

section \<open>Tasks\<close>

text \<open>
  Models \<open>kernel/core/task.c\<close> and the part of \<open>kernel/core/irq.c\<close> that counts interrupt handlers
  and reschedules.  \<open>k_inv\<close> is the invariant of the whole kernel state between two critical
  sections; every operation is shown to preserve it, and the operations that cannot panic in a
  state satisfying it are shown to return.
\<close>

subsection \<open>Operations\<close>

definition k_task_create :: "tid \<Rightarrow> nat \<Rightarrow> sched \<Rightarrow> sched" where
  "k_task_create t priority s = upd_task t (\<lambda>x. x
     \<lparr>owned := [], link := None, sleep_on_mutex := None, reschedule := False,
      saved_prio := priority, prio := priority, tstate := SUSPENDED, tcontext := K_Run\<rparr>) s"

definition k_task_resume :: "cpu_id \<Rightarrow> tid \<Rightarrow> sched \<Rightarrow> (int option \<times> sched) option" where
  "k_task_resume c t s = do {
     s \<leftarrow> sched_lock c s;
     if tstate (tasks s t) \<noteq> SUSPENDED then do {
       s \<leftarrow> sched_unlock c s;
       Some (Some (- EINVAL), s)
     } else do {
       k_assert (link (tasks s t) = None);
       s \<leftarrow> k_sched_enqueue c t s;
       (yielded, s) \<leftarrow> k_sched_may_yield c t s;
       if yielded then Some (None, s)
       else do { s \<leftarrow> sched_unlock c s; Some (Some 0, s) }
     }
   }"

definition k_task_yield :: "cpu_id \<Rightarrow> sched \<Rightarrow> sched option" where
  "k_task_yield c s = do {
     current \<leftarrow> cur s c;
     s \<leftarrow> sched_lock c s;
     s \<leftarrow> k_sched_enqueue c current s;
     k_sched_yield_locked c (K_Yield (tcontext (tasks s current))) s
   }"

definition k_task_wake :: "cpu_id \<Rightarrow> tid \<Rightarrow> sched \<Rightarrow> sched option" where
  "k_task_wake c t s = do {
     s \<leftarrow> sched_lock c s;
     s \<leftarrow> (if sleep_on_mutex (tasks s t) = None \<and> tstate (tasks s t) \<noteq> SLEEP_UNWAKEABLE
          then k_sched_resume c t (- EINTR) s
          else Some s);
     sched_unlock c s
   }"

definition k_task_exit :: "cpu_id \<Rightarrow> sched \<Rightarrow> sched option" where
  "k_task_exit c s = do {
     t \<leftarrow> cur s c;
     let s = s\<lparr>timeouts := timeout_destroy t (timeouts s)\<rparr>;
     s \<leftarrow> sched_lock c s;
     let s = upd_task t (\<lambda>x. x\<lparr>tstate := DESTROYED\<rparr>) s;
     k_sched_yield_locked c K_Exit s
   }"

definition k_task_suspend :: "cpu_id \<Rightarrow> sched \<Rightarrow> sched option" where
  "k_task_suspend c s = do {
     t \<leftarrow> cur s c;
     s \<leftarrow> sched_lock c s;
     let s = upd_task t (\<lambda>x. x\<lparr>tstate := SUSPENDED\<rparr>) s;
     k_sched_yield_locked c (K_Yield (tcontext (tasks s t))) s
   }"

definition k_irq_handler_begin :: "cpu_id \<Rightarrow> sched \<Rightarrow> sched" where
  "k_irq_handler_begin c s = s\<lparr>lock_count := (lock_count s)(c := lock_count s c + 1)\<rparr>"

text \<open>\<open>k_irq_handler_end\<close>; the flag says whether the interrupted task lost the CPU.\<close>

definition k_irq_handler_end :: "cpu_id \<Rightarrow> sched \<Rightarrow> (bool \<times> sched) option" where
  "k_irq_handler_end c s = do {
     s \<leftarrow> sched_lock c s;
     let s = s\<lparr>lock_count := (lock_count s)(c := lock_count s c - 1)\<rparr>;
     k_assert (lock_count s c \<ge> 0);
     case cur s c of
       None \<Rightarrow> do { s \<leftarrow> sched_unlock c s; Some (False, s) }
     | Some current \<Rightarrow>
         if lock_count s c = 0 \<and> reschedule (tasks s current) then do {
           let s = upd_task current (\<lambda>x. x\<lparr>reschedule := False\<rparr>) s;
           s \<leftarrow> k_sched_enqueue c current s;
           s \<leftarrow> k_sched_yield_locked c (K_Yield (tcontext (tasks s current))) s;
           Some (True, s)
         } else do { s \<leftarrow> sched_unlock c s; Some (False, s) }
   }"

text \<open>One iteration of the loop of \<open>k_sched_start\<close>: the next task, now running, or \<open>None\<close> and an
  idle CPU that gave up the lock.  Taking the lock again after the idle hook is the
  second definition.\<close>

definition k_sched_start_iter :: "cpu_id \<Rightarrow> sched \<Rightarrow> (tid option \<times> sched) option" where
  "k_sched_start_iter c s = do {
     (n, s) \<leftarrow> k_sched_dequeue c s;
     case n of
       Some t \<Rightarrow> do {
         k_assert (tstate (tasks s t) = READY);
         Some (Some t, k_sched_switch_in c t s)
       }
     | None \<Rightarrow> do { s \<leftarrow> sched_unlock c s; Some (None, s) }
   }"

definition k_sched_idle_end :: "cpu_id \<Rightarrow> sched \<Rightarrow> sched option" where
  "k_sched_idle_end c s = sched_lock c s"

subsection \<open>The kernel invariant\<close>

definition lock_ok :: "sched \<Rightarrow> bool" where
  "lock_ok s \<longleftrightarrow> (\<forall>c. slock s = Some c \<longrightarrow> cur s c = None)"

definition k_inv :: "sched \<Rightarrow> bool" where
  "k_inv s \<longleftrightarrow> sched_inv {} s \<and> mutex_inv s \<and> lock_ok s"

lemma initial_k_inv: "k_inv initial_sched"
  using initial_sched_inv initial_mutex_inv by (simp add: k_inv_def lock_ok_def initial_sched_def)

lemma k_inv_sched: "k_inv s \<Longrightarrow> sched_inv {} s"
  and k_inv_mutex: "k_inv s \<Longrightarrow> mutex_inv s"
  by (simp_all add: k_inv_def)

lemma k_inv_free: "sched_inv {} s \<Longrightarrow> mutex_inv s \<Longrightarrow> slock s = None \<Longrightarrow> k_inv s"
  by (simp add: k_inv_def lock_ok_def)

lemma k_inv_switched: "sched_inv {} s \<Longrightarrow> mutex_inv s \<Longrightarrow> slock s = Some c \<Longrightarrow> cur s c = None \<Longrightarrow> k_inv s"
  by (simp add: k_inv_def lock_ok_def)

lemma k_inv_locked:
  "k_inv s \<Longrightarrow> sched_inv {} (s\<lparr>slock := l\<rparr>) \<and> mutex_inv (s\<lparr>slock := l\<rparr>)"
  by (simp add: k_inv_def)

subsection \<open>Preservation\<close>

lemma mutex_inv_upd_tstate:
  assumes "\<And>x. prio (f x) = prio x" and "\<And>x. owned (f x) = owned x"
  shows "mutex_inv (upd_task t f s) \<longleftrightarrow> mutex_inv s"
  by (rule mutex_inv_same) (simp_all add: assms)

lemma k_task_yield_inv:
  assumes inv: "k_inv s" and cur: "cur s c = Some t" and lock: "slock s = None"
  shows "\<exists>s'. k_task_yield c s = Some s' \<and> k_inv s' \<and> slock s' = Some c \<and> cur s' c = None"
proof -
  let ?s = "s\<lparr>slock := Some c\<rparr>"
  have i: "sched_inv {} ?s" "mutex_inv ?s" using k_inv_locked [OF inv] by auto
  have run: "k_task_yield c s = Some (yielded c t (K_Yield (tcontext (tasks s t))) ?s)"
    using cur lock yield_bind' [OF i(1), of c t K_Yield Some] by (simp add: k_task_yield_def sched_lock_def)
  have "sched_inv {} (yielded c t (K_Yield (tcontext (tasks s t))) ?s)" by (rule yielded_inv [OF i(1)]) (simp add: cur)
  moreover have "mutex_inv (yielded c t (K_Yield (tcontext (tasks s t))) ?s)"
    by (rule mutex_inv_frame [OF i(2) mutex_frame_yielded [OF i(1)]]) (simp add: cur)
  ultimately show ?thesis unfolding run by (auto intro!: k_inv_switched)
qed

lemma k_task_wake_inv:
  assumes inv: "k_inv s" and lock: "slock s = None"
  shows "\<exists>s'. k_task_wake c t s = Some s' \<and> k_inv s' \<and> slock s' = None \<and> cur s' = cur s"
proof -
  let ?s = "s\<lparr>slock := Some c\<rparr>"
  have i: "sched_inv {} ?s" "mutex_inv ?s" using k_inv_locked [OF inv] by auto
  let ?w = "sleep_on_mutex (tasks s t) = None \<and> tstate (tasks s t) = SLEEP"
  have run: "k_task_wake c t s =
      Some ((if ?w then resumed t (- EINTR) ?s else ?s)\<lparr>slock := None\<rparr>)"
    using lock k_sched_resume_eq [OF i(1), of c t "- EINTR"]
    by (simp add: k_task_wake_def sched_lock_def sched_unlock_def sleeping_def)
  show ?thesis
  proof (cases ?w)
    case True
    then have "sched_inv {} (resumed t (- EINTR) ?s)" "mutex_inv (resumed t (- EINTR) ?s)"
      using resumed_inv [OF i(1)] mutex_inv_frame [OF i(2) mutex_frame_resumed [OF i(1)]]
      by (auto simp: sleeping_def)
    with True run show ?thesis by (auto intro!: k_inv_free)
  next
    case False
    with run i show ?thesis by (auto intro!: k_inv_free)
  qed
qed

text \<open>A running task that stops: suspended or destroyed.\<close>

lemma stopped_inv:
  assumes inv: "k_inv s" and cur: "cur s c = Some t" and st: "st = SUSPENDED \<or> st = DESTROYED"
  shows "k_inv (s\<lparr>slock := Some c, tasks := (tasks s)(t := (tasks s t)\<lparr>tstate := st, tcontext := k\<rparr>),
    cur := (cur s)(c := None)\<rparr>)" (is "k_inv ?s")
proof -
  note i = k_inv_sched [OF inv] and m = k_inv_mutex [OF inv]
  have sm: "sleep_on_mutex (tasks s t) = None" "t \<notin> fst ` set (timeouts s)"
    using running_not_waiting [OF i cur] by auto
  have ok: "ktask_ok ((tasks s t)\<lparr>tstate := st, tcontext := k\<rparr>)"
    using ktask_ok_prio [OF sched_inv_task [OF i, of t]] running_unlinked [OF i cur] st
    by (auto simp: ktask_ok_def sleeping_def)
  have "tq_inv (timeouts s)" using i by (simp add: sched_inv_def asleep_ok_def)
  then have "sched_inv {} (s\<lparr>tasks := (tasks s)(t := (tasks s t)\<lparr>tstate := st, tcontext := k\<rparr>),
      cur := (cur s)(c := None), timeouts := timeouts s\<rparr>)"
    using sm st running_unlinked [OF i cur]
    by (intro sched_inv_leave [OF sched_inv_mono [OF i] cur ok]) (auto simp: asleep_task_def)
  note leave = this
  have eq: "?s = s\<lparr>tasks := (tasks s)(t := (tasks s t)\<lparr>tstate := st, tcontext := k\<rparr>),
      cur := (cur s)(c := None), timeouts := timeouts s, slock := Some c\<rparr>" by (cases s) simp
  have a: "sched_inv {} ?s" unfolding eq using leave by (simp only: sched_inv_slock)
  have "mutex_inv ?s \<longleftrightarrow> mutex_inv s" by (rule mutex_inv_same) simp_all
  with m have b: "mutex_inv ?s" by (simp only:)
  show ?thesis by (rule k_inv_switched [OF a b, of c]) simp_all
qed

lemma k_task_suspend_inv:
  assumes inv: "k_inv s" and cur: "cur s c = Some t" and lock: "slock s = None"
  shows "\<exists>s'. k_task_suspend c s = Some s' \<and> k_inv s' \<and> slock s' = Some c \<and> cur s' c = None"
  using stopped_inv [OF inv cur, of SUSPENDED "K_Yield (tcontext (tasks s t))"] cur lock
  by (simp add: k_task_suspend_def sched_lock_def k_sched_yield_locked_def k_sched_switch_out_def Let_def)

lemma timeout_destroy_absent: "t \<notin> fst ` set q \<Longrightarrow> timeout_destroy t q = q"
  unfolding timeout_destroy_def by (rule filter_True) auto

lemma k_task_exit_inv:
  assumes inv: "k_inv s" and cur: "cur s c = Some t" and lock: "slock s = None"
  shows "\<exists>s'. k_task_exit c s = Some s' \<and> k_inv s' \<and> slock s' = Some c \<and> cur s' c = None"
  using stopped_inv [OF inv cur, of DESTROYED K_Exit] cur lock
    timeout_destroy_absent [OF running_not_waiting(1) [OF k_inv_sched [OF inv] cur]]
  by (simp add: k_task_exit_def sched_lock_def k_sched_yield_locked_def k_sched_switch_out_def Let_def)

lemma cur_ok_cong:
  assumes "\<And>t. tstate (tasks s' t) = RUNNING \<longleftrightarrow> tstate (tasks s t) = RUNNING" and "cur s' = cur s"
  shows "cur_ok s' \<longleftrightarrow> cur_ok s"
  using assms by (simp add: cur_ok_def)

lemma k_task_create_inv:
  assumes inv: "k_inv s" and new: "tstate (tasks s t) = NONE" "owned (tasks s t) = []"
    and p: "priority < K_TASK_MAX_PRIORITIES"
  shows "k_inv (k_task_create t priority s)" (is "k_inv ?s")
proof -
  note i = k_inv_sched [OF inv] and m = k_inv_mutex [OF inv]
  have l: "link (tasks s t) = None"
    using ktask_ok_linked [OF sched_inv_task [OF i, of t]] new by (cases "link (tasks s t)") (auto simp: sleeping_def)
  have nq: "t \<notin> set (queues s q)" for q using i l by (simp add: sched_inv_def link_ok_def)
  have "asleep_task (t \<in> fst ` set (timeouts s)) (tasks s t)"
    using i by (simp add: sched_inv_def asleep_ok_def)
  then have at: "t \<notin> fst ` set (timeouts s)" using new(1) by (auto simp: asleep_task_def sleeping_def)
  have "link_ok ?s \<longleftrightarrow> link_ok s"
    by (rule link_ok_cong) (use l in \<open>simp_all add: k_task_create_def\<close>)
  moreover have "ktask_ok (tasks ?s u)" for u
  proof (cases "u = t")
    case True
    then show ?thesis using p by (simp add: k_task_create_def ktask_ok_def sleeping_def)
  next
    case False
    then show ?thesis using sched_inv_task [OF i, of u] by (simp add: k_task_create_def)
  qed
  moreover have "cur_ok ?s \<longleftrightarrow> cur_ok s"
    by (rule cur_ok_cong) (use new(1) in \<open>simp_all add: k_task_create_def\<close>)
  moreover have "asleep_task (u \<in> fst ` set (timeouts s)) (tasks ?s u)" for u
  proof (cases "u = t")
    case True
    then show ?thesis using at by (simp add: k_task_create_def asleep_task_def)
  next
    case False
    then show ?thesis using i by (simp add: sched_inv_def asleep_ok_def k_task_create_def)
  qed
  then have "asleep_ok {} ?s" using i by (simp add: sched_inv_def asleep_ok_def k_task_create_def)
  ultimately have "sched_inv {} ?s" using i by (simp add: sched_inv_def)
  moreover have "mutex_inv ?s"
  proof -
    have "m' \<in> set (owned (tasks s t)) \<longleftrightarrow> owner (mutexes s m') = Some t" for m'
      using m by (simp add: mutex_inv_def own_ok_def)
    then have no: "owner (mutexes s m') \<noteq> Some t" for m' using new(2) by simp
    have q: "queues ?s = queues s" "mutexes ?s = mutexes s" by (simp_all add: k_task_create_def)
    have own: "owned (tasks ?s u) = owned (tasks s u)" for u using new(2) by (simp add: k_task_create_def)
    have pr: "prio (tasks ?s u) = prio (tasks s u)" if "u \<noteq> t" for u
      using that by (simp add: k_task_create_def)
    have pq: "prio (tasks ?s u) = prio (tasks s u)" if "u \<in> set (queues s (MutexQ m'))" for u m'
      using that nq [of "MutexQ m'"] by (intro pr) auto
    have eq: "map (\<lambda>u. prio (tasks ?s u)) (queues s (MutexQ m')) =
        map (\<lambda>u. prio (tasks s u)) (queues s (MutexQ m'))" for m' using pq by simp
    have "sorted_ok ?s" unfolding sorted_ok_def q eq using m by (simp add: mutex_inv_def sorted_ok_def)
    moreover have "waiters_ok m' ?s" for m'
      using m pq unfolding mutex_inv_def waiters_ok_def q by simp
    moreover have "own_ok ?s" using m by (simp add: mutex_inv_def own_ok_def own q)
    moreover have "prio (tasks ?s u) \<le> mprio (mutexes s m')" if "owner (mutexes s m') = Some u" for m' u
    proof -
      have "u \<noteq> t" using that no by auto
      with pr m that show ?thesis by (simp add: mutex_inv_def inherit_ok_def)
    qed
    then have "inherit_ok ?s" by (simp add: inherit_ok_def q)
    ultimately show ?thesis by (simp add: mutex_inv_def)
  qed
  moreover have "lock_ok ?s" using inv by (simp add: k_inv_def lock_ok_def k_task_create_def)
  ultimately show ?thesis by (simp add: k_inv_def)
qed

text \<open>A suspended task that becomes ready.\<close>

definition readied :: "tid \<Rightarrow> sched \<Rightarrow> sched" where
  "readied t s = (moved t (RunQ (prio (tasks s t))) (\<lambda>xs. xs @ [t]) s)
     \<lparr>tasks := (tasks s)(t := (tasks s t)\<lparr>tstate := READY, link := Some (RunQ (prio (tasks s t)))\<rparr>)\<rparr>"

lemma readied_inv:
  assumes "sched_inv {} s" and "mutex_inv s" and "tstate (tasks s t) = SUSPENDED"
  shows "sched_inv {} (readied t s)" and "mutex_inv (readied t s)"
proof -
  have "ktask_ok ((tasks s t)\<lparr>tstate := READY, link := Some (RunQ (prio (tasks s t)))\<rparr>)"
    using ktask_ok_prio [OF sched_inv_task [OF assms(1), of t]] by (simp add: ktask_ok_def sleeping_def)
  then show "sched_inv {} (readied t s)"
    unfolding readied_def using assms(3)
    by (intro sched_inv_moved [OF assms(1), where f = "\<lambda>x. x\<lparr>tstate := READY, link := Some (RunQ (prio x))\<rparr>"])
      simp_all
  have "mutex_frame s (readied t s)"
    using assms(1) by (auto simp: mutex_frame_def readied_def moved_queues sched_inv_def)
  then show "mutex_inv (readied t s)" by (rule mutex_inv_frame [OF assms(2)])
qed

lemma readied_simps [simp]:
  "cur (readied t s) = cur s" "slock (readied t s) = slock s" "lock_count (readied t s) = lock_count s"
  "sems (readied t s) = sems s" "timeouts (readied t s) = timeouts s"
  by (simp_all add: readied_def)

lemma k_sched_enqueue_suspended:
  assumes "sched_inv A s" and "slock s = Some c" and "tstate (tasks s t) = SUSPENDED"
  shows "link (tasks s t) = None" and "k_sched_enqueue c t s = Some (readied t s)"
proof -
  show l: "link (tasks s t) = None"
    using ktask_ok_linked [OF sched_inv_task [OF assms(1), of t]] assms(3)
    by (cases "link (tasks s t)") (auto simp: sleeping_def)
  then show "k_sched_enqueue c t s = Some (readied t s)"
    using assms(2) prio_bound [OF assms(1), of t]
    by (simp add: k_sched_enqueue_def link_add_back_def readied_def moved_def Let_def)
qed

definition may_yield_post :: "cpu_id \<Rightarrow> sched \<Rightarrow> bool \<Rightarrow> sched \<Rightarrow> bool" where
  "may_yield_post c s b s' \<longleftrightarrow> sched_inv {} s' \<and> mutex_inv s' \<and> slock s' = Some c \<and>
     (if b then cur s' c = None else cur s' = cur s)"

lemma k_sched_may_yield_inv:
  assumes inv: "sched_inv {} s" "mutex_inv s" and lock: "slock s = Some c"
  shows "\<exists>b s'. k_sched_may_yield c t s = Some (b, s') \<and> may_yield_post c s b s'"
proof (cases "cur s c")
  case None
  with k_sched_may_yield_eq [OF inv(1) lock, of t] inv lock show ?thesis
    by (intro exI [of _ False] exI [of _ s]) (simp add: may_yield_post_def)
next
  case (Some my)
  have y: "sched_inv {} (yielded c my (K_Yield (tcontext (tasks s my))) s)" "mutex_inv (yielded c my (K_Yield (tcontext (tasks s my))) s)"
    using yielded_inv [OF inv(1) Some] mutex_inv_frame [OF inv(2) mutex_frame_yielded [OF inv(1) Some]]
    by auto
  show ?thesis
    using k_sched_may_yield_eq [OF inv(1) lock, of t] Some inv lock y
    by (auto simp: may_yield_post_def)
qed

lemma k_task_resume_inv:
  assumes inv: "k_inv s" and lock: "slock s = None"
  shows "\<exists>r s'. k_task_resume c t s = Some (r, s') \<and> k_inv s' \<and>
    (r = None \<longrightarrow> slock s' = Some c \<and> cur s' c = None) \<and> (r \<noteq> None \<longrightarrow> slock s' = None \<and> cur s' = cur s)"
proof -
  let ?s = "s\<lparr>slock := Some c\<rparr>"
  have i: "sched_inv {} ?s" "mutex_inv ?s" using k_inv_locked [OF inv] by auto
  show ?thesis
  proof (cases "tstate (tasks s t) = SUSPENDED")
    case False
    with lock i show ?thesis
      by (auto simp: k_task_resume_def sched_lock_def sched_unlock_def intro!: k_inv_free)
  next
    case True
    then have st: "tstate (tasks ?s t) = SUSPENDED" by simp
    note e = k_sched_enqueue_suspended [OF i(1) _ st, of c]
    note r = readied_inv [OF i st]
    obtain b s' where y: "k_sched_may_yield c t (readied t ?s) = Some (b, s')"
      "may_yield_post c (readied t ?s) b s'"
      using k_sched_may_yield_inv [OF r, of c t] by auto
    show ?thesis
    proof (cases b)
      case True
      with y(2) have p: "sched_inv {} s'" "mutex_inv s'" "slock s' = Some c" "cur s' c = None"
        by (simp_all add: may_yield_post_def)
      from True y(1) lock e st have "k_task_resume c t s = Some (None, s')"
        by (simp add: k_task_resume_def sched_lock_def)
      with p k_inv_switched [OF p] show ?thesis by simp
    next
      case False
      with y(2) have p: "sched_inv {} (s'\<lparr>slock := None\<rparr>)" "mutex_inv (s'\<lparr>slock := None\<rparr>)"
        "slock s' = Some c" "cur s' = cur s" by (simp_all add: may_yield_post_def)
      from False y(1) lock e st p(3) have "k_task_resume c t s = Some (Some 0, s'\<lparr>slock := None\<rparr>)"
        by (simp add: k_task_resume_def sched_lock_def sched_unlock_def)
      with p(4) k_inv_free [OF p(1,2)] show ?thesis by simp
    qed
  qed
qed

lemma k_irq_handler_end_inv:
  assumes inv: "k_inv s" and lock: "slock s = None" and cnt: "lock_count s c > 0"
  shows "\<exists>b s'. k_irq_handler_end c s = Some (b, s') \<and> k_inv s' \<and>
    (if b then slock s' = Some c \<and> cur s' c = None else slock s' = None \<and> cur s' = cur s)"
proof -
  let ?s = "s\<lparr>slock := Some c, lock_count := (lock_count s)(c := lock_count s c - 1)\<rparr>"
  have i: "sched_inv {} ?s" "mutex_inv ?s" using inv by (simp_all add: k_inv_def)
  have free: "k_inv (?s\<lparr>slock := None\<rparr>)" using i by (intro k_inv_free) simp_all
  show ?thesis
  proof (cases "cur s c")
    case None
    with lock cnt free show ?thesis
      by (intro exI [of _ False] exI [of _ "?s\<lparr>slock := None\<rparr>"])
        (simp add: k_irq_handler_end_def sched_lock_def sched_unlock_def)
  next
    case (Some t)
    let ?s1 = "upd_task t (\<lambda>x. x\<lparr>reschedule := False\<rparr>) ?s"
    have i1: "sched_inv {} ?s1" using i(1) by (rule sched_inv_reschedule)
    have m1: "mutex_inv ?s1" using i(2) by (simp only: mutex_inv_reschedule)
    have c1: "cur ?s1 c = Some t" "slock ?s1 = Some c" using Some by simp_all
    let ?y = "yielded c t (K_Yield (tcontext (tasks s t))) ?s1"
    have "sched_inv {} ?y" by (rule yielded_inv [OF i1 c1(1)])
    moreover have "mutex_inv ?y" by (rule mutex_inv_frame [OF m1 mutex_frame_yielded [OF i1 c1(1)]])
    ultimately have y: "k_inv ?y" by (rule k_inv_switched [where c = c]) (simp_all add: Some)
    show ?thesis
    proof (cases "lock_count s c = 1 \<and> reschedule (tasks s t)")
      case True
      have "k_irq_handler_end c s = Some (True, ?y)"
        using Some lock cnt True yield_bind' [OF i1 c1(2,1), of K_Yield "\<lambda>s. Some (True, s)"]
        by (simp add: k_irq_handler_end_def sched_lock_def Let_def)
      with y show ?thesis by (intro exI [of _ True] exI [of _ ?y]) simp
    next
      case False
      then have "k_irq_handler_end c s = Some (False, ?s\<lparr>slock := None\<rparr>)"
        using Some lock cnt by (auto simp: k_irq_handler_end_def sched_lock_def sched_unlock_def Let_def)
      with free show ?thesis by (intro exI [of _ False] exI [of _ "?s\<lparr>slock := None\<rparr>"]) simp
    qed
  qed
qed

lemma k_sched_check_quantum_inv:
  assumes inv: "k_inv s" and lock: "slock s = None"
  shows "\<exists>s'. k_sched_check_quantum c s = Some s' \<and> k_inv s' \<and> slock s' = None \<and> cur s' = cur s"
proof (cases "cur s c")
  case None
  with inv lock show ?thesis by (simp add: k_sched_check_quantum_def)
next
  case (Some t)
  let ?s = "s\<lparr>slock := None, tasks := (tasks s)(t := (tasks s t)\<lparr>reschedule := True\<rparr>)\<rparr>"
  have "s\<lparr>slock := Some c, tasks := (tasks s)(t := (tasks s t)\<lparr>reschedule := True\<rparr>), slock := None\<rparr> = ?s"
    by simp
  then have "k_sched_check_quantum c s = Some ?s"
    using Some lock by (simp add: k_sched_check_quantum_def sched_lock_def sched_unlock_def Let_def)
  moreover have "sched_inv {} ?s" "mutex_inv ?s"
    using sched_inv_reschedule [of "{}" "s\<lparr>slock := None\<rparr>" t True]
      mutex_inv_reschedule [where t = t and b = True and s = "s\<lparr>slock := None\<rparr>"] inv by (simp_all add: k_inv_def)
  then have "k_inv ?s" by (rule k_inv_free) simp
  ultimately show ?thesis by simp
qed

lemma k_sched_adjust_timeouts_inv:
  assumes inv: "k_inv s" and lock: "slock s = None" and d: "0 \<le> d"
  shows "\<exists>s'. k_sched_adjust_timeouts c d s = Some s' \<and> k_inv s' \<and> slock s' = None \<and> cur s' = cur s"
proof -
  let ?s = "s\<lparr>slock := Some c\<rparr>"
  have i: "sched_inv {} ?s" "mutex_inv ?s" using k_inv_locked [OF inv] by auto
  have "k_inv ((ticked d ?s)\<lparr>slock := None\<rparr>)"
    using ticked_inv [OF i(1)] mutex_inv_frame [OF i(2) mutex_frame_ticked [OF i(1)]]
    by (intro k_inv_free) simp_all
  then show ?thesis
    using k_sched_adjust_timeouts_eq [OF k_inv_sched [OF inv] lock d, of c]
    by (simp add: ticked_def fold_expire_fields)
qed

text \<open>The scheduler loop never finds a task that is not ready; the task it picks is about to
  leave its sleep.\<close>

lemma k_sched_start_iter_cases:
  assumes inv: "k_inv s" and lock: "slock s = Some c"
  obtains (idle) "k_sched_start_iter c s = Some (None, s\<lparr>slock := None\<rparr>)" and "k_inv (s\<lparr>slock := None\<rparr>)"
    and "\<forall>t. tstate (tasks s t) \<noteq> READY"
  | (run) t s' where "k_sched_start_iter c s = Some (Some t, s')" and "best_ready t s"
    and "s' = k_sched_switch_in c t (link_remove t s)" and "sched_inv {t} s'" and "mutex_inv s'"
    and "slock s' = Some c" and "cur s' c = Some t"
proof (rule k_sched_dequeue_cases [OF k_inv_sched [OF inv] lock])
  assume a: "k_sched_dequeue c s = Some (None, s)" "\<forall>t. tstate (tasks s t) \<noteq> READY"
  have "k_sched_start_iter c s = Some (None, s\<lparr>slock := None\<rparr>)"
    using a(1) lock by (simp add: k_sched_start_iter_def sched_unlock_def)
  moreover have "k_inv (s\<lparr>slock := None\<rparr>)" using inv by (simp add: k_inv_def lock_ok_def)
  ultimately show thesis using a(2) by (rule idle)
next
  fix t assume a: "k_sched_dequeue c s = Some (Some t, link_remove t s)" "best_ready t s"
  let ?s = "k_sched_switch_in c t (link_remove t s)"
  have ready: "tstate (tasks s t) = READY" using a(2) by (simp add: best_ready_def)
  have "cur s c = None" using inv lock by (simp add: k_inv_def lock_ok_def)
  then have "sched_inv {t} ?s" by (rule switched_in_inv [OF k_inv_sched [OF inv] ready])
  moreover have "mutex_frame s ?s"
    using k_inv_sched [OF inv]
    by (auto simp: mutex_frame_def k_sched_switch_in_def link_remove_queues sched_inv_def link_remove_tasks)
  then have "mutex_inv ?s" by (rule mutex_inv_frame [OF k_inv_mutex [OF inv]])
  moreover have "k_sched_start_iter c s = Some (Some t, ?s)"
    using a(1) ready by (simp add: k_sched_start_iter_def)
  moreover have "slock ?s = Some c" "cur ?s c = Some t" using lock by (simp_all add: k_sched_switch_in_def)
  ultimately show thesis using a(2) run by blast
qed

end
