(* ===== verification/K_Condvar.thy ===== *)
theory K_Condvar
  imports K_Task
begin

section \<open>Condition variables\<close>

text \<open>
  Models \<open>kernel/core/condvar.c\<close>.  The queue of condition variable \<open>i\<close> is \<open>queues s (CondQ i)\<close>;
  \<open>conds s i\<close> says that its \<open>type\<close> field is \<open>K_CONDVAR_TYPE\<close>.  A wait has three parts: up to the sleep
  on the condition variable, from there to the sleep on the mutex, and the rest.
\<close>

definition sleep_state :: "bool \<Rightarrow> task_state" where
  "sleep_state unwakeable = (if unwakeable then SLEEP_UNWAKEABLE else SLEEP)"

lemma sleeping_sleep_state [simp]: "sleeping (sleep_state u)"
  by (simp add: sleep_state_def sleeping_def)

subsection \<open>Operations\<close>

definition k_condvar_create :: "nat \<Rightarrow> sched \<Rightarrow> sched" where
  "k_condvar_create i s = s\<lparr>queues := (queues s)(CondQ i := []), conds := (conds s)(i := True)\<rparr>"

definition k_condvar_destroy :: "cpu_id \<Rightarrow> nat \<Rightarrow> sched \<Rightarrow> sched option" where
  "k_condvar_destroy c i s = do {
     k_assert (conds s i);
     s \<leftarrow> sched_lock c s;
     s \<leftarrow> k_sched_wakeup_all_locked c (CondQ i) (- (- EINVAL)) s;
     s \<leftarrow> sched_unlock c s;
     Some (s\<lparr>conds := (conds s)(i := False)\<rparr>)
   }"

definition k_condvar_timed_wait ::
  "cpu_id \<Rightarrow> nat \<Rightarrow> mid \<Rightarrow> int \<Rightarrow> bool \<Rightarrow> sched \<Rightarrow> sched option" where
  "k_condvar_timed_wait c i m timeout unwakeable s = do {
     k_assert (conds s i);
     h \<leftarrow> k_mutex_holding c m s;
     k_assert h;
     s \<leftarrow> sched_lock c s;
     s \<leftarrow> k_mutex_unlock_locked c m s;
     k_sched_sleep_begin c (Some (CondQ i)) (sleep_state unwakeable) timeout (K_CondWait m timeout) s
   }"

text \<open>The task was woken: it takes the mutex again.  The result \<open>r\<close> of the sleep is the result of
  the call whatever the locking returned.\<close>

definition cond_locked ::
  "cpu_id \<Rightarrow> int \<Rightarrow> int option \<times> sched \<Rightarrow> (int option \<times> sched) option" where
  "cond_locked c r ls =
     (case fst ls of
        None \<Rightarrow> Some ls
      | Some _ \<Rightarrow> do { s \<leftarrow> sched_unlock c (snd ls); Some (Some r, s) })"

definition k_condvar_wait_resume ::
  "cpu_id \<Rightarrow> mid \<Rightarrow> int \<Rightarrow> sched \<Rightarrow> (int option \<times> sched) option" where
  "k_condvar_wait_resume c m timeout s = do {
     (r, s) \<leftarrow> k_sched_sleep_end c timeout s;
     ls \<leftarrow> k_mutex_lock_round c m 0 (K_CondLock m r) s;
     cond_locked c r ls
   }"

definition k_condvar_lock_resume ::
  "cpu_id \<Rightarrow> mid \<Rightarrow> int \<Rightarrow> sched \<Rightarrow> (int option \<times> sched) option" where
  "k_condvar_lock_resume c m r s = do {
     ls \<leftarrow> k_mutex_lock_resume c m 0 (K_CondLock m r) s;
     cond_locked c r ls
   }"

definition k_condvar_notify_one :: "cpu_id \<Rightarrow> nat \<Rightarrow> sched \<Rightarrow> sched option" where
  "k_condvar_notify_one c i s = do {
     k_assert (conds s i);
     s \<leftarrow> sched_lock c s;
     (_, s) \<leftarrow> k_sched_wakeup_one_locked c (CondQ i) 0 s;
     sched_unlock c s
   }"

definition k_condvar_notify_all :: "cpu_id \<Rightarrow> nat \<Rightarrow> sched \<Rightarrow> sched option" where
  "k_condvar_notify_all c i s = do {
     k_assert (conds s i);
     s \<leftarrow> sched_lock c s;
     s \<leftarrow> k_sched_wakeup_all_locked c (CondQ i) 0 s;
     sched_unlock c s
   }"

subsection \<open>Waking the tasks of a queue\<close>

text \<open>The two patterns \<open>lock; wake one; unlock\<close> and \<open>lock; wake all; unlock\<close> shared by condition
  variables, semaphores, mailboxes and wait queues.\<close>

definition wake_one :: "qid \<Rightarrow> int \<Rightarrow> sched \<Rightarrow> sched" where
  "wake_one q r s = (case queues s q of [] \<Rightarrow> s | t # _ \<Rightarrow> resumed t r s)"

lemma wake_one_eq:
  assumes "k_inv s" and "slock s = None" and "is_wait_queue q"
  shows "do { s \<leftarrow> sched_lock c s; (_, s) \<leftarrow> k_sched_wakeup_one_locked c q r s; sched_unlock c s } =
      Some ((wake_one q r (s\<lparr>slock := Some c\<rparr>))\<lparr>slock := None\<rparr>)"
    and "k_inv ((wake_one q r (s\<lparr>slock := Some c\<rparr>))\<lparr>slock := None\<rparr>)"
    and "cur (wake_one q r (s\<lparr>slock := Some c\<rparr>)) = cur s"
proof -
  let ?s = "s\<lparr>slock := Some c\<rparr>"
  have i: "sched_inv {} ?s" "mutex_inv ?s" using k_inv_locked [OF assms(1)] by auto
  have w: "k_sched_wakeup_one_locked c q r ?s =
      Some (case queues s q of [] \<Rightarrow> (None, ?s) | t # _ \<Rightarrow> (Some t, resumed t r ?s))"
    using k_sched_wakeup_one_eq [OF i(1) _ assms(3), of c r] by simp
  show "do { s \<leftarrow> sched_lock c s; (_, s) \<leftarrow> k_sched_wakeup_one_locked c q r s; sched_unlock c s } =
      Some ((wake_one q r ?s)\<lparr>slock := None\<rparr>)"
    using assms(2) by (simp add: sched_lock_def w wake_one_def sched_unlock_def split: list.split)
  have "sched_inv {} (wake_one q r ?s)" "mutex_inv (wake_one q r ?s)"
    using i wait_queue_sleeping [OF i(1) assms(3)] mutex_inv_frame [OF i(2) mutex_frame_resumed [OF i(1)]]
    by (auto simp: wake_one_def intro: resumed_inv split: list.split)
  then show "k_inv ((wake_one q r ?s)\<lparr>slock := None\<rparr>)" by (intro k_inv_free) simp_all
  show "cur (wake_one q r ?s) = cur s" by (simp add: wake_one_def split: list.split)
qed

lemma wake_all_eq:
  assumes "k_inv s" and "slock s = None" and "is_wait_queue q"
  shows "do { s \<leftarrow> sched_lock c s; s \<leftarrow> k_sched_wakeup_all_locked c q r s; sched_unlock c s } =
      Some ((woken_all q r (s\<lparr>slock := Some c\<rparr>))\<lparr>slock := None\<rparr>)"
    and "k_inv ((woken_all q r (s\<lparr>slock := Some c\<rparr>))\<lparr>slock := None\<rparr>)"
    and "cur (woken_all q r (s\<lparr>slock := Some c\<rparr>)) = cur s"
proof -
  let ?s = "s\<lparr>slock := Some c\<rparr>"
  have i: "sched_inv {} ?s" "mutex_inv ?s" using k_inv_locked [OF assms(1)] by auto
  note w = k_sched_wakeup_all_eq [OF i(1) _ assms(3), of c r]
  show "do { s \<leftarrow> sched_lock c s; s \<leftarrow> k_sched_wakeup_all_locked c q r s; sched_unlock c s } =
      Some ((woken_all q r ?s)\<lparr>slock := None\<rparr>)"
    using assms(2) w(1) by (simp add: sched_lock_def sched_unlock_def woken_all_fields)
  have "mutex_inv (woken_all q r ?s)"
    using mutex_inv_frame [OF i(2) mutex_frame_woken [OF i(1) assms(3) refl]] by (simp add: woken_all_def)
  then show "k_inv ((woken_all q r ?s)\<lparr>slock := None\<rparr>)" using w(2) by (intro k_inv_free) simp_all
  show "cur (woken_all q r ?s) = cur s" by (simp add: woken_all_fields)
qed

subsection \<open>Preservation of the invariant\<close>

lemma k_condvar_notify_one_inv:
  assumes "k_inv s" and "slock s = None" and "conds s i"
  shows "\<exists>s'. k_condvar_notify_one c i s = Some s' \<and> k_inv s' \<and> slock s' = None \<and> cur s' = cur s"
  using wake_one_eq [OF assms(1,2), where q = "CondQ i" and c = c and r = 0] assms(3) by (simp add: k_condvar_notify_one_def)

lemma k_condvar_notify_all_inv:
  assumes "k_inv s" and "slock s = None" and "conds s i"
  shows "\<exists>s'. k_condvar_notify_all c i s = Some s' \<and> k_inv s' \<and> slock s' = None \<and> cur s' = cur s"
  using wake_all_eq [OF assms(1,2), where q = "CondQ i" and c = c and r = 0] assms(3) by (simp add: k_condvar_notify_all_def)

text \<open>A task that holds no place in a queue goes to sleep on a queue that is not a mutex's.\<close>

lemma sleep_begin_inv:
  assumes inv: "sched_inv {} s" "mutex_inv s" and lock: "slock s = Some c" "lock_count s c \<le> 0"
    and cur: "cur s c = Some t" and timeout: "0 \<le> timeout" "kont_timeout k = timeout"
    and q: "is_wait_queue q" "\<And>m. q \<noteq> MutexQ m" and st: "sleeping st"
  shows "k_sched_sleep_begin c (Some q) st timeout k s = Some (slept c t q st timeout k s)"
    and "k_inv (slept c t q st timeout k s)"
proof -
  have nw: "t \<notin> fst ` set (timeouts s)" "sleep_on_mutex (tasks s t) = None"
    using running_not_waiting [OF inv(1) cur] by auto
  show "k_sched_sleep_begin c (Some q) st timeout k s = Some (slept c t q st timeout k s)"
    by (rule k_sched_sleep_begin_eq [OF inv(1) lock cur nw(1) timeout(1)])
  have "sched_inv {} (slept c t q st timeout k s)"
    by (rule slept_inv [OF sched_inv_mono [OF inv(1)] cur nw(1) timeout st]) (use q nw(2) in simp_all)
  moreover have "mutex_inv (slept c t q st timeout k s)"
    by (rule mutex_inv_frame [OF inv(2) mutex_frame_slept [OF inv(1) cur q(2)]])
  ultimately show "k_inv (slept c t q st timeout k s)"
    by (rule k_inv_switched [where c = c]) (simp_all add: lock)
qed

lemma k_mutex_unlock_locked_inv:
  assumes inv: "sched_inv {} s" "mutex_inv s" and lock: "slock s = Some c" and cur: "cur s c = Some t"
  shows "\<exists>s'. k_mutex_unlock_locked c m s = Some s' \<and> sched_inv {} s' \<and> mutex_inv s' \<and> slock s' = Some c \<and>
    cur s' = cur s \<and> lock_count s' = lock_count s \<and> owner (mutexes s' m) = None"
proof -
  let ?h = "handed_over m s"
  note h = handed_over_inv [OF inv, of m]
  have "cur ?h c = Some t" using cur by simp
  from effective_inv [OF h this] k_mutex_unlock_locked_eq [OF inv lock cur, of m] lock
  show ?thesis by simp
qed

lemma k_mutex_holding_eq:
  "slock s = None \<Longrightarrow> mutex_valid (mutexes s m) \<Longrightarrow> k_mutex_holding c m s =
     Some (owner (mutexes s m) \<noteq> None \<and> owner (mutexes s m) = cur s c)"
  by (simp add: k_mutex_holding_def sched_lock_def sched_unlock_def Let_def)

lemma k_condvar_timed_wait_inv:
  assumes inv: "k_inv s" and lock: "slock s = None" "lock_count s c \<le> 0" and valid: "conds s i"
    "mutex_valid (mutexes s m)" and cur: "cur s c = Some t" and own: "owner (mutexes s m) = Some t"
    and timeout: "0 \<le> timeout"
  shows "\<exists>s'. k_condvar_timed_wait c i m timeout u s = Some s' \<and> k_inv s' \<and> slock s' = Some c \<and>
    cur s' c = None \<and> owner (mutexes s' m) = None \<and> t \<in> set (queues s' (CondQ i))"
proof -
  let ?s = "s\<lparr>slock := Some c\<rparr>"
  have i: "sched_inv {} ?s" "mutex_inv ?s" using k_inv_locked [OF inv] by auto
  from k_mutex_unlock_locked_inv [OF i, of c t m] cur obtain s1 where
    s1: "k_mutex_unlock_locked c m ?s = Some s1" "sched_inv {} s1" "mutex_inv s1" "slock s1 = Some c"
      "cur s1 = cur s" "lock_count s1 = lock_count s" "owner (mutexes s1 m) = None" by auto
  let ?s2 = "slept c t (CondQ i) (sleep_state u) timeout (K_CondWait m timeout) s1"
  have sl: "k_sched_sleep_begin c (Some (CondQ i)) (sleep_state u) timeout (K_CondWait m timeout) s1 = Some ?s2"
    "k_inv ?s2"
    using sleep_begin_inv [OF s1(2,3,4), of t timeout "K_CondWait m timeout" "CondQ i"] s1 cur lock timeout
    by simp_all
  have "k_condvar_timed_wait c i m timeout u s = Some ?s2"
    using valid lock own cur s1 sl(1) by (simp add: k_condvar_timed_wait_def k_mutex_holding_eq sched_lock_def)
  moreover have "t \<in> set (queues ?s2 (CondQ i))"
    using s1 cur slept_queues [OF s1(2), of c t] by (simp add: set_sched_insert)
  ultimately show ?thesis using sl(2) s1 by simp
qed

end
