(* ===== verification/K_Semaphore.thy ===== *)
theory K_Semaphore
  imports K_Condvar
begin

section \<open>Semaphores and wait queues\<close>

text \<open>
  Models \<open>kernel/core/semaphore.c\<close> and \<open>kernel/core/waitqueue.c\<close>.  A section under the semaphore's own
  spinlock is one step.  \<open>k_semaphore_timed_get\<close> releases both locks when its sleep ends and
  takes the semaphore lock again before it retries; other CPUs run in between, so the retry
  is a definition of its own.  A task between the two has the context \<open>K_SemGet\<close> while it runs.
\<close>

subsection \<open>Operations\<close>

abbreviation upd_sem :: "nat \<Rightarrow> (ksem \<Rightarrow> ksem) \<Rightarrow> sched \<Rightarrow> sched" where
  "upd_sem i f s \<equiv> s\<lparr>sems := (sems s)(i := f (sems s i))\<rparr>"

definition k_semaphore_create :: "nat \<Rightarrow> int \<Rightarrow> sched \<Rightarrow> sched" where
  "k_semaphore_create i initial_count s =
     (upd_sem i (\<lambda>x. \<lparr>sem_valid = True, count = initial_count mod 2 ^ 32\<rparr>) s)
       \<lparr>queues := (queues s)(SemQ i := [])\<rparr>"

definition k_semaphore_destroy :: "cpu_id \<Rightarrow> nat \<Rightarrow> sched \<Rightarrow> sched option" where
  "k_semaphore_destroy c i s = do {
     k_assert (sem_valid (sems s i));
     s \<leftarrow> sched_lock c s;
     s \<leftarrow> k_sched_wakeup_all_locked c (SemQ i) (- EINVAL) s;
     s \<leftarrow> sched_unlock c s;
     Some (upd_sem i (\<lambda>x. x\<lparr>sem_valid := False\<rparr>) s)
   }"

definition k_semaphore_try_get_locked :: "nat \<Rightarrow> sched \<Rightarrow> (int \<times> sched) option" where
  "k_semaphore_try_get_locked i s = do {
     k_assert (count (sems s i) \<ge> 0);
     if count (sems s i) = 0 then Some (- EAGAIN, s)
     else Some (to_s32 (count (sems s i) - 1), upd_sem i (\<lambda>x. x\<lparr>count := count x - 1\<rparr>) s)
   }"

definition k_semaphore_try_get :: "nat \<Rightarrow> sched \<Rightarrow> (int \<times> sched) option" where
  "k_semaphore_try_get i s = do {
     k_assert (sem_valid (sems s i));
     k_semaphore_try_get_locked i s
   }"

text \<open>One round of the loop of \<open>k_semaphore_timed_get\<close>.\<close>

definition k_semaphore_get_round ::
  "cpu_id \<Rightarrow> nat \<Rightarrow> int \<Rightarrow> bool \<Rightarrow> sched \<Rightarrow> (int option \<times> sched) option" where
  "k_semaphore_get_round c i timeout unwakeable s = do {
     (r, s) \<leftarrow> k_semaphore_try_get_locked i s;
     if r \<ge> 0 \<or> r \<noteq> - EAGAIN then Some (Some r, s)
     else do {
       s \<leftarrow> sched_lock c s;
       s \<leftarrow> k_sched_sleep_begin c (Some (SemQ i)) (sleep_state unwakeable) timeout
         (K_SemGet i timeout unwakeable) s;
       Some (None, s)
     }
   }"

definition k_semaphore_timed_get ::
  "cpu_id \<Rightarrow> nat \<Rightarrow> int \<Rightarrow> bool \<Rightarrow> sched \<Rightarrow> (int option \<times> sched) option" where
  "k_semaphore_timed_get c i timeout unwakeable s = do {
     k_assert (sem_valid (sems s i));
     k_semaphore_get_round c i timeout unwakeable s
   }"

text \<open>The sleep ended.  A negative result ends the call, otherwise the task retries when it has
  the lock of the semaphore.\<close>

definition k_semaphore_get_resume :: "cpu_id \<Rightarrow> int \<Rightarrow> sched \<Rightarrow> (int option \<times> sched) option" where
  "k_semaphore_get_resume c timeout s = do {
     t \<leftarrow> cur s c;
     (r, s) \<leftarrow> k_sched_sleep_end c timeout s;
     s \<leftarrow> sched_unlock c s;
     if r < 0 then Some (Some r, upd_task t (\<lambda>x. x\<lparr>tcontext := K_Run\<rparr>) s)
     else Some (None, s)
   }"

definition k_semaphore_get_retry ::
  "cpu_id \<Rightarrow> nat \<Rightarrow> int \<Rightarrow> bool \<Rightarrow> sched \<Rightarrow> (int option \<times> sched) option" where
  "k_semaphore_get_retry c i timeout unwakeable s = do {
     t \<leftarrow> cur s c;
     (r, s) \<leftarrow> k_semaphore_get_round c i timeout unwakeable s;
     if r = None then Some (r, s)
     else Some (r, upd_task t (\<lambda>x. x\<lparr>tcontext := K_Run\<rparr>) s)
   }"

definition k_semaphore_put :: "cpu_id \<Rightarrow> nat \<Rightarrow> sched \<Rightarrow> sched option" where
  "k_semaphore_put c i s = do {
     k_assert (sem_valid (sems s i));
     k_assert (count (sems s i) \<ge> 0);
     let s = upd_sem i (\<lambda>x. x\<lparr>count := (count x + 1) mod 2 ^ 32\<rparr>) s;
     s \<leftarrow> sched_lock c s;
     (_, s) \<leftarrow> k_sched_wakeup_one_locked c (SemQ i) 0 s;
     sched_unlock c s
   }"

text \<open>\<open>waitqueue.c\<close>.  The sleeper's own lock is released and taken again outside this model.\<close>

definition k_waitqueue_init :: "nat \<Rightarrow> sched \<Rightarrow> sched" where
  "k_waitqueue_init i s = s\<lparr>queues := (queues s)(WaitQ i := [])\<rparr>"

definition k_waitqueue_timed_sleep :: "cpu_id \<Rightarrow> nat \<Rightarrow> int \<Rightarrow> sched \<Rightarrow> sched option" where
  "k_waitqueue_timed_sleep c i timeout s = do {
     s \<leftarrow> sched_lock c s;
     k_sched_sleep_begin c (Some (WaitQ i)) SLEEP timeout (K_Sleep timeout) s
   }"

definition k_waitqueue_sleep :: "cpu_id \<Rightarrow> nat \<Rightarrow> sched \<Rightarrow> sched option" where
  "k_waitqueue_sleep c i s = k_waitqueue_timed_sleep c i 0 s"

definition k_waitqueue_wakeup_one :: "cpu_id \<Rightarrow> nat \<Rightarrow> sched \<Rightarrow> sched option" where
  "k_waitqueue_wakeup_one c i s = do {
     s \<leftarrow> sched_lock c s;
     (_, s) \<leftarrow> k_sched_wakeup_one_locked c (WaitQ i) 0 s;
     sched_unlock c s
   }"

definition k_waitqueue_wakeup_all :: "cpu_id \<Rightarrow> nat \<Rightarrow> sched \<Rightarrow> sched option" where
  "k_waitqueue_wakeup_all c i s = do {
     s \<leftarrow> sched_lock c s;
     s \<leftarrow> k_sched_wakeup_all_locked c (WaitQ i) 0 s;
     sched_unlock c s
   }"

subsection \<open>Preservation of the invariant\<close>

lemma k_inv_sems [simp]: "k_inv (s\<lparr>sems := x\<rparr>) \<longleftrightarrow> k_inv s"
  by (simp add: k_inv_def lock_ok_def)

lemma sched_inv_tcontext_run:
  assumes "sched_inv {} s" and "cur s c = Some t"
  shows "sched_inv {} (upd_task t (\<lambda>x. x\<lparr>tcontext := k\<rparr>) s)"
proof -
  have "sched_inv {t} (upd_task t (\<lambda>x. x\<lparr>tcontext := k\<rparr>) s)"
    by (rule sched_inv_upd_task [OF sched_inv_mono [OF assms(1)]]) (simp_all add: sched_inv_task [OF assms(1)])
  then show ?thesis by (rule sched_inv_shrink) (use running_not_waiting [OF assms] in simp_all)
qed

lemma mutex_inv_tcontext [simp]: "mutex_inv (upd_task t (\<lambda>x. x\<lparr>tcontext := k\<rparr>) s) \<longleftrightarrow> mutex_inv s"
  by (rule mutex_inv_same) simp_all

lemma k_inv_tcontext_run:
  assumes "k_inv s" and "cur s c = Some t"
  shows "k_inv (upd_task t (\<lambda>x. x\<lparr>tcontext := k\<rparr>) s)"
  using sched_inv_tcontext_run [OF k_inv_sched [OF assms(1)] assms(2), of k] k_inv_mutex [OF assms(1)] assms(1)
  by (simp add: k_inv_def lock_ok_def)

abbreviation sem_slept :: "cpu_id \<Rightarrow> tid \<Rightarrow> nat \<Rightarrow> int \<Rightarrow> bool \<Rightarrow> sched \<Rightarrow> sched" where
  "sem_slept c t i timeout u s \<equiv>
     slept c t (SemQ i) (sleep_state u) timeout (K_SemGet i timeout u) (s\<lparr>slock := Some c\<rparr>)"

lemma k_semaphore_get_round_inv:
  assumes inv: "k_inv s" and lock: "slock s = None" "lock_count s c \<le> 0" and cur: "cur s c = Some t"
    and timeout: "0 \<le> timeout" and count: "0 \<le> count (sems s i)" "count (sems s i) < 2 ^ 31"
  shows "k_semaphore_get_round c i timeout u s = Some
      (if count (sems s i) = 0 then (None, sem_slept c t i timeout u s)
       else (Some (count (sems s i) - 1), upd_sem i (\<lambda>x. x\<lparr>count := count x - 1\<rparr>) s))"
    and "k_inv (sem_slept c t i timeout u s)"
proof -
  let ?s = "s\<lparr>slock := Some c\<rparr>"
  have i: "sched_inv {} ?s" "mutex_inv ?s" using k_inv_locked [OF inv] by auto
  have sl: "k_sched_sleep_begin c (Some (SemQ i)) (sleep_state u) timeout (K_SemGet i timeout u) ?s = Some (sem_slept c t i timeout u s)"
    "k_inv (sem_slept c t i timeout u s)"
    using sleep_begin_inv [OF i, of c t timeout "K_SemGet i timeout u" "SemQ i"] cur lock timeout
    by simp_all
  then show "k_inv (sem_slept c t i timeout u s)" by blast
  show "k_semaphore_get_round c i timeout u s = Some
      (if count (sems s i) = 0 then (None, sem_slept c t i timeout u s)
       else (Some (count (sems s i) - 1), upd_sem i (\<lambda>x. x\<lparr>count := count x - 1\<rparr>) s))"
    using count lock(1) sl(1)
    by (auto simp: k_semaphore_get_round_def k_semaphore_try_get_locked_def sched_lock_def errno_defs)
qed

lemma k_semaphore_put_eq:
  assumes "k_inv s" and "slock s = None" and "sem_valid (sems s i)" and "0 \<le> count (sems s i)"
    and "count (sems s i) + 1 < 2 ^ 31"
  defines "s1 \<equiv> upd_sem i (\<lambda>x. x\<lparr>count := count x + 1\<rparr>) s"
  shows "k_semaphore_put c i s = Some ((wake_one (SemQ i) 0 (s1\<lparr>slock := Some c\<rparr>))\<lparr>slock := None\<rparr>)"
    and "k_inv ((wake_one (SemQ i) 0 (s1\<lparr>slock := Some c\<rparr>))\<lparr>slock := None\<rparr>)"
proof -
  have "k_inv s1" "slock s1 = None" using assms by (simp_all add: s1_def)
  note w = wake_one_eq [OF this, where q = "SemQ i" and c = c and r = 0]
  show "k_semaphore_put c i s = Some ((wake_one (SemQ i) 0 (s1\<lparr>slock := Some c\<rparr>))\<lparr>slock := None\<rparr>)"
    using assms(3-5) w(1) by (simp add: k_semaphore_put_def s1_def Let_def)
  show "k_inv ((wake_one (SemQ i) 0 (s1\<lparr>slock := Some c\<rparr>))\<lparr>slock := None\<rparr>)" using w(2) by simp
qed

lemma k_waitqueue_timed_sleep_inv:
  assumes inv: "k_inv s" and lock: "slock s = None" "lock_count s c \<le> 0" and cur: "cur s c = Some t"
    and timeout: "0 \<le> timeout"
  shows "k_waitqueue_timed_sleep c i timeout s =
      Some (slept c t (WaitQ i) SLEEP timeout (K_Sleep timeout) (s\<lparr>slock := Some c\<rparr>))"
    and "k_inv (slept c t (WaitQ i) SLEEP timeout (K_Sleep timeout) (s\<lparr>slock := Some c\<rparr>))"
proof -
  let ?s = "s\<lparr>slock := Some c\<rparr>"
  have i: "sched_inv {} ?s" "mutex_inv ?s" using k_inv_locked [OF inv] by auto
  have sl: "sleeping SLEEP" by (simp add: sleeping_def)
  note b = sleep_begin_inv [OF i, of c t timeout "K_Sleep timeout" "WaitQ i", OF _ _ _ _ _ _ _ sl]
  show "k_waitqueue_timed_sleep c i timeout s =
      Some (slept c t (WaitQ i) SLEEP timeout (K_Sleep timeout) ?s)"
    using b(1) cur lock timeout by (simp add: k_waitqueue_timed_sleep_def sched_lock_def)
  show "k_inv (slept c t (WaitQ i) SLEEP timeout (K_Sleep timeout) ?s)"
    using b(2) cur lock timeout by simp
qed

end
