(* ===== verification/K_Kernel.thy ===== *)
theory K_Kernel
  imports K_Semaphore
begin

section \<open>The kernel core as a transition system\<close>

text \<open>
  The calls of \<open>kernel/core\<close> on several CPUs, one critical section per step.  Between two steps the
  scheduler lock is free or belongs to a CPU that is inside the loop of \<open>k_sched_start\<close>; such a
  CPU picks the next task, whose saved context says how its call goes on.  \<open>reachable\<close> is the set of
  states that the system can get into.  All components keep one invariant in them.
\<close>

subsection \<open>Continuing a task\<close>

definition finish :: "tid \<Rightarrow> int option \<times> sched \<Rightarrow> (int option \<times> sched) option" where
  "finish t rs =
     (case fst rs of
        None \<Rightarrow> Some rs
      | Some r \<Rightarrow> Some (Some r, upd_task t (\<lambda>x. x\<lparr>tcontext := K_Run\<rparr>) (snd rs)))"

text \<open>What task \<open>t\<close> does when \<open>k_arch_switch\<close> returns to its saved context.  \<open>K_Run\<close> is the entry
  \<open>k_task_run\<close>.\<close>

definition k_continue :: "cpu_id \<Rightarrow> tid \<Rightarrow> sched \<Rightarrow> (int option \<times> sched) option" where
  "k_continue c t s =
     (case tcontext (tasks s t) of
        K_Run \<Rightarrow> do { s \<leftarrow> sched_unlock c s; Some (Some 0, s) }
      | K_Yield k \<Rightarrow> do {
          s \<leftarrow> sched_unlock c s;
          Some (Some 0, upd_task t (\<lambda>x. x\<lparr>tcontext := k\<rparr>) s)
        }
      | K_Exit \<Rightarrow> None
      | K_Sleep n \<Rightarrow> do {
          (r, s) \<leftarrow> k_sched_sleep_end c n s;
          s \<leftarrow> sched_unlock c s;
          finish t (Some r, s)
        }
      | K_MutexLock m n \<Rightarrow> do {
          rs \<leftarrow> k_mutex_lock_resume c m n (K_MutexLock m n) s;
          rs \<leftarrow> unlock_on_return c rs;
          finish t rs
        }
      | K_CondWait m n \<Rightarrow> do { rs \<leftarrow> k_condvar_wait_resume c m n s; finish t rs }
      | K_CondLock m r \<Rightarrow> do { rs \<leftarrow> k_condvar_lock_resume c m r s; finish t rs }
      | K_SemGet i n u \<Rightarrow> k_semaphore_get_resume c n s)"

subsection \<open>Steps\<close>

datatype event =
    E_Loop cpu_id | E_Idle_End cpu_id
  | E_Create tid nat | E_Resume cpu_id tid | E_Yield cpu_id | E_Wake cpu_id tid
  | E_Exit cpu_id | E_Suspend cpu_id
  | E_Irq_Begin cpu_id | E_Irq_End cpu_id | E_Quantum cpu_id | E_Ticks cpu_id int
  | E_Mutex_Try cpu_id mid | E_Mutex_Lock cpu_id mid int | E_Mutex_Unlock cpu_id mid
  | E_Cond_Wait cpu_id nat mid int bool | E_Cond_One cpu_id nat | E_Cond_All cpu_id nat
  | E_Sem_Create nat int | E_Sem_Try cpu_id nat | E_Sem_Get cpu_id nat int bool
  | E_Sem_Retry cpu_id | E_Sem_Put cpu_id nat
  | E_Wait cpu_id nat int | E_Wait_One cpu_id nat | E_Wait_All cpu_id nat

fun k_step :: "event \<Rightarrow> sched \<Rightarrow> sched option" where
  "k_step (E_Loop c) s = do {
     (n, s) \<leftarrow> k_sched_start_iter c s;
     case n of None \<Rightarrow> Some s | Some t \<Rightarrow> map_option snd (k_continue c t s)
   }"
| "k_step (E_Idle_End c) s = k_sched_idle_end c s"
| "k_step (E_Create t p) s = Some (k_task_create t p s)"
| "k_step (E_Resume c t) s = map_option snd (k_task_resume c t s)"
| "k_step (E_Yield c) s = k_task_yield c s"
| "k_step (E_Wake c t) s = k_task_wake c t s"
| "k_step (E_Exit c) s = k_task_exit c s"
| "k_step (E_Suspend c) s = k_task_suspend c s"
| "k_step (E_Irq_Begin c) s = Some (k_irq_handler_begin c s)"
| "k_step (E_Irq_End c) s = map_option snd (k_irq_handler_end c s)"
| "k_step (E_Quantum c) s = k_sched_check_quantum c s"
| "k_step (E_Ticks c d) s = k_sched_adjust_timeouts c d s"
| "k_step (E_Mutex_Try c m) s = map_option snd (k_mutex_try_lock c m s)"
| "k_step (E_Mutex_Lock c m n) s = map_option snd (k_mutex_timed_lock c m n s)"
| "k_step (E_Mutex_Unlock c m) s = map_option snd (k_mutex_unlock c m s)"
| "k_step (E_Cond_Wait c i m n u) s = k_condvar_timed_wait c i m n u s"
| "k_step (E_Cond_One c i) s = k_condvar_notify_one c i s"
| "k_step (E_Cond_All c i) s = k_condvar_notify_all c i s"
| "k_step (E_Sem_Create i n) s = Some (k_semaphore_create i n s)"
| "k_step (E_Sem_Try c i) s = map_option snd (k_semaphore_try_get i s)"
| "k_step (E_Sem_Get c i n u) s = map_option snd (k_semaphore_timed_get c i n u s)"
| "k_step (E_Sem_Retry c) s = do {
     t \<leftarrow> cur s c;
     case tcontext (tasks s t) of
       K_SemGet i n u \<Rightarrow> map_option snd (k_semaphore_get_retry c i n u s)
     | _ \<Rightarrow> None
   }"
| "k_step (E_Sem_Put c i) s = k_semaphore_put c i s"
| "k_step (E_Wait c i n) s = k_waitqueue_timed_sleep c i n s"
| "k_step (E_Wait_One c i) s = k_waitqueue_wakeup_one c i s"
| "k_step (E_Wait_All c i) s = k_waitqueue_wakeup_all c i s"

text \<open>When a step can begin.  A CPU that does not hold the scheduler lock begins a critical
  section when the lock is free.  The calls of a task are made by the task of the CPU while it
  is outside the kernel core; timeouts are not negative and the counts of semaphores stay in
  the range of \<open>int\<close>.\<close>

definition user :: "cpu_id \<Rightarrow> sched \<Rightarrow> bool" where
  "user c s \<longleftrightarrow> slock s = None \<and> lock_count s c \<le> 0 \<and>
     (case cur s c of None \<Rightarrow> False | Some t \<Rightarrow> tcontext (tasks s t) = K_Run)"

fun enabled :: "event \<Rightarrow> sched \<Rightarrow> bool" where
  "enabled (E_Loop c) s \<longleftrightarrow> slock s = Some c"
| "enabled (E_Idle_End c) s \<longleftrightarrow> slock s = None \<and> cur s c = None"
| "enabled (E_Create t p) s \<longleftrightarrow> slock s = None \<and> tstate (tasks s t) = NONE \<and> owned (tasks s t) = [] \<and>
     p < K_TASK_MAX_PRIORITIES"
| "enabled (E_Irq_Begin c) s \<longleftrightarrow> slock s = None"
| "enabled (E_Irq_End c) s \<longleftrightarrow> slock s = None \<and> lock_count s c > 0"
| "enabled (E_Ticks c d) s \<longleftrightarrow> slock s = None \<and> 0 \<le> d"
| "enabled (E_Yield c) s \<longleftrightarrow> user c s"
| "enabled (E_Exit c) s \<longleftrightarrow> user c s"
| "enabled (E_Suspend c) s \<longleftrightarrow> user c s"
| "enabled (E_Mutex_Try c m) s \<longleftrightarrow> user c s"
| "enabled (E_Mutex_Lock c m n) s \<longleftrightarrow> user c s \<and> 0 \<le> n"
| "enabled (E_Mutex_Unlock c m) s \<longleftrightarrow> user c s"
| "enabled (E_Cond_Wait c i m n u) s \<longleftrightarrow> user c s \<and> 0 \<le> n"
| "enabled (E_Sem_Create i n) s \<longleftrightarrow> slock s = None \<and> 0 \<le> n \<and> n < 2 ^ 31 \<and> queues s (SemQ i) = []"
| "enabled (E_Sem_Put c i) s \<longleftrightarrow> slock s = None \<and> count (sems s i) + 1 < 2 ^ 31"
| "enabled (E_Sem_Try c i) s \<longleftrightarrow> slock s = None"
| "enabled (E_Sem_Get c i n u) s \<longleftrightarrow> user c s \<and> 0 \<le> n"
| "enabled (E_Sem_Retry c) s \<longleftrightarrow> slock s = None \<and> lock_count s c \<le> 0 \<and> cur s c \<noteq> None"
| "enabled (E_Wait c i n) s \<longleftrightarrow> user c s \<and> 0 \<le> n"
| "enabled _ s \<longleftrightarrow> slock s = None"

inductive reachable :: "sched \<Rightarrow> bool" where
  init: "reachable initial_sched"
| step: "reachable s \<Longrightarrow> enabled e s \<Longrightarrow> k_step e s = Some s' \<Longrightarrow> reachable s'"

subsection \<open>The contexts of the tasks\<close>

fun is_idle :: "kont \<Rightarrow> bool" where
  "is_idle K_Run \<longleftrightarrow> True"
| "is_idle (K_SemGet i n u) \<longleftrightarrow> 0 \<le> n"
| "is_idle _ \<longleftrightarrow> False"

fun kont_wf :: "kont \<Rightarrow> bool" where
  "kont_wf (K_Yield k) \<longleftrightarrow> is_idle k"
| "kont_wf (K_Sleep n) \<longleftrightarrow> 0 \<le> n"
| "kont_wf (K_MutexLock m n) \<longleftrightarrow> 0 \<le> n"
| "kont_wf (K_CondWait m n) \<longleftrightarrow> 0 \<le> n"
| "kont_wf (K_SemGet i n u) \<longleftrightarrow> 0 \<le> n"
| "kont_wf _ \<longleftrightarrow> True"

fun locks_mutex :: "kont \<Rightarrow> bool" where
  "locks_mutex (K_MutexLock m n) \<longleftrightarrow> True"
| "locks_mutex (K_CondLock m r) \<longleftrightarrow> True"
| "locks_mutex _ \<longleftrightarrow> False"

definition kont_ok :: "ktask \<Rightarrow> bool" where
  "kont_ok x \<longleftrightarrow> kont_wf (tcontext x) \<and> (tstate x = RUNNING \<longrightarrow> is_idle (tcontext x)) \<and>
     (tcontext x = K_Exit \<longrightarrow> tstate x = DESTROYED) \<and> (tstate x = NONE \<longrightarrow> tcontext x = K_Run) \<and>
     (sleep_on_mutex x \<noteq> None \<longrightarrow> locks_mutex (tcontext x))"

text \<open>The tasks in the queue of a semaphore are in a call of \<open>k_semaphore_timed_get\<close> for it.\<close>

fun gets_sem :: "nat \<Rightarrow> kont \<Rightarrow> bool" where
  "gets_sem i (K_SemGet j n u) \<longleftrightarrow> i = j"
| "gets_sem i _ \<longleftrightarrow> False"

text \<open>A task that was woken by \<open>k_semaphore_put\<close> and has not looked at the count yet.\<close>

definition woken :: "nat \<Rightarrow> ktask \<Rightarrow> bool" where
  "woken i x \<longleftrightarrow>
     (gets_sem i (tcontext x) \<and> (tstate x = RUNNING \<or> tstate x = READY \<and> 0 \<le> sleep_result x)) \<or>
     (\<exists>k. tcontext x = K_Yield k \<and> gets_sem i k)"

definition sem_ok :: "sched \<Rightarrow> bool" where
  "sem_ok s \<longleftrightarrow> finite {t. tcontext (tasks s t) \<noteq> K_Run} \<and> (\<forall>i. 0 \<le> count (sems s i) \<and> count (sems s i) < 2 ^ 31) \<and>
     (\<forall>i t. t \<in> set (queues s (SemQ i)) \<longrightarrow> gets_sem i (tcontext (tasks s t))) \<and>
     (\<forall>i. queues s (SemQ i) \<noteq> [] \<longrightarrow> count (sems s i) \<le> int (card {t. woken i (tasks s t)}))"

definition kernel_inv :: "sched \<Rightarrow> bool" where
  "kernel_inv s \<longleftrightarrow> k_inv s \<and> (\<forall>t. kont_ok (tasks s t)) \<and> sem_ok s"

lemma initial_kernel_inv: "kernel_inv initial_sched"
  using initial_k_inv
  by (simp add: kernel_inv_def kont_ok_def sem_ok_def initial_sched_def idle_task_def)

subsection \<open>Frames\<close>

text \<open>Outside \<open>X\<close> tasks keep their contexts, and their states but for sleepers that become ready; the
  queues of semaphores only lose tasks.\<close>

definition same_kont :: "ktask \<Rightarrow> ktask \<Rightarrow> bool" where
  "same_kont x x' \<longleftrightarrow> tcontext x' = tcontext x \<and> sleep_on_mutex x' = sleep_on_mutex x \<and>
     (tstate x' = tstate x \<and> sleep_result x' = sleep_result x \<or>
      sleeping (tstate x) \<and> tstate x' = READY)"

definition kont_frame :: "tid set \<Rightarrow> sched \<Rightarrow> sched \<Rightarrow> bool" where
  "kont_frame X s s' \<longleftrightarrow> (\<forall>t. t \<in> X \<or> same_kont (tasks s t) (tasks s' t)) \<and>
     (\<forall>i. set (queues s' (SemQ i)) - X \<subseteq> set (queues s (SemQ i)))"

lemma same_kont_refl [simp]: "same_kont x x"
  by (simp add: same_kont_def)

lemma same_kont_trans: "same_kont x y \<Longrightarrow> same_kont y z \<Longrightarrow> same_kont x z"
  by (auto simp: same_kont_def sleeping_def)

lemma kont_frame_refl [simp]: "kont_frame X s s"
  by (auto simp: kont_frame_def)

lemma kont_frame_trans:
  assumes "kont_frame X s s'" and "kont_frame X s' s''"
  shows "kont_frame X s s''"
  unfolding kont_frame_def
proof (intro conjI allI)
  show "t \<in> X \<or> same_kont (tasks s t) (tasks s'' t)" for t
    using assms same_kont_trans unfolding kont_frame_def by blast
  show "set (queues s'' (SemQ i)) - X \<subseteq> set (queues s (SemQ i))" for i
    using assms unfolding kont_frame_def by blast
qed

lemma kont_ok_same: "kont_ok x \<Longrightarrow> same_kont x x' \<Longrightarrow> kont_ok x'"
  by (auto simp: kont_ok_def same_kont_def sleeping_def)

lemma woken_same: "woken i x \<Longrightarrow> same_kont x x' \<Longrightarrow> woken i x'"
  by (auto simp: woken_def same_kont_def sleeping_def)

lemma woken_context: "woken i x \<Longrightarrow> tcontext x \<noteq> K_Run"
  by (auto simp: woken_def)

lemma finite_woken: "finite {t. tcontext (tasks s t) \<noteq> K_Run} \<Longrightarrow> finite {t. woken i (tasks s t)}"
  by (rule finite_subset) (auto dest: woken_context)

lemma kont_frame_finite:
  assumes "kont_frame X s s'" and "finite X" and "finite {t. tcontext (tasks s t) \<noteq> K_Run}"
  shows "finite {t. tcontext (tasks s' t) \<noteq> K_Run}"
proof (rule finite_subset)
  show "{t. tcontext (tasks s' t) \<noteq> K_Run} \<subseteq> X \<union> {t. tcontext (tasks s t) \<noteq> K_Run}"
    using assms(1) by (auto simp: kont_frame_def same_kont_def)
qed (use assms in simp)

lemma woken_card:
  assumes frame: "kont_frame {t} s s'" and fin: "finite {t. tcontext (tasks s t) \<noteq> K_Run}"
  shows "card {u. woken i (tasks s u)} \<le> card {u. woken i (tasks s' u)} + 1"
    and "woken i (tasks s t) \<longrightarrow> woken i (tasks s' t) \<Longrightarrow>
      card {u. woken i (tasks s u)} \<le> card {u. woken i (tasks s' u)}"
proof -
  let ?W = "{u. woken i (tasks s u)}" and ?W' = "{u. woken i (tasks s' u)}"
  have f: "finite ?W" "finite ?W'"
    using finite_woken [OF fin] finite_woken [OF kont_frame_finite [OF frame _ fin]] by simp_all
  have sub: "?W - {t} \<subseteq> ?W'"
    using frame woken_same by (auto simp: kont_frame_def)
  have "card ?W \<le> card (?W - {t}) + 1" by (simp add: card_Diff_singleton_if) linarith
  also have "card (?W - {t}) \<le> card ?W'" by (rule card_mono [OF f(2) sub])
  finally show "card ?W \<le> card ?W' + 1" by simp
  show "card ?W \<le> card ?W'" if "woken i (tasks s t) \<longrightarrow> woken i (tasks s' t)"
    by (rule card_mono [OF f(2)]) (use sub that in auto)
qed

text \<open>The general rule: one task \<open>t\<close> changes its context.\<close>

lemma kernel_inv_change:
  assumes inv: "kernel_inv s" and k: "k_inv s'" and frame: "kont_frame {t} s s'"
    and ok: "kont_ok (tasks s' t)"
    and q: "\<And>i. t \<in> set (queues s' (SemQ i)) \<Longrightarrow> gets_sem i (tcontext (tasks s' t))"
    and pos: "\<And>i. 0 \<le> count (sems s' i) \<and> count (sems s' i) < 2 ^ 31"
    and cnt: "\<And>i. queues s' (SemQ i) \<noteq> [] \<Longrightarrow> count (sems s' i) \<le> int (card {t. woken i (tasks s' t)})"
  shows "kernel_inv s'"
proof -
  have fin: "finite {t. tcontext (tasks s t) \<noteq> K_Run}" using inv by (simp add: kernel_inv_def sem_ok_def)
  have "kont_ok (tasks s' u)" for u
  proof (cases "u = t")
    case False
    with inv frame have "kont_ok (tasks s u)" "same_kont (tasks s u) (tasks s' u)"
      by (auto simp: kernel_inv_def kont_frame_def)
    then show ?thesis by (rule kont_ok_same)
  qed (use ok in simp)
  moreover have "gets_sem i (tcontext (tasks s' u))" if "u \<in> set (queues s' (SemQ i))" for i u
  proof (cases "u = t")
    case False
    with that frame have "u \<in> set (queues s (SemQ i))" "tcontext (tasks s' u) = tcontext (tasks s u)"
      by (auto simp: kont_frame_def same_kont_def)
    then show ?thesis using inv by (simp add: kernel_inv_def sem_ok_def)
  qed (use q that in auto)
  moreover have "finite {t. tcontext (tasks s' t) \<noteq> K_Run}"
    by (rule kont_frame_finite [OF frame _ fin]) simp
  ultimately show ?thesis using k pos cnt by (simp add: kernel_inv_def sem_ok_def)
qed

lemma kont_frame_weaken: "kont_frame {} s s' \<Longrightarrow> kont_frame X s s'"
  by (auto simp: kont_frame_def)

text \<open>The rule for a task whose waking does not change, with the semaphores kept.\<close>

lemma kernel_inv_keep:
  assumes inv: "kernel_inv s" and k: "k_inv s'" and frame: "kont_frame {t} s s'" and sems: "sems s' = sems s"
    and ok: "kont_ok (tasks s' t)"
    and w: "\<And>i. woken i (tasks s t) \<Longrightarrow> woken i (tasks s' t)"
    and q: "\<And>i. t \<in> set (queues s' (SemQ i)) \<Longrightarrow> gets_sem i (tcontext (tasks s' t)) \<and> t \<in> set (queues s (SemQ i))"
  shows "kernel_inv s'"
proof (rule kernel_inv_change [OF inv k frame ok])
  have fin: "finite {t. tcontext (tasks s t) \<noteq> K_Run}" using inv by (simp add: kernel_inv_def sem_ok_def)
  fix i
  show "0 \<le> count (sems s' i) \<and> count (sems s' i) < 2 ^ 31" using inv sems by (simp add: kernel_inv_def sem_ok_def)
  assume "queues s' (SemQ i) \<noteq> []"
  then obtain u where u: "u \<in> set (queues s' (SemQ i))" by (meson last_in_set)
  then have "u \<in> set (queues s (SemQ i))" using frame q [of i] by (auto simp: kont_frame_def)
  then have "queues s (SemQ i) \<noteq> []" by auto
  then have "count (sems s i) \<le> int (card {u. woken i (tasks s u)})"
    using inv by (simp add: kernel_inv_def sem_ok_def)
  also have "\<dots> \<le> int (card {u. woken i (tasks s' u)})"
    using woken_card(2) [OF frame fin, of i] w [of i] by auto
  finally show "count (sems s' i) \<le> int (card {t. woken i (tasks s' t)})" using sems by simp
qed (use q in blast)

lemma kernel_inv_frame:
  assumes inv: "kernel_inv s" and k: "k_inv s'" and frame: "kont_frame {} s s'" and sems: "sems s' = sems s"
  shows "kernel_inv s'"
proof (rule kernel_inv_keep [OF inv k kont_frame_weaken [OF frame] sems, of undefined])
  have same: "same_kont (tasks s t) (tasks s' t)" for t using frame by (simp add: kont_frame_def)
  show "kont_ok (tasks s' undefined)" using inv same kont_ok_same by (auto simp: kernel_inv_def)
  show "woken i (tasks s' undefined)" if "woken i (tasks s undefined)" for i
    using woken_same [OF that same] .
  show "gets_sem i (tcontext (tasks s' undefined)) \<and> undefined \<in> set (queues s (SemQ i))"
    if "undefined \<in> set (queues s' (SemQ i))" for i
  proof -
    have "undefined \<in> set (queues s (SemQ i))" using that frame by (auto simp: kont_frame_def)
    with inv same [of undefined] show ?thesis by (auto simp: kernel_inv_def sem_ok_def same_kont_def)
  qed
qed

text \<open>What the operations do to the contexts.\<close>

lemma kont_frame_fields [simp]:
  "kont_frame X s (s'\<lparr>slock := l\<rparr>) \<longleftrightarrow> kont_frame X s s'"
  "kont_frame X s (s'\<lparr>lock_count := lc\<rparr>) \<longleftrightarrow> kont_frame X s s'"
  "kont_frame X s (s'\<lparr>timeouts := tos\<rparr>) \<longleftrightarrow> kont_frame X s s'"
  "kont_frame X s (s'\<lparr>mutexes := ms\<rparr>) \<longleftrightarrow> kont_frame X s s'"
  "kont_frame X s (s'\<lparr>sems := sm\<rparr>) \<longleftrightarrow> kont_frame X s s'"
  "kont_frame X s (s'\<lparr>conds := cs\<rparr>) \<longleftrightarrow> kont_frame X s s'"
  "kont_frame X (s\<lparr>slock := l\<rparr>) s' \<longleftrightarrow> kont_frame X s s'"
  "kont_frame X (s\<lparr>lock_count := lc\<rparr>) s' \<longleftrightarrow> kont_frame X s s'"
  "kont_frame X (s\<lparr>sems := sm\<rparr>) s' \<longleftrightarrow> kont_frame X s s'"
  by (simp_all add: kont_frame_def)

lemma kont_frame_resumed:
  "sched_inv A s \<Longrightarrow> sleeping (tstate (tasks s t)) \<Longrightarrow> kont_frame {} s (resumed t r s)"
  by (auto simp: kont_frame_def same_kont_def resumed_queues)

lemma kont_frame_wake_one:
  assumes "sched_inv A s" and "is_wait_queue q"
  shows "kont_frame {} s (wake_one q r s)"
  using assms wait_queue_sleeping [OF assms] kont_frame_resumed [OF assms(1)]
  by (auto simp: wake_one_def split: list.split)

lemma kont_frame_woken:
  assumes "sched_inv A s" and "is_wait_queue q" and "queues s q = ts"
  shows "kont_frame {} s (fold (\<lambda>t. resumed t r) ts s)"
  using assms
proof (induction ts arbitrary: s)
  case (Cons t ts)
  have sl: "sleeping (tstate (tasks s t))"
    using wait_queue_sleeping [OF Cons.prems(1,2), of t] Cons.prems(3) by simp
  from Cons.IH [OF resumed_inv [OF Cons.prems(1) sl] Cons.prems(2) resumed_wait_queue [OF Cons.prems]]
  have "kont_frame {} (resumed t r s) (fold (\<lambda>t. resumed t r) ts (resumed t r s))" .
  from kont_frame_trans [OF kont_frame_resumed [OF Cons.prems(1) sl] this] show ?case by simp
qed simp

lemma kont_frame_ticked:
  assumes "sched_inv A s"
  shows "kont_frame {} s (ticked d s)"
proof -
  have "kont_frame {} s (fold expire ts s)" for ts
    using assms
  proof (induction ts arbitrary: s)
    case (Cons t ts)
    have "kont_frame {} s (expire t s)"
      using kont_frame_resumed [OF Cons.prems] by (simp add: expire_def sleeping_def)
    from kont_frame_trans [OF this Cons.IH [OF expire_inv [OF Cons.prems]]] show ?case by simp
  qed simp
  then show ?thesis by (simp add: ticked_def)
qed

lemma kont_frame_raise: "raise_frame s s' \<Longrightarrow> kont_frame {} s s'"
  by (simp add: raise_frame_def kont_frame_def same_kont_def)

lemma kont_frame_queues_cong:
  assumes "\<And>t. t \<notin> X \<Longrightarrow> same_kont (tasks s t) (tasks s' t)" and "\<And>i. queues s' (SemQ i) = queues s (SemQ i)"
  shows "kont_frame X s s'"
  using assms by (auto simp: kont_frame_def)

lemma kont_frame_handed_over:
  assumes inv: "sched_inv A s" and minv: "mutex_inv s"
  shows "kont_frame {} s (handed_over m s)"
proof -
  note r = released_inv [OF inv minv, of m]
  have 1: "kont_frame {} s (released m s)"
    by (rule kont_frame_queues_cong)
      (auto simp: released_def mutex_link_remove_def same_kont_def split: option.split)
  have 2: "kont_frame {} (released m s) (wake_one (MutexQ m) 0 (released m s))"
    by (rule kont_frame_wake_one [OF r(1)]) simp
  have "handed_over m s = k_mutex_recalc_priority m (wake_one (MutexQ m) 0 (released m s))"
    by (simp add: handed_over_def wake_one_def Let_def)
  moreover have "kont_frame {} x (k_mutex_recalc_priority m x)" for x
    by (simp add: k_mutex_recalc_priority_def split: list.split)
  ultimately show ?thesis using kont_frame_trans [OF 1 2] kont_frame_trans by metis
qed

lemma kont_frame_slept:
  assumes "sched_inv A s" and "cur s c = Some t"
  shows "kont_frame {t} s (slept c t q st n k s)"
  using assms by (auto simp: kont_frame_def slept_queues set_sched_insert)

lemma kont_frame_yielded:
  assumes "sched_inv A s" and "cur s c = Some t"
  shows "kont_frame {t} s (yielded c t k s)"
  using assms by (auto simp: kont_frame_def yielded_queues)

subsection \<open>Each step preserves the invariant\<close>

lemma running_task:
  assumes "kernel_inv s" and "cur s c = Some t"
  shows "tstate (tasks s t) = RUNNING" and "is_idle (tcontext (tasks s t))"
    and "sleep_on_mutex (tasks s t) = None" and "t \<notin> set (queues s q)"
proof -
  have i: "sched_inv {} s" using assms(1) by (simp add: kernel_inv_def k_inv_def)
  show r: "tstate (tasks s t) = RUNNING" by (rule cur_running [OF i assms(2)])
  show "is_idle (tcontext (tasks s t))" using assms(1) r by (simp add: kernel_inv_def kont_ok_def)
  show "sleep_on_mutex (tasks s t) = None" by (rule running_not_waiting [OF i assms(2)])
  show "t \<notin> set (queues s q)" by (rule running_not_queued [OF i assms(2)])
qed

lemma woken_running: "tstate x = RUNNING \<Longrightarrow> is_idle (tcontext x) \<Longrightarrow> woken i x \<longleftrightarrow> gets_sem i (tcontext x)"
  by (cases "tcontext x") (auto simp: woken_def)

lemma woken_yield: "woken i (x\<lparr>tstate := st, link := l, tcontext := K_Yield k\<rparr>) \<longleftrightarrow> gets_sem i k"
  by (simp add: woken_def)

lemma kernel_inv_yielded:
  assumes inv: "kernel_inv s" and cur: "cur s c = Some t" and lock: "slock s = None"
    and k: "k_inv (yielded c t (K_Yield (tcontext (tasks s t))) (s\<lparr>slock := Some c\<rparr>))"
  shows "kernel_inv (yielded c t (K_Yield (tcontext (tasks s t))) (s\<lparr>slock := Some c\<rparr>))" (is "kernel_inv ?s")
proof (rule kernel_inv_keep [OF inv k, of t])
  have i: "sched_inv {} (s\<lparr>slock := Some c\<rparr>)" using inv by (simp add: kernel_inv_def k_inv_def)
  have c: "cur (s\<lparr>slock := Some c\<rparr>) c = Some t" using cur by simp
  note r = running_task [OF inv cur]
  show "kont_frame {t} s ?s" using kont_frame_yielded [OF i c] by simp
  show "kont_ok (tasks ?s t)" using r(2,3) by (simp add: kont_ok_def)
  show "woken i (tasks ?s t)" if "woken i (tasks s t)" for i
    using that woken_running [OF r(1,2)] by (simp add: woken_yield)
  show "gets_sem i (tcontext (tasks ?s t)) \<and> t \<in> set (queues s (SemQ i))"
    if "t \<in> set (queues ?s (SemQ i))" for i
    using that r(4) [of "SemQ i"] yielded_queues [OF i c] by simp
qed simp

lemma kernel_k_inv: "kernel_inv s \<Longrightarrow> k_inv s"
  by (simp add: kernel_inv_def)

lemma kernel_sched_inv: "kernel_inv s \<Longrightarrow> sched_inv {} (s\<lparr>slock := l\<rparr>)"
  by (simp add: kernel_inv_def k_inv_def)

lemma kernel_mutex_inv: "kernel_inv s \<Longrightarrow> mutex_inv (s\<lparr>slock := l\<rparr>)"
  by (simp add: kernel_inv_def k_inv_def)

lemma kernel_inv_slock:
  assumes "kernel_inv s" and "lock_ok (s\<lparr>slock := l\<rparr>)"
  shows "kernel_inv (s\<lparr>slock := l\<rparr>)"
  using assms by (intro kernel_inv_frame [OF assms(1)]) (simp_all add: kernel_inv_def k_inv_def)

lemma kernel_inv_unlocked: "kernel_inv s \<Longrightarrow> kernel_inv (s\<lparr>slock := None\<rparr>)"
  by (rule kernel_inv_slock) (simp_all add: lock_ok_def)

lemma userD:
  assumes "user c s"
  obtains t where "cur s c = Some t" and "tcontext (tasks s t) = K_Run" and "slock s = None"
    and "lock_count s c \<le> 0"
  using assms by (auto simp: user_def split: option.splits)

lemma step_yield:
  assumes inv: "kernel_inv s" and cur: "cur s c = Some t" and lock: "slock s = None"
  shows "\<exists>s'. k_task_yield c s = Some s' \<and> kernel_inv s'"
proof -
  have eq: "k_task_yield c s = Some (yielded c t (K_Yield (tcontext (tasks s t))) (s\<lparr>slock := Some c\<rparr>))"
    using cur lock yield_bind' [OF kernel_sched_inv [OF inv, of "Some c"], of c t K_Yield Some]
    by (simp add: k_task_yield_def sched_lock_def)
  with k_task_yield_inv [OF kernel_k_inv [OF inv] cur lock] kernel_inv_yielded [OF inv cur lock]
  show ?thesis by simp
qed

lemma step_wake:
  assumes inv: "kernel_inv s" and lock: "slock s = None"
  shows "\<exists>s'. k_task_wake c t s = Some s' \<and> kernel_inv s'"
proof -
  let ?s = "s\<lparr>slock := Some c\<rparr>"
  from k_task_wake_inv [OF kernel_k_inv [OF inv] lock, of c t] obtain s' where
    s': "k_task_wake c t s = Some s'" "k_inv s'" by blast
  have "s' = (if sleep_on_mutex (tasks s t) = None \<and> tstate (tasks s t) = SLEEP
      then resumed t (- EINTR) ?s else ?s)\<lparr>slock := None\<rparr>"
    using s'(1) lock k_sched_resume_eq [OF kernel_sched_inv [OF inv, of "Some c"], of c t "- EINTR"]
    by (auto simp: k_task_wake_def sched_lock_def sched_unlock_def sleeping_def split: if_splits)
  then have "kont_frame {} s s'" "sems s' = sems s"
    using kont_frame_resumed [OF kernel_sched_inv [OF inv, of "Some c"], of t "- EINTR"]
    by (auto simp: sleeping_def)
  from kernel_inv_frame [OF inv s'(2) this] s'(1) show ?thesis by blast
qed

lemma step_stop:
  assumes inv: "kernel_inv s" and cur: "cur s c = Some t" and st: "st = SUSPENDED \<or> st = DESTROYED"
    and k: "k = K_Exit \<and> st = DESTROYED \<and> tcontext (tasks s t) = K_Run \<or> k = K_Yield (tcontext (tasks s t))"
  shows "kernel_inv (s\<lparr>slock := Some c, tasks := (tasks s)(t := (tasks s t)\<lparr>tstate := st, tcontext := k\<rparr>),
    cur := (cur s)(c := None)\<rparr>)" (is "kernel_inv ?s")
proof (rule kernel_inv_keep [OF inv stopped_inv [OF kernel_k_inv [OF inv] cur st], of t])
  note r = running_task [OF inv cur]
  show "kont_frame {t} s ?s" by (rule kont_frame_queues_cong) simp_all
  show "kont_ok (tasks ?s t)" using r(2,3) k st by (auto simp: kont_ok_def)
  show "woken i (tasks ?s t)" if "woken i (tasks s t)" for i
    using that woken_running [OF r(1,2)] k by (auto simp: woken_def)
  show "gets_sem i (tcontext (tasks ?s t)) \<and> t \<in> set (queues s (SemQ i))"
    if "t \<in> set (queues ?s (SemQ i))" for i using that r(4) [of "SemQ i"] by simp
qed simp

lemma step_suspend:
  assumes inv: "kernel_inv s" and cur: "cur s c = Some t" and lock: "slock s = None"
  shows "\<exists>s'. k_task_suspend c s = Some s' \<and> kernel_inv s'"
  using step_stop [OF inv cur, of SUSPENDED "K_Yield (tcontext (tasks s t))"] cur lock
  by (simp add: k_task_suspend_def sched_lock_def k_sched_yield_locked_def k_sched_switch_out_def Let_def)

lemma step_exit:
  assumes inv: "kernel_inv s" and cur: "cur s c = Some t" and lock: "slock s = None"
    and run: "tcontext (tasks s t) = K_Run"
  shows "\<exists>s'. k_task_exit c s = Some s' \<and> kernel_inv s'"
proof -
  have "sched_inv {} s" using inv by (simp add: kernel_inv_def k_inv_def)
  then show ?thesis
    using step_stop [OF inv cur, of DESTROYED K_Exit] cur lock run
      timeout_destroy_absent [OF running_not_waiting(1) [OF _ cur]]
    by (simp add: k_task_exit_def sched_lock_def k_sched_yield_locked_def k_sched_switch_out_def Let_def)
qed

lemma step_create:
  assumes inv: "kernel_inv s" and new: "tstate (tasks s t) = NONE" "owned (tasks s t) = []"
    and p: "p < K_TASK_MAX_PRIORITIES"
  shows "kernel_inv (k_task_create t p s)" (is "kernel_inv ?s")
proof -
  have i: "sched_inv {} s" using inv by (simp add: kernel_inv_def k_inv_def)
  have l: "link (tasks s t) = None"
    using ktask_ok_linked [OF sched_inv_task [OF i, of t]] new by (cases "link (tasks s t)") (auto simp: sleeping_def)
  then have nq: "t \<notin> set (queues s q)" for q using i by (simp add: sched_inv_def link_ok_def)
  show ?thesis
  proof (rule kernel_inv_keep [OF inv k_task_create_inv [OF kernel_k_inv [OF inv] new p], of t])
    show "kont_frame {t} s ?s" by (rule kont_frame_queues_cong) (simp_all add: k_task_create_def)
    show "kont_ok (tasks ?s t)" by (simp add: k_task_create_def kont_ok_def)
    show "woken i (tasks ?s t)" if "woken i (tasks s t)" for i
      using woken_context [OF that] inv new(1) by (simp add: kernel_inv_def kont_ok_def)
  qed (use nq in \<open>simp_all add: k_task_create_def\<close>)
qed

lemma readied_slock: "readied t (s\<lparr>slock := l\<rparr>) = (readied t s)\<lparr>slock := l\<rparr>"
  by (simp add: readied_def moved_def link_remove_def split: option.split)

lemma kernel_inv_readied:
  assumes inv: "kernel_inv s" and st: "tstate (tasks s t) = SUSPENDED"
  shows "kernel_inv (readied t s)"
proof (rule kernel_inv_keep [OF inv, of _ t])
  note i = k_inv_sched [OF kernel_k_inv [OF inv]] and m = k_inv_mutex [OF kernel_k_inv [OF inv]]
  show "k_inv (readied t s)"
    using readied_inv [OF i m st] inv by (simp add: kernel_inv_def k_inv_def lock_ok_def)
  have t: "tasks (readied t s) = (tasks s)
      (t := (tasks s t)\<lparr>tstate := READY, link := Some (RunQ (prio (tasks s t)))\<rparr>)"
    by (simp add: readied_def)
  have q: "queues (readied t s) (SemQ j) = filter (\<lambda>x. x \<noteq> t) (queues s (SemQ j))" for j
    using i by (simp add: readied_def moved_queues sched_inv_def)
  show "kont_frame {t} s (readied t s)" using q by (auto simp: kont_frame_def t)
  have ok: "kont_ok (tasks s t)" using inv by (simp add: kernel_inv_def)
  show "kont_ok (tasks (readied t s) t)" using ok st by (simp add: kont_ok_def t)
  show "woken j (tasks (readied t s) t)" if "woken j (tasks s t)" for j
    using that st by (simp add: woken_def t)
  show "gets_sem j (tcontext (tasks (readied t s) t)) \<and> t \<in> set (queues s (SemQ j))"
    if "t \<in> set (queues (readied t s) (SemQ j))" for j using that q by simp
qed simp

text \<open>A change of the \<open>reschedule\<close> flag of a task or of the interrupt nesting of a CPU.\<close>

lemma kernel_inv_reschedule:
  assumes inv: "kernel_inv s"
  shows "kernel_inv (upd_task t (\<lambda>x. x\<lparr>reschedule := b\<rparr>) s)" (is "kernel_inv ?s")
proof (rule kernel_inv_frame [OF inv])
  show "k_inv ?s"
    using inv sched_inv_reschedule [of "{}" s t b] by (simp add: kernel_inv_def k_inv_def lock_ok_def)
  show "kont_frame {} s ?s" by (rule kont_frame_queues_cong) (simp_all add: same_kont_def)
qed simp

lemma kernel_inv_lock_count:
  assumes inv: "kernel_inv s"
  shows "kernel_inv (s\<lparr>lock_count := l\<rparr>)"
  using inv by (intro kernel_inv_frame [OF inv]) (simp_all add: kernel_inv_def k_inv_def lock_ok_def)

text \<open>The current task yields with the lock held.\<close>

lemma kernel_inv_yield:
  assumes inv: "kernel_inv s" and cur: "cur s c = Some t" and lock: "slock s = None"
  shows "kernel_inv (yielded c t (K_Yield (tcontext (tasks s t))) (s\<lparr>slock := Some c\<rparr>))"
proof (rule kernel_inv_yielded [OF inv cur lock])
  note i = kernel_sched_inv [OF inv, of "Some c"] and m = kernel_mutex_inv [OF inv, of "Some c"]
  have c: "cur (s\<lparr>slock := Some c\<rparr>) c = Some t" using cur by simp
  show "k_inv (yielded c t (K_Yield (tcontext (tasks s t))) (s\<lparr>slock := Some c\<rparr>))"
    by (rule k_inv_switched [OF yielded_inv [OF i c] mutex_inv_frame [OF m mutex_frame_yielded [OF i c]],
          where c = c]) simp_all
qed

lemma step_resume:
  assumes inv: "kernel_inv s" and lock: "slock s = None"
  shows "\<exists>r s'. k_task_resume c t s = Some (r, s') \<and> kernel_inv s'"
proof (cases "tstate (tasks s t) = SUSPENDED")
  case False
  with lock kernel_inv_unlocked [OF inv] show ?thesis
    by (simp add: k_task_resume_def sched_lock_def sched_unlock_def)
next
  case True
  let ?s = "s\<lparr>slock := Some c\<rparr>" and ?r = "readied t s"
  note i = kernel_sched_inv [OF inv, of "Some c"] and m = kernel_mutex_inv [OF inv, of "Some c"]
  have st: "tstate (tasks ?s t) = SUSPENDED" using True by simp
  have lk: "slock ?s = Some c" by simp
  note e = k_sched_enqueue_suspended [OF i lk st]
  have r: "kernel_inv ?r" by (rule kernel_inv_readied [OF inv True])
  have lr: "slock ?r = None" using lock by simp
  have my: "k_sched_may_yield c t (?r\<lparr>slock := Some c\<rparr>) = Some (case cur s c of
      None \<Rightarrow> (False, ?r\<lparr>slock := Some c\<rparr>)
    | Some my \<Rightarrow> if prio (tasks ?r t) < prio (tasks ?r my) then
          if lock_count s c > 0
          then (False, upd_task my (\<lambda>x. x\<lparr>reschedule := True\<rparr>) (?r\<lparr>slock := Some c\<rparr>))
          else (True, yielded c my (K_Yield (tcontext (tasks ?r my))) (?r\<lparr>slock := Some c\<rparr>))
        else (False, ?r\<lparr>slock := Some c\<rparr>))"
    using k_sched_may_yield_eq [OF kernel_sched_inv [OF r, of "Some c"], of c t]
    by (simp split: option.split)
  have run: "k_task_resume c t s = do {
      (y, s) \<leftarrow> k_sched_may_yield c t (?r\<lparr>slock := Some c\<rparr>);
      if y then Some (None, s) else do { s \<leftarrow> sched_unlock c s; Some (Some 0, s) } }"
    using e st lock by (simp add: k_task_resume_def sched_lock_def readied_slock)
  note unl = kernel_inv_unlocked [OF r]
  note flag = kernel_inv_unlocked [OF kernel_inv_reschedule [OF r, of _ True]]
  show ?thesis
  proof (cases "cur s c")
    case None
    with run my unl r show ?thesis by (simp add: sched_unlock_def)
  next
    case (Some u)
    then have cu: "cur ?r c = Some u" by simp
    from Some run my unl r flag [of u] kernel_inv_yield [OF r cu lr] show ?thesis
      by (simp add: sched_unlock_def)
  qed
qed

lemma step_irq_end:
  assumes inv: "kernel_inv s" and lock: "slock s = None" and cnt: "lock_count s c > 0"
  shows "\<exists>b s'. k_irq_handler_end c s = Some (b, s') \<and> kernel_inv s'"
proof -
  let ?s = "s\<lparr>lock_count := (lock_count s)(c := lock_count s c - 1)\<rparr>"
  have inv1: "kernel_inv ?s" by (rule kernel_inv_lock_count [OF inv])
  note free = kernel_inv_unlocked [OF inv1]
  show ?thesis
  proof (cases "\<exists>t. cur s c = Some t \<and> lock_count s c = 1 \<and> reschedule (tasks s t)")
    case False
    with lock cnt free show ?thesis
      by (cases "cur s c") (auto simp: k_irq_handler_end_def sched_lock_def sched_unlock_def Let_def)
  next
    case True
    then obtain t where t: "cur s c = Some t" "lock_count s c = 1" "reschedule (tasks s t)" by blast
    let ?s1 = "upd_task t (\<lambda>x. x\<lparr>reschedule := False\<rparr>) ?s"
    have inv2: "kernel_inv ?s1" by (rule kernel_inv_reschedule [OF inv1])
    have c1: "cur ?s1 c = Some t" "slock ?s1 = None" using t lock by simp_all
    note i = kernel_sched_inv [OF inv2, of "Some c"]
    have eq: "s\<lparr>slock := Some c, lock_count := l, tasks := ts\<rparr> = s\<lparr>lock_count := l, tasks := ts, slock := Some c\<rparr>"
      for l ts by (cases s) simp
    have "k_irq_handler_end c s =
        Some (True, yielded c t (K_Yield (tcontext (tasks ?s1 t))) (?s1\<lparr>slock := Some c\<rparr>))"
      using t lock yield_bind' [OF i, of c t K_Yield "\<lambda>s. Some (True, s)"]
      by (simp add: k_irq_handler_end_def sched_lock_def Let_def eq)
    with kernel_inv_yield [OF inv2 c1] show ?thesis by blast
  qed
qed

lemma step_quantum:
  assumes inv: "kernel_inv s" and lock: "slock s = None"
  shows "\<exists>s'. k_sched_check_quantum c s = Some s' \<and> kernel_inv s'"
  using inv lock kernel_inv_unlocked [OF kernel_inv_reschedule [OF inv, of _ True]]
  by (simp add: k_sched_check_quantum_def sched_lock_def sched_unlock_def Let_def split: option.split)

lemma step_ticks:
  assumes inv: "kernel_inv s" and lock: "slock s = None" and d: "0 \<le> d"
  shows "\<exists>s'. k_sched_adjust_timeouts c d s = Some s' \<and> kernel_inv s'"
proof -
  from k_sched_adjust_timeouts_inv [OF kernel_k_inv [OF inv] lock d, of c] obtain s' where
    s': "k_sched_adjust_timeouts c d s = Some s'" "k_inv s'" by blast
  moreover have "s' = (ticked d (s\<lparr>slock := Some c\<rparr>))\<lparr>slock := None\<rparr>"
    using s'(1) k_sched_adjust_timeouts_eq [OF k_inv_sched [OF kernel_k_inv [OF inv]] lock d, of c] by simp
  then have "kont_frame {} s s'" "sems s' = sems s"
    using kont_frame_ticked [OF kernel_sched_inv [OF inv, of "Some c"], of d]
    by (simp_all add: ticked_def fold_expire_fields)
  ultimately show ?thesis using kernel_inv_frame [OF inv] by blast
qed

text \<open>A queue is woken, one task or all.\<close>

lemma step_wake_one:
  assumes inv: "kernel_inv s" and lock: "slock s = None" and q: "is_wait_queue q"
  shows "\<exists>s'. do { s \<leftarrow> sched_lock c s; (_, s) \<leftarrow> k_sched_wakeup_one_locked c q r s; sched_unlock c s } =
    Some s' \<and> kernel_inv s'"
proof -
  note w = wake_one_eq [OF kernel_k_inv [OF inv] lock q, where c = c and r = r]
  have "kernel_inv ((wake_one q r (s\<lparr>slock := Some c\<rparr>))\<lparr>slock := None\<rparr>)"
    using kont_frame_wake_one [OF kernel_sched_inv [OF inv, of "Some c"] q, of r]
    by (intro kernel_inv_frame [OF inv w(2)]) (simp_all add: wake_one_def split: list.split)
  with w(1) show ?thesis by simp
qed

lemma step_wake_all:
  assumes inv: "kernel_inv s" and lock: "slock s = None" and q: "is_wait_queue q"
  shows "\<exists>s'. do { s \<leftarrow> sched_lock c s; s \<leftarrow> k_sched_wakeup_all_locked c q r s; sched_unlock c s } =
    Some s' \<and> kernel_inv s'"
proof -
  note w = wake_all_eq [OF kernel_k_inv [OF inv] lock q, where c = c and r = r]
  have "kernel_inv ((woken_all q r (s\<lparr>slock := Some c\<rparr>))\<lparr>slock := None\<rparr>)"
    using kont_frame_woken [OF kernel_sched_inv [OF inv, of "Some c"] q refl, of r]
    by (intro kernel_inv_frame [OF inv w(2)]) (simp_all add: fold_resumed_fields woken_all_def)
  with w(1) show ?thesis by simp
qed

text \<open>The current task sleeps, with a context that is not \<open>K_SemGet\<close> or on a semaphore whose
  count is zero.\<close>

lemma kernel_inv_slept:
  assumes inv: "kernel_inv s" and cur: "cur s1 c = Some t" and i1: "sched_inv A s1"
    and frame: "kont_frame {t} s s1" and sems: "sems s1 = sems s"
    and k: "k_inv (slept c t q st n k s1)" and wf: "kont_wf k" "\<And>j. q = SemQ j \<Longrightarrow> gets_sem j k"
    and sl: "sleeping st" "k \<noteq> K_Exit" "sleep_on_mutex (tasks s1 t) \<noteq> None \<longrightarrow> locks_mutex k"
    and w: "\<And>j. woken j (tasks s t) \<Longrightarrow> count (sems s j) = 0"
      "\<And>j. q = SemQ j \<Longrightarrow> count (sems s j) = 0"
  shows "kernel_inv (slept c t q st n k s1)" (is "kernel_inv ?s")
proof (rule kernel_inv_change [OF inv k, of t])
  have fin: "finite {t. tcontext (tasks s t) \<noteq> K_Run}" using inv by (simp add: kernel_inv_def sem_ok_def)
  have fr: "kont_frame {t} s ?s" by (rule kont_frame_trans [OF frame kont_frame_slept [OF i1 cur]])
  then show "kont_frame {t} s ?s" .
  show "kont_ok (tasks ?s t)" using wf sl by (auto simp: kont_ok_def sleeping_def)
  have nq: "t \<notin> set (queues s1 q')" for q' by (rule running_not_queued [OF i1 cur])
  show "gets_sem j (tcontext (tasks ?s t))" if "t \<in> set (queues ?s (SemQ j))" for j
    using that nq wf(2) slept_queues [OF i1 cur] by (simp split: if_splits)
  show "0 \<le> count (sems ?s j) \<and> count (sems ?s j) < 2 ^ 31" for j using inv sems by (simp add: kernel_inv_def sem_ok_def)
  fix j assume ne: "queues ?s (SemQ j) \<noteq> []"
  show "count (sems ?s j) \<le> int (card {u. woken j (tasks ?s u)})"
  proof (cases "count (sems s j) = 0")
    case True
    then show ?thesis using sems by simp
  next
    case False
    then have "q \<noteq> SemQ j" and nw: "\<not> woken j (tasks s t)" using w by auto
    then have "queues ?s (SemQ j) = queues s1 (SemQ j)" using slept_queues [OF i1 cur] by simp
    moreover have "set (queues s1 (SemQ j)) - {t} \<subseteq> set (queues s (SemQ j))"
      using frame by (simp add: kont_frame_def)
    ultimately have "queues s (SemQ j) \<noteq> []" using ne nq [of "SemQ j"] by (cases "queues s1 (SemQ j)") auto
    then have "count (sems s j) \<le> int (card {u. woken j (tasks s u)})"
      using inv by (simp add: kernel_inv_def sem_ok_def)
    also have "\<dots> \<le> int (card {u. woken j (tasks ?s u)})" using woken_card(2) [OF fr fin, of j] nw by simp
    finally show ?thesis using sems by simp
  qed
qed

lemma not_woken_run: "tcontext x = K_Run \<Longrightarrow> \<not> woken j x"
  using woken_context by blast

lemma step_wait:
  assumes inv: "kernel_inv s" and user: "user c s" and n: "0 \<le> n"
  shows "\<exists>s'. k_waitqueue_timed_sleep c i n s = Some s' \<and> kernel_inv s'"
proof -
  from user obtain t where t: "cur s c = Some t" "tcontext (tasks s t) = K_Run" "slock s = None"
    "lock_count s c \<le> 0" by (rule userD)
  note w = k_waitqueue_timed_sleep_inv [OF kernel_k_inv [OF inv] t(3,4,1) n, of i]
  have "kernel_inv (slept c t (WaitQ i) SLEEP n (K_Sleep n) (s\<lparr>slock := Some c\<rparr>))"
    using n running_task [OF inv t(1)] not_woken_run [OF t(2)]
    by (intro kernel_inv_slept [OF inv _ kernel_sched_inv [OF inv] _ _ w(2)])
      (simp_all add: t sleeping_def)
  with w(1) show ?thesis by simp
qed

subsubsection \<open>Mutexes and condition variables\<close>

lemma kernel_inv_locked:
  assumes inv: "kernel_inv s" and free: "owner (mutexes s m) = None"
    and p: "prio (tasks s t) \<le> mprio (mutexes s m)"
  shows "kernel_inv (locked t m s)"
proof (rule kernel_inv_frame [OF inv])
  note k = kernel_k_inv [OF inv]
  show "k_inv (locked t m s)"
    using locked_sched_inv [OF k_inv_sched [OF k], of t m] locked_mutex_inv [OF k_inv_mutex [OF k] free p] k
    by (simp add: k_inv_def lock_ok_def) (simp add: locked_def)
  show "kont_frame {} s (locked t m s)"
    by (rule kont_frame_queues_cong) (simp_all add: locked_def same_kont_def)
qed (simp add: locked_def)

lemma locked_slock: "locked t m (s\<lparr>slock := l\<rparr>) = (locked t m s)\<lparr>slock := l\<rparr>"
  by (cases s) (simp add: locked_def)

lemma step_mutex_try:
  assumes inv: "kernel_inv s" and user: "user c s" and run: "k_mutex_try_lock c m s = Some (r, s')"
  shows "kernel_inv s'"
proof -
  from user obtain t where t: "cur s c = Some t" "slock s = None" by (rule userD)
  have c: "cur (s\<lparr>slock := Some c\<rparr>) c = Some t" using t by simp
  show ?thesis
  proof (cases "owner (mutexes s m)")
    case None
    with run t have "s' = (locked t m s)\<lparr>slock := None\<rparr>" "prio (tasks s t) \<le> mprio (mutexes s m)"
      using k_mutex_try_lock_locked_eq [OF kernel_mutex_inv [OF inv] c, of m]
      by (auto simp: k_mutex_try_lock_def sched_lock_def sched_unlock_def locked_slock split: if_splits)
    then show ?thesis using kernel_inv_unlocked [OF kernel_inv_locked [OF inv None]] by simp
  next
    case (Some ow)
    with run t have "s' = s\<lparr>slock := None\<rparr>"
      using k_mutex_try_lock_locked_eq [OF kernel_mutex_inv [OF inv] c, of m]
      by (auto simp: k_mutex_try_lock_def sched_lock_def sched_unlock_def split: if_splits)
    then show ?thesis using kernel_inv_unlocked [OF inv] by simp
  qed
qed

text \<open>A round of the locking loop.  The caller runs and is not registered as a waiter; its saved
  context is that of the call until the call returns.\<close>

abbreviation running_again :: "tid \<Rightarrow> kont \<Rightarrow> sched \<Rightarrow> sched" where
  "running_again t k s \<equiv> upd_task t (\<lambda>x. x\<lparr>tcontext := k\<rparr>) (s\<lparr>slock := None\<rparr>)"

lemma tcontext_same [simp]: "tcontext x = k \<Longrightarrow> x\<lparr>tcontext := k\<rparr> = x"
  by (cases x) simp

lemma running_again_locked: "running_again t k (locked u m s) = locked u m (running_again t k s)"
  by (cases s) (auto simp: locked_def fun_eq_iff)

lemma lock_round_kernel_inv:
  assumes run: "k_mutex_lock_round c m n k s = Some (r, s')"
    and i: "sched_inv {} s" "mutex_inv s" and inv: "kernel_inv (running_again t K_Run s)"
    and lock: "slock s = Some c" and cur: "cur s c = Some t" and n: "0 \<le> n" "kont_timeout k = n"
    and wf: "kont_wf k" "locks_mutex k"
  shows "if r = None then kernel_inv s' else kernel_inv (running_again t K_Run s') \<and> slock s' = Some c"
proof -
  have kx: "k \<noteq> K_Exit" "\<And>j. \<not> gets_sem j k" using wf(2) by (cases k; simp)+
  show ?thesis
  proof (rule k_mutex_lock_round_cases [OF run i lock cur n])
    assume *: "r = Some 0" "owner (mutexes s m) = None" "s' = locked t m s"
      "prio (tasks s t) \<le> mprio (mutexes s m)"
    then have "kernel_inv (running_again t K_Run s')"
      unfolding *(3) running_again_locked by (intro kernel_inv_locked [OF inv]) simp_all
    with * lock show ?thesis by (simp add: locked_def)
  next
    assume "r = Some (- EDEADLK)" "s' = s"
    then show ?thesis using inv lock by simp
  next
    fix ow s1
    assume *: "r = None" "raise_frame s s1" "sched_inv {t} s1" "mutex_inv s1"
      "s' = slept c t (MutexQ m) SLEEP n k (upd_task t (\<lambda>x. x\<lparr>sleep_on_mutex := Some m\<rparr>) s1)"
    let ?s1 = "upd_task t (\<lambda>x. x\<lparr>sleep_on_mutex := Some m\<rparr>) s1" and ?s0 = "running_again t K_Run s"
    have cur1: "cur s1 c = Some t" using *(2) cur by (simp add: raise_frame_def)
    have i1: "sched_inv {t} ?s1" by (rule sched_inv_sleep_on_running [OF *(3) cur_running [OF *(3) cur1]])
    have "kont_frame {t} s1 ?s1" "kont_frame {t} ?s0 s" by (rule kont_frame_queues_cong; simp)+
    with kont_frame_weaken [OF kont_frame_raise [OF *(2)]] have fr: "kont_frame {t} ?s0 ?s1"
      by (blast intro: kont_frame_trans)
    have post: "sched_inv {} s'" "mutex_inv s'" "slock s' = Some c" "cur s' c = None"
      using k_mutex_lock_round_inv [OF run i lock cur n] *(1) by simp_all
    have "kernel_inv s'"
      unfolding *(5)
      by (rule kernel_inv_slept [OF inv _ i1 fr])
        (use *(2,5) cur1 wf kx k_inv_switched [OF post] in \<open>simp_all add: raise_frame_def sleeping_def woken_def\<close>)
    with *(1) show ?thesis by simp
  qed
qed

lemma k_mutex_lock_round_context:
  assumes "k_mutex_lock_round c m n k s = Some (Some r, s')"
    and "sched_inv {} s" and "mutex_inv s" and "slock s = Some c" and "cur s c = Some t"
    and "0 \<le> n" and "kont_timeout k = n"
  shows "tcontext (tasks s' t) = tcontext (tasks s t)"
  by (rule k_mutex_lock_round_cases [OF assms]) (simp_all add: locked_def)

lemma step_mutex_lock:
  assumes inv: "kernel_inv s" and user: "user c s" and n: "0 \<le> n"
    and run: "k_mutex_timed_lock c m n s = Some (r, s')"
  shows "kernel_inv s'"
proof -
  from user obtain t where t: "cur s c = Some t" "tcontext (tasks s t) = K_Run" "slock s = None"
    by (rule userD)
  let ?s = "s\<lparr>slock := Some c\<rparr>"
  from run t obtain r1 s1 where
    s1: "k_mutex_lock_round c m n (K_MutexLock m n) ?s = Some (r1, s1)" "unlock_on_return c (r1, s1) = Some (r, s')"
    by (auto simp: k_mutex_timed_lock_def sched_lock_def Option.bind_eq_Some_conv split: if_splits)
  have "s\<lparr>slock := None, tasks := tasks s\<rparr> = s\<lparr>slock := None\<rparr>" by (cases s) simp
  then have "kernel_inv (running_again t K_Run ?s)" using kernel_inv_unlocked [OF inv] t(2) by simp
  from lock_round_kernel_inv [OF s1(1) kernel_sched_inv [OF inv] kernel_mutex_inv [OF inv] this]
  have *: "if r1 = None then kernel_inv s1 else kernel_inv (running_again t K_Run s1) \<and> slock s1 = Some c"
    using t n by simp
  show ?thesis
  proof (cases r1)
    case None
    with * s1(2) show ?thesis by (simp add: unlock_on_return_def)
  next
    case (Some r')
    have "tcontext (tasks s1 t) = K_Run"
      using k_mutex_lock_round_context [OF s1(1) [unfolded Some] kernel_sched_inv [OF inv] kernel_mutex_inv [OF inv]] t n
      by simp
    moreover have "s1\<lparr>slock := None, tasks := tasks s1\<rparr> = s1\<lparr>slock := None\<rparr>" by (cases s1) simp
    ultimately show ?thesis using * s1(2) Some by (auto simp: unlock_on_return_def sched_unlock_def)
  qed
qed

lemma kont_frame_context: "kont_frame {} s s' \<Longrightarrow> tcontext (tasks s' t) = tcontext (tasks s t)"
  by (simp add: kont_frame_def same_kont_def)

lemma kernel_inv_unlock_locked:
  assumes inv: "kernel_inv (s\<lparr>slock := None\<rparr>)" and lock: "slock s = Some c" and cur: "cur s c = Some t"
  shows "\<exists>s'. k_mutex_unlock_locked c m s = Some s' \<and> kernel_inv (s'\<lparr>slock := None\<rparr>) \<and> slock s' = Some c \<and>
    cur s' = cur s \<and> lock_count s' = lock_count s \<and> tcontext (tasks s' t) = tcontext (tasks s t)"
proof -
  have i: "sched_inv {} s" "mutex_inv s" using inv by (simp_all add: kernel_inv_def k_inv_def)
  let ?h = "handed_over m s"
  let ?s' = "upd_task t (\<lambda>x. x\<lparr>prio := effective_prio t ?h\<rparr>) ?h"
  note h = handed_over_inv [OF i, of m]
  have ch: "cur ?h c = Some t" using cur by simp
  have "kont_frame {} ?h ?s'" by (rule kont_frame_queues_cong) (simp_all add: same_kont_def)
  with kont_frame_handed_over [OF i, of m] have fr: "kont_frame {} s ?s'" by (rule kont_frame_trans)
  have "kernel_inv (?s'\<lparr>slock := None\<rparr>)"
    using effective_inv [OF h ch] fr by (intro kernel_inv_frame [OF inv] k_inv_free) simp_all
  moreover have "tcontext (tasks ?s' t) = tcontext (tasks s t)"
    by (rule kont_frame_context [OF fr])
  ultimately show ?thesis using k_mutex_unlock_locked_eq [OF i lock cur, of m] lock by simp
qed

lemma step_mutex_unlock:
  assumes inv: "kernel_inv s" and user: "user c s" and run: "k_mutex_unlock c m s = Some (r, s')"
  shows "kernel_inv s'"
proof -
  from user obtain t where t: "cur s c = Some t" "slock s = None" by (rule userD)
  let ?s = "s\<lparr>slock := Some c\<rparr>"
  have inv': "kernel_inv (?s\<lparr>slock := None\<rparr>)" using kernel_inv_unlocked [OF inv] by simp
  from kernel_inv_unlock_locked [OF inv', of c t m] t obtain s1 where
    s1: "k_mutex_unlock_locked c m ?s = Some s1" "kernel_inv (s1\<lparr>slock := None\<rparr>)" "slock s1 = Some c"
    by auto
  then show ?thesis using run t
    by (auto simp: k_mutex_unlock_def sched_lock_def sched_unlock_def Option.bind_eq_Some_conv split: if_splits)
qed

lemma step_cond_wait:
  assumes inv: "kernel_inv s" and user: "user c s" and n: "0 \<le> n"
    and run: "k_condvar_timed_wait c i m n u s = Some s'"
  shows "kernel_inv s'"
proof -
  from user obtain t where t: "cur s c = Some t" "tcontext (tasks s t) = K_Run" "slock s = None"
    "lock_count s c \<le> 0" by (rule userD)
  let ?s = "s\<lparr>slock := Some c\<rparr>"
  have inv': "kernel_inv (?s\<lparr>slock := None\<rparr>)" using kernel_inv_unlocked [OF inv] by simp
  from kernel_inv_unlock_locked [OF inv', of c t m] t obtain s1 where
    s1: "k_mutex_unlock_locked c m ?s = Some s1" "kernel_inv (s1\<lparr>slock := None\<rparr>)" "slock s1 = Some c"
      "cur s1 c = Some t" "lock_count s1 c \<le> 0" "tcontext (tasks s1 t) = K_Run" by auto
  have i1: "sched_inv {} s1" "mutex_inv s1" using s1(2) by (simp_all add: kernel_inv_def k_inv_def)
  let ?k = "K_CondWait m n"
  note b = sleep_begin_inv [OF i1 s1(3,5,4) n, of ?k "CondQ i" "sleep_state u"]
  have "s' = slept c t (CondQ i) (sleep_state u) n ?k s1"
    using run t s1(1) b(1) by (auto simp: k_condvar_timed_wait_def sched_lock_def Option.bind_eq_Some_conv split: if_splits)
  moreover have c1: "cur (s1\<lparr>slock := None\<rparr>) c = Some t" using s1(4) by simp
  have "sleep_on_mutex (tasks s1 t) = None" using running_task(3) [OF s1(2) c1] by simp
  then have "kernel_inv (slept c t (CondQ i) (sleep_state u) n ?k s1)"
    using b(2) n not_woken_run [OF s1(6)]
    by (intro kernel_inv_slept [OF s1(2) s1(4) i1(1)]) simp_all
  ultimately show ?thesis by simp
qed

subsubsection \<open>Entering a task\<close>

text \<open>The state in which a task goes on: the scheduler loop switched to it, and it left its sleep.\<close>

definition entered :: "cpu_id \<Rightarrow> tid \<Rightarrow> sched \<Rightarrow> sched" where
  "entered c t s = (let s1 = k_sched_switch_in c t (link_remove t s) in
     upd_task t (\<lambda>x. x\<lparr>sleep_on_mutex := None\<rparr>)
       (s1\<lparr>timeouts := timeouts_without t (kont_timeout (tcontext (tasks s t))) s1\<rparr>))"

lemma entered_simps [simp]:
  "tasks (entered c t s) = (tasks s)(t := (tasks s t)\<lparr>link := None, tstate := RUNNING, sleep_on_mutex := None\<rparr>)"
  "cur (entered c t s) = (cur s)(c := Some t)" "slock (entered c t s) = slock s" "sems (entered c t s) = sems s"
  "mutexes (entered c t s) = mutexes s"
  by (simp_all add: entered_def k_sched_switch_in_def link_remove_tasks Let_def)

lemma entered_queues:
  "link_ok s \<Longrightarrow> queues (entered c t s) q = filter (\<lambda>x. x \<noteq> t) (queues s q)"
  by (simp add: entered_def k_sched_switch_in_def Let_def link_remove_queues)

lemma entered_inv:
  assumes inv: "k_inv s" and lock: "slock s = Some c" and ready: "tstate (tasks s t) = READY"
  shows "sched_inv {} (entered c t s)" and "mutex_inv (entered c t s)"
proof -
  let ?s1 = "k_sched_switch_in c t (link_remove t s)" and ?n = "kont_timeout (tcontext (tasks s t))"
  note i = k_inv_sched [OF inv]
  have "cur s c = None" using inv lock by (simp add: k_inv_def lock_ok_def)
  then have i1: "sched_inv {t} ?s1" by (rule switched_in_inv [OF i ready])
  have "asleep_task (t \<in> fst ` set (timeouts s)) (tasks s t)" using i by (simp add: sched_inv_def asleep_ok_def)
  then have "t \<in> fst ` set (timeouts ?s1) \<longrightarrow> ?n \<noteq> 0" by (simp add: asleep_task_def k_sched_switch_in_def)
  note w = timeouts_without_props [OF i1 this]
  have "sched_inv {t} (entered c t s)"
    unfolding entered_def Let_def
    by (rule sched_inv_sleep_on_running [OF w(2)]) (simp add: k_sched_switch_in_def)
  moreover have "t \<notin> fst ` set (timeouts (entered c t s))" using w(1) by (simp add: entered_def Let_def)
  ultimately show "sched_inv {} (entered c t s)" by (rule sched_inv_shrink) simp
  have "mutex_frame s (entered c t s)"
    using i by (auto simp: mutex_frame_def entered_queues sched_inv_def)
  then show "mutex_inv (entered c t s)" by (rule mutex_inv_frame [OF k_inv_mutex [OF inv]])
qed

lemma entered_kernel_inv:
  assumes inv: "kernel_inv s" and lock: "slock s = Some c" and ready: "tstate (tasks s t) = READY"
    and k: "is_idle k" "\<And>i. woken i (tasks s t) \<Longrightarrow> gets_sem i k"
  shows "kernel_inv (running_again t k (entered c t s))" (is "kernel_inv ?s")
proof (rule kernel_inv_keep [OF inv, of _ t])
  note e = entered_inv [OF kernel_k_inv [OF inv] lock ready]
  have l: "link_ok s" using inv by (simp add: kernel_inv_def k_inv_def sched_inv_def)
  have "k_inv ((entered c t s)\<lparr>slock := None\<rparr>)" using e by (intro k_inv_free) simp_all
  then show "k_inv ?s" using k_inv_tcontext_run [of "(entered c t s)\<lparr>slock := None\<rparr>" c t k] by simp
  show "kont_frame {t} s ?s" by (auto simp: kont_frame_def entered_queues [OF l])
  show "kont_ok (tasks ?s t)" using k(1) by (cases k) (simp_all add: kont_ok_def)
  show "woken i (tasks ?s t)" if "woken i (tasks s t)" for i using k(2) [OF that] by (simp add: woken_def)
  show "gets_sem i (tcontext (tasks ?s t)) \<and> t \<in> set (queues s (SemQ i))"
    if "t \<in> set (queues ?s (SemQ i))" for i using that by (simp add: entered_queues [OF l])
qed simp

lemma running_again_same: "tcontext (tasks s t) = k \<Longrightarrow> running_again t k s = s\<lparr>slock := None\<rparr>"
  by (cases s) simp

lemma sleep_on_same: "sleep_on_mutex (tasks s t) = None \<Longrightarrow> upd_task t (\<lambda>x. x\<lparr>sleep_on_mutex := None\<rparr>) s = s"
proof -
  assume "sleep_on_mutex (tasks s t) = None"
  then have "(tasks s t)\<lparr>sleep_on_mutex := None\<rparr> = tasks s t" by (cases "tasks s t") simp
  then show ?thesis by (cases s) simp
qed

abbreviation switched :: "cpu_id \<Rightarrow> tid \<Rightarrow> sched \<Rightarrow> sched" where
  "switched c t s \<equiv> k_sched_switch_in c t (link_remove t s)"

lemma switched_task: "cur (switched c t s) c = Some t" "slock (switched c t s) = slock s"
  "tasks (switched c t s) t = (tasks s t)\<lparr>link := None, tstate := RUNNING\<rparr>"
  by (simp_all add: k_sched_switch_in_def link_remove_tasks)

lemma sleep_end_switched:
  assumes "kont_timeout (tcontext (tasks s t)) = n"
  shows "\<exists>s1. k_sched_sleep_end c n (switched c t s) = Some (sleep_result (tasks s t), s1) \<and>
    upd_task t (\<lambda>x. x\<lparr>sleep_on_mutex := None\<rparr>) s1 = entered c t s \<and> cur s1 c = Some t \<and>
    (sleep_on_mutex (tasks s t) = None \<longrightarrow> s1 = entered c t s)"
proof -
  let ?s1 = "(switched c t s)\<lparr>timeouts := timeouts_without t n (switched c t s)\<rparr>"
  have "k_sched_sleep_end c n (switched c t s) = Some (sleep_result (tasks s t), ?s1)"
    using k_sched_sleep_end_eq [OF switched_task(1) [of c t s], of n] by (simp add: switched_task)
  moreover have e: "upd_task t (\<lambda>x. x\<lparr>sleep_on_mutex := None\<rparr>) ?s1 = entered c t s"
    using assms by (simp add: entered_def Let_def)
  moreover have "?s1 = entered c t s" if "sleep_on_mutex (tasks s t) = None"
    using sleep_on_same [of ?s1 t] e that by (simp add: switched_task)
  ultimately show ?thesis by (simp add: switched_task)
qed

lemma switched_entered:
  assumes "sleep_on_mutex (tasks s t) = None" and "kont_timeout (tcontext (tasks s t)) = 0"
  shows "switched c t s = entered c t s"
proof -
  have "x\<lparr>timeouts := timeouts x\<rparr> = x" for x :: sched by (cases x) simp
  then show ?thesis
    using assms sleep_on_same [of "switched c t s" t]
    by (simp add: entered_def Let_def timeouts_without_def switched_task)
qed

text \<open>What is left of a call that locks a mutex, from the entered state on.\<close>

lemma entered_lock_round:
  assumes inv: "kernel_inv s" and lock: "slock s = Some c" and ready: "tstate (tasks s t) = READY"
    and nw: "\<And>i. \<not> woken i (tasks s t)" and k: "kont_wf k" "locks_mutex k" "kont_timeout k = n" "0 \<le> n"
    and run: "k_mutex_lock_round c m n k (entered c t s) = Some (r, s')"
  shows "if r = None then kernel_inv s' else kernel_inv (running_again t K_Run s') \<and> slock s' = Some c"
proof (rule lock_round_kernel_inv [OF run entered_inv [OF kernel_k_inv [OF inv] lock ready]])
  show "kernel_inv (running_again t K_Run (entered c t s))"
    by (rule entered_kernel_inv [OF inv lock ready]) (simp_all add: nw)
qed (use k lock in simp_all)

lemma finish_lock:
  assumes "if r = None then kernel_inv s else kernel_inv (running_again t K_Run s) \<and> slock s = Some c"
  shows "\<lbrakk>do { rs \<leftarrow> unlock_on_return c (r, s); finish t rs } = Some (r', s')\<rbrakk> \<Longrightarrow> kernel_inv s'"
    and "\<lbrakk>do { rs \<leftarrow> cond_locked c r0 (r, s); finish t rs } = Some (r', s')\<rbrakk> \<Longrightarrow> kernel_inv s'"
  using assms by (cases r; auto simp: unlock_on_return_def cond_locked_def finish_def sched_unlock_def)+

lemma entered_lock_resume:
  assumes inv: "kernel_inv s" and lock: "slock s = Some c" and ready: "tstate (tasks s t) = READY"
    and k: "tcontext (tasks s t) = k" "kont_wf k" "locks_mutex k" "kont_timeout k = n" "0 \<le> n"
    and run: "k_mutex_lock_resume c m n k (switched c t s) = Some (r, s')"
  shows "if r = None then kernel_inv s' else kernel_inv (running_again t K_Run s') \<and> slock s' = Some c"
proof -
  have nw: "\<not> woken i (tasks s t)" for i using k(1,3) by (cases k) (simp_all add: woken_def)
  from sleep_end_switched [of s t n c] k obtain s1 where
    s1: "k_sched_sleep_end c n (switched c t s) = Some (sleep_result (tasks s t), s1)"
      "upd_task t (\<lambda>x. x\<lparr>sleep_on_mutex := None\<rparr>) s1 = entered c t s" "cur s1 c = Some t" by auto
  show ?thesis
  proof (cases "sleep_result (tasks s t) < 0")
    case True
    with run s1 switched_task(1) have "r = Some (sleep_result (tasks s t))" "s' = entered c t s"
      by (simp_all add: k_mutex_lock_resume_def Let_def)
    moreover have "kernel_inv (running_again t K_Run (entered c t s))"
      by (rule entered_kernel_inv [OF inv lock ready]) (simp_all add: nw)
    ultimately show ?thesis using lock by simp
  next
    case False
    with run s1 switched_task(1) have "k_mutex_lock_round c m n k (entered c t s) = Some (r, s')"
      by (simp add: k_mutex_lock_resume_def Let_def)
    from entered_lock_round [OF inv lock ready nw k(2-5) this] show ?thesis .
  qed
qed

lemma step_loop:
  assumes inv: "kernel_inv s" and lock: "slock s = Some c" and run: "k_step (E_Loop c) s = Some s'"
  shows "kernel_inv s'"
proof (rule k_sched_start_iter_cases [OF kernel_k_inv [OF inv] lock])
  assume "k_sched_start_iter c s = Some (None, s\<lparr>slock := None\<rparr>)"
  with run kernel_inv_unlocked [OF inv] show ?thesis by simp
next
  fix t s1 assume it: "k_sched_start_iter c s = Some (Some t, s1)" "best_ready t s" "s1 = switched c t s"
  from it(2) have ready: "tstate (tasks s t) = READY" by (simp add: best_ready_def)
  from run it obtain r where r: "k_continue c t (switched c t s) = Some (r, s')" by auto
  have ok: "kont_ok (tasks s t)" using inv by (simp add: kernel_inv_def)
  then have wf: "kont_wf (tcontext (tasks s t))" and ne: "tcontext (tasks s t) \<noteq> K_Exit"
    and so: "locks_mutex (tcontext (tasks s t)) \<or> sleep_on_mutex (tasks s t) = None"
    using ready by (auto simp: kont_ok_def)
  note ent = entered_kernel_inv [OF inv lock ready] and sw = switched_task
  have sl: "k_sched_sleep_end c n (switched c t s) = Some (sleep_result (tasks s t), entered c t s)"
    if "kont_timeout (tcontext (tasks s t)) = n" "\<not> locks_mutex (tcontext (tasks s t))" for n
    using sleep_end_switched [of s t n c] that so by auto
  show ?thesis
  proof (cases "tcontext (tasks s t)")
    case K_Run
    with so have "switched c t s = entered c t s" by (intro switched_entered) simp_all
    with K_Run r lock ent [of K_Run] running_again_same [of "entered c t s" t K_Run] show ?thesis
      by (simp add: k_continue_def sched_unlock_def woken_def)
  next
    case (K_Yield k)
    with so have "switched c t s = entered c t s" by (intro switched_entered) simp_all
    with K_Yield r lock ent [of k] wf show ?thesis by (simp add: k_continue_def sched_unlock_def woken_def)
  next
    case (K_Sleep n)
    with r lock sl [of n] ent [of K_Run] show ?thesis
      by (simp add: k_continue_def sw sched_unlock_def woken_def finish_def)
  next
    case (K_MutexLock m n)
    from r obtain r1 s2 where
      s2: "k_mutex_lock_resume c m n (K_MutexLock m n) (switched c t s) = Some (r1, s2)"
        "do { rs \<leftarrow> unlock_on_return c (r1, s2); finish t rs } = Some (r, s')"
      by (auto simp: k_continue_def sw K_MutexLock Option.bind_eq_Some_conv)
    show ?thesis
      by (rule finish_lock(1) [OF entered_lock_resume [OF inv lock ready K_MutexLock _ _ _ _ s2(1)] s2(2)])
        (use wf K_MutexLock in simp_all)
  next
    case (K_CondWait m n)
    let ?r = "sleep_result (tasks s t)"
    from r sl [of n] K_CondWait obtain r1 s2 where
      s2: "k_mutex_lock_round c m 0 (K_CondLock m ?r) (entered c t s) = Some (r1, s2)"
        "do { rs \<leftarrow> cond_locked c ?r (r1, s2); finish t rs } = Some (r, s')"
      by (auto simp: k_continue_def sw k_condvar_wait_resume_def Option.bind_eq_Some_conv)
    show ?thesis
      by (rule finish_lock(2) [OF entered_lock_round [OF inv lock ready _ _ _ _ _ s2(1)] s2(2)])
        (use K_CondWait in \<open>simp_all add: woken_def\<close>)
  next
    case (K_CondLock m n)
    from r obtain r1 s2 where
      s2: "k_mutex_lock_resume c m 0 (K_CondLock m n) (switched c t s) = Some (r1, s2)"
        "do { rs \<leftarrow> cond_locked c n (r1, s2); finish t rs } = Some (r, s')"
      by (auto simp: k_continue_def sw K_CondLock k_condvar_lock_resume_def Option.bind_eq_Some_conv)
    show ?thesis
      by (rule finish_lock(2) [OF entered_lock_resume [OF inv lock ready K_CondLock _ _ _ _ s2(1)] s2(2)])
        simp_all
  next
    case (K_SemGet i n u)
    note k = K_SemGet
    have "s' = (if sleep_result (tasks s t) < 0 then running_again t K_Run (entered c t s)
        else (entered c t s)\<lparr>slock := None\<rparr>)"
      using r lock sl [of n] k
      by (simp add: k_continue_def sw k_semaphore_get_resume_def sched_unlock_def split: if_splits)
    moreover have "kernel_inv (running_again t (K_SemGet i n u) (entered c t s))"
      by (rule ent) (use wf k in \<open>simp_all add: woken_def\<close>)
    then have "kernel_inv ((entered c t s)\<lparr>slock := None\<rparr>)"
      by (subst (asm) running_again_same) (simp_all add: k)
    moreover have "kernel_inv (running_again t K_Run (entered c t s))" if "sleep_result (tasks s t) < 0"
      by (rule ent) (use that k ready in \<open>simp_all add: woken_def\<close>)
    ultimately show ?thesis by simp
  qed (use ne in simp)
qed

subsubsection \<open>Semaphores\<close>

lemma kernel_sem_ok:
  assumes "kernel_inv s"
  shows "finite {t. tcontext (tasks s t) \<noteq> K_Run}" and "0 \<le> count (sems s i)"
    and "t \<in> set (queues s (SemQ i)) \<Longrightarrow> gets_sem i (tcontext (tasks s t))"
    and "queues s (SemQ i) \<noteq> [] \<Longrightarrow> count (sems s i) \<le> int (card {t. woken i (tasks s t)})"
    and "count (sems s i) < 2 ^ 31"
  using assms by (simp_all add: kernel_inv_def sem_ok_def)

text \<open>A count that went down by one, taken by task \<open>t\<close> if it was woken for it.\<close>

lemma kernel_inv_taken:
  assumes inv: "kernel_inv s" and pos: "count (sems s i) > 0"
  shows "kernel_inv (upd_sem i (\<lambda>x. x\<lparr>count := count x - 1\<rparr>) s)"
proof -
  have "queues s (SemQ i) \<noteq> [] \<longrightarrow> count (sems s i) - 1 \<le> int (card {t. woken i (tasks s t)})"
    using kernel_sem_ok(4) [OF inv, of i] by auto
  moreover have "count (sems s i) < 2 ^ 31 + 1" using kernel_sem_ok(5) [OF inv, of i] by simp
  ultimately show ?thesis using pos inv by (simp add: kernel_inv_def sem_ok_def)
qed

lemma kernel_inv_taken_run:
  assumes inv: "kernel_inv s" and pos: "count (sems s i) > 0" and cur: "cur s c = Some t"
    and k: "tcontext (tasks s t) = K_SemGet i n u"
  shows "kernel_inv (upd_task t (\<lambda>x. x\<lparr>tcontext := K_Run\<rparr>) (upd_sem i (\<lambda>x. x\<lparr>count := count x - 1\<rparr>) s))"
    (is "kernel_inv ?s")
proof (rule kernel_inv_change [OF inv, of _ t])
  note r = running_task [OF inv cur] and sem = kernel_sem_ok [OF inv]
  let ?s1 = "upd_sem i (\<lambda>x. x\<lparr>count := count x - 1\<rparr>) s"
  have "k_inv ?s1" using inv by (simp add: kernel_inv_def)
  from k_inv_tcontext_run [OF this, of c t K_Run] cur show "k_inv ?s" by simp
  show fr: "kont_frame {t} s ?s" by (rule kont_frame_queues_cong) simp_all
  show "kont_ok (tasks ?s t)" using r by (simp add: kont_ok_def)
  show "gets_sem j (tcontext (tasks ?s t))" if "t \<in> set (queues ?s (SemQ j))" for j
    using that r(4) [of "SemQ j"] by simp
  show "0 \<le> count (sems ?s j) \<and> count (sems ?s j) < 2 ^ 31" for j using sem(2,5) [of j] pos by auto
  fix j assume ne: "queues ?s (SemQ j) \<noteq> []"
  show "count (sems ?s j) \<le> int (card {u. woken j (tasks ?s u)})"
  proof (cases "j = i")
    case True
    then show ?thesis using woken_card(1) [OF fr sem(1), of i] sem(4) [of i] ne by simp
  next
    case False
    then have "\<not> woken j (tasks s t)" using k by (simp add: woken_def)
    then show ?thesis using woken_card(2) [OF fr sem(1), of j] sem(4) [of j] ne False by simp
  qed
qed

lemma kernel_inv_sem_slept:
  assumes inv: "kernel_inv s" and cur: "cur s c = Some t" and lock: "slock s = None" "lock_count s c \<le> 0"
    and n: "0 \<le> n" and zero: "count (sems s i) = 0"
    and k: "tcontext (tasks s t) = K_Run \<or> tcontext (tasks s t) = K_SemGet i n u"
  shows "kernel_inv (sem_slept c t i n u s)"
proof (rule kernel_inv_slept [OF inv _ kernel_sched_inv [OF inv]])
  show "k_inv (sem_slept c t i n u s)"
    by (rule k_semaphore_get_round_inv(2) [OF kernel_k_inv [OF inv] lock cur n]) (simp_all add: zero)
  show "count (sems s j) = 0" if "woken j (tasks s t)" for j
    using that k zero by (auto simp: woken_def)
qed (use cur n zero running_task [OF inv cur] in simp_all)

lemma step_sem_get:
  assumes inv: "kernel_inv s" and user: "user c s" and n: "0 \<le> n"
    and run: "k_semaphore_timed_get c i n u s = Some (r, s')"
  shows "kernel_inv s'"
proof -
  from user obtain t where t: "cur s c = Some t" "tcontext (tasks s t) = K_Run" "slock s = None"
    "lock_count s c \<le> 0" by (rule userD)
  note sem = kernel_sem_ok(2,5) [OF inv, of i]
  show ?thesis
    using run k_semaphore_get_round_inv(1) [OF kernel_k_inv [OF inv] t(3,4,1) n sem, of u] sem
      kernel_inv_sem_slept [OF inv t(1,3,4) n, of i u] t(2) kernel_inv_taken [OF inv, of i]
    by (auto simp: k_semaphore_timed_get_def Option.bind_eq_Some_conv split: if_splits)
qed

lemma step_sem_retry:
  assumes inv: "kernel_inv s" and lock: "slock s = None" "lock_count s c \<le> 0"
    and run: "k_step (E_Sem_Retry c) s = Some s'"
  shows "kernel_inv s'"
proof -
  from run obtain t where cur: "cur s c = Some t" by (auto simp: Option.bind_eq_Some_conv)
  with run obtain i n u r where t: "cur s c = Some t" "tcontext (tasks s t) = K_SemGet i n u"
    "k_semaphore_get_retry c i n u s = Some (r, s')"
    by (cases "tcontext (tasks s t)") auto
  note sem = kernel_sem_ok(2,5) [OF inv, of i]
  have n: "0 \<le> n" using running_task(2) [OF inv t(1)] t(2) by simp
  note g = k_semaphore_get_round_inv(1) [OF kernel_k_inv [OF inv] lock t(1) n sem, of u]
  show ?thesis
  proof (cases "count (sems s i) = 0")
    case True
    with t g have "s' = sem_slept c t i n u s" by (simp add: k_semaphore_get_retry_def)
    with kernel_inv_sem_slept [OF inv t(1) lock n True] t(2) show ?thesis by simp
  next
    case False
    with t g have "s' = upd_task t (\<lambda>x. x\<lparr>tcontext := K_Run\<rparr>) (upd_sem i (\<lambda>x. x\<lparr>count := count x - 1\<rparr>) s)"
      by (simp add: k_semaphore_get_retry_def)
    with kernel_inv_taken_run [OF inv _ t(1,2)] False sem show ?thesis by simp
  qed
qed

text \<open>\<open>k_semaphore_put\<close>: the first task of the queue, if any, is woken for the new count.\<close>

lemma kernel_inv_put:
  assumes inv: "kernel_inv s" and lock: "slock s = None" and valid: "sem_valid (sems s i)"
    and bound: "count (sems s i) + 1 < 2 ^ 31"
  shows "\<exists>s'. k_semaphore_put c i s = Some s' \<and> kernel_inv s'"
proof -
  note sem = kernel_sem_ok [OF inv]
  let ?s1 = "(upd_sem i (\<lambda>x. x\<lparr>count := count x + 1\<rparr>) s)\<lparr>slock := Some c\<rparr>"
  let ?s = "(wake_one (SemQ i) 0 ?s1)\<lparr>slock := None\<rparr>"
  note put = k_semaphore_put_eq [OF kernel_k_inv [OF inv] lock valid sem(2) bound, of c]
  have i1: "sched_inv {} ?s1" using kernel_sched_inv [OF inv, of "Some c"] by (simp add: kernel_inv_def)
  have fr: "kont_frame {} s ?s" using kont_frame_wake_one [OF i1, of "SemQ i" 0] by simp
  have sems: "sems ?s = sems ?s1" by (simp add: wake_one_def split: list.split)
  have fin: "finite {u. woken j (tasks ?s u)}" for j
    by (rule finite_woken [OF kont_frame_finite [OF fr _ sem(1)]]) simp
  have mono: "{u. woken j (tasks s u)} \<subseteq> {u. woken j (tasks ?s u)}" for j
    using fr woken_same by (auto simp: kont_frame_def)
  have q: "set (queues ?s (SemQ j)) \<subseteq> set (queues s (SemQ j))" for j using fr by (simp add: kont_frame_def)
  have cnt: "count (sems ?s j) \<le> int (card {u. woken j (tasks ?s u)})" if ne: "queues ?s (SemQ j) \<noteq> []" for j
  proof -
    from ne q [of j] have ne': "queues s (SemQ j) \<noteq> []" by auto
    show ?thesis
    proof (cases "j = i")
      case True
      from ne' True obtain u us where u: "queues s (SemQ i) = u # us" by (cases "queues s (SemQ i)") auto
      have "sleeping (tstate (tasks ?s1 u))" by (rule wait_queue_sleeping [OF i1, of "SemQ i"]) (simp_all add: u)
      then have nw: "\<not> woken i (tasks s u)" using sem(3) [of u i] u
        by (cases "tcontext (tasks s u)") (auto simp: woken_def sleeping_def)
      have "woken i (tasks ?s u)" using sem(3) [of u i] u by (simp add: woken_def wake_one_def)
      with nw mono [of i] have "card {v. woken i (tasks s v)} < card {v. woken i (tasks ?s v)}"
        by (intro psubset_card_mono [OF fin]) auto
      with sem(4) [OF ne'] True show ?thesis unfolding sems by simp
    next
      case False
      with sem(4) [OF ne'] card_mono [OF fin mono [of j]] show ?thesis unfolding sems by simp
    qed
  qed
  have "kernel_inv ?s"
  proof (rule kernel_inv_change [OF inv put(2) kont_frame_weaken [OF fr] _ _ _ cnt, of undefined])
    have same: "same_kont (tasks s v) (tasks ?s v)" for v using fr by (simp add: kont_frame_def)
    show "kont_ok (tasks ?s undefined)"
      by (rule kont_ok_same [OF _ same]) (use inv in \<open>simp add: kernel_inv_def\<close>)
    show "gets_sem j (tcontext (tasks ?s undefined))" if "undefined \<in> set (queues ?s (SemQ j))" for j
      using sem(3) [of undefined j] q [of j] that same [of undefined] by (auto simp: same_kont_def)
    show "0 \<le> count (sems ?s j) \<and> count (sems ?s j) < 2 ^ 31" for j unfolding sems using sem(2,5) [of j] bound by auto
  qed
  with put(1) show ?thesis by blast
qed

lemma step_sem_create:
  assumes inv: "kernel_inv s" and n: "0 \<le> n" "n < 2 ^ 31" and q: "queues s (SemQ i) = []"
  shows "kernel_inv (k_semaphore_create i n s)"
proof -
  have "(queues s)(SemQ i := []) = queues s" using q by (simp add: fun_upd_idem)
  then have "k_semaphore_create i n s = upd_sem i (\<lambda>x. \<lparr>sem_valid = True, count = n\<rparr>) s"
    using n by (cases s) (simp add: k_semaphore_create_def)
  then show ?thesis using inv n q by (simp add: kernel_inv_def sem_ok_def)
qed

lemma step_sem_try:
  assumes inv: "kernel_inv s" and run: "k_semaphore_try_get i s = Some (r, s')"
  shows "kernel_inv s'"
  using run kernel_inv_taken [OF inv, of i] inv
  by (auto simp: k_semaphore_try_get_def k_semaphore_try_get_locked_def Option.bind_eq_Some_conv k_assert_def
      split: if_splits)

subsection \<open>The invariant of the system\<close>

lemma kernel_inv_step:
  assumes "kernel_inv s" and "enabled e s" and "k_step e s = Some s'"
  shows "kernel_inv s'"
proof (cases e)
  case (E_Loop c)
  with assms step_loop [OF assms(1), of c] show ?thesis by (simp del: k_step.simps)
next
  case (E_Idle_End c)
  then have "s' = s\<lparr>slock := Some c\<rparr>" using assms by (simp add: k_sched_idle_end_def sched_lock_def)
  moreover have "kernel_inv (s\<lparr>slock := Some c\<rparr>)"
    by (rule kernel_inv_slock [OF assms(1)]) (use assms E_Idle_End in \<open>simp add: lock_ok_def\<close>)
  ultimately show ?thesis by simp
next
  case (E_Yield c)
  with assms(2) have "user c s" by simp
  then show ?thesis by (rule userD) (use assms E_Yield step_yield [OF assms(1), of c] in auto)
next
  case (E_Exit c)
  with assms(2) have "user c s" by simp
  then show ?thesis by (rule userD) (use assms E_Exit step_exit [OF assms(1), of c] in auto)
next
  case (E_Suspend c)
  with assms(2) have "user c s" by simp
  then show ?thesis by (rule userD) (use assms E_Suspend step_suspend [OF assms(1), of c] in auto)
next
  case (E_Irq_Begin c)
  with assms kernel_inv_lock_count show ?thesis by (auto simp: k_irq_handler_begin_def)
next
  case (E_Irq_End c)
  with assms step_irq_end [of s c] show ?thesis by auto
next
  case (E_Resume c t)
  with assms step_resume [of s c t] show ?thesis by auto
next
  case (E_Sem_Put c i)
  with assms(3) have "sem_valid (sems s i)" by (auto simp: k_semaphore_put_def k_assert_def split: if_splits)
  with E_Sem_Put assms kernel_inv_put [of s i c] show ?thesis by auto
next
  case (E_Cond_One c i)
  with assms step_wake_one [of s "CondQ i" c 0] show ?thesis
    by (auto simp: k_condvar_notify_one_def k_assert_def split: if_splits)
next
  case (E_Cond_All c i)
  with assms step_wake_all [of s "CondQ i" c 0] show ?thesis
    by (auto simp: k_condvar_notify_all_def k_assert_def split: if_splits)
next
  case (E_Wait_One c i)
  with assms step_wake_one [of s "WaitQ i" c 0] show ?thesis by (auto simp: k_waitqueue_wakeup_one_def)
next
  case (E_Wait_All c i)
  with assms step_wake_all [of s "WaitQ i" c 0] show ?thesis by (auto simp: k_waitqueue_wakeup_all_def)
next
  case (E_Mutex_Lock c m n)
  with assms step_mutex_lock [OF assms(1), of c n m] show ?thesis by auto
next
  case (E_Cond_Wait c i m n u)
  with assms step_cond_wait [OF assms(1), of c n i m u] show ?thesis by auto
next
  case (E_Sem_Retry c)
  with assms step_sem_retry [OF assms(1), of c] show ?thesis by (simp del: k_step.simps)
next
  case (E_Sem_Get c i n u)
  with assms step_sem_get [OF assms(1), of c n i u] show ?thesis by auto
next
  case (E_Wait c i n)
  with assms step_wait [of s c n i] show ?thesis by auto
next
  case (E_Ticks c d)
  with assms step_ticks [of s d c] show ?thesis by auto
next
  case (E_Quantum c)
  with assms step_quantum [of s c] show ?thesis by auto
next
  case (E_Wake c t)
  with assms step_wake [of s c t] show ?thesis by auto
next
  case (E_Create t p)
  with assms step_create [OF assms(1), of t p] show ?thesis by auto
next
  case (E_Mutex_Try c m)
  with assms step_mutex_try [OF assms(1), of c m] show ?thesis by auto
next
  case (E_Mutex_Unlock c m)
  with assms step_mutex_unlock [OF assms(1), of c m] show ?thesis by auto
next
  case (E_Sem_Create i n)
  with assms step_sem_create [OF assms(1), of n i] show ?thesis by auto
next
  case (E_Sem_Try c i)
  with assms step_sem_try [OF assms(1), of i] show ?thesis by auto
qed

lemma reachable_kernel_inv: "reachable s \<Longrightarrow> kernel_inv s"
  by (induction rule: reachable.induct) (auto intro: initial_kernel_inv kernel_inv_step)

end
