(* ===== verification/K_Safety.thy ===== *)
theory K_Safety
  imports K_Kernel
begin

section \<open>Properties of the kernel core\<close>

text \<open>
  What the invariant of \<open>K_Kernel\<close> says of every reachable state: the scheduler's bookkeeping,
  transitive priority inheritance, no lost wakeups of semaphores, and which calls never panic.
  \<open>k_run\<close> executes a sequence of events and gives concrete reachable states; two of them lead to
  a failing assertion of \<open>kernel/core/mutex.c\<close>.
\<close>

subsection \<open>Running the system\<close>

fun k_run :: "event list \<Rightarrow> sched \<Rightarrow> sched option" where
  "k_run [] s = Some s"
| "k_run (e # es) s = (if enabled e s then Option.bind (k_step e s) (k_run es) else None)"

lemma k_run_reachable: "reachable s \<Longrightarrow> k_run es s = Some s' \<Longrightarrow> reachable s'"
proof (induction es arbitrary: s)
  case (Cons e es)
  then show ?case
    by (auto simp: Option.bind_eq_Some_conv split: if_splits intro: reachable.step)
qed simp

definition after :: "event list \<Rightarrow> sched" where
  "after es = the (k_run es initial_sched)"

lemma after_reachable: "\<not> Option.is_none (k_run es initial_sched) \<Longrightarrow> reachable (after es)"
  by (cases "k_run es initial_sched") (auto simp: after_def intro: k_run_reachable reachable.init)

text \<open>Tasks 1, 2 and 3 of priorities 10, 5 and 3 lock mutex 0 in this order on CPU 0: task 1
  has the mutex, the others wait for it.\<close>

definition contended :: "event list" where
  "contended = [E_Create 1 10, E_Resume 0 1, E_Idle_End 0, E_Loop 0, E_Mutex_Lock 0 0 0,
     E_Create 2 5, E_Resume 0 2, E_Loop 0, E_Mutex_Lock 0 0 0, E_Loop 0,
     E_Create 3 3, E_Resume 0 3, E_Loop 0, E_Mutex_Lock 0 0 0, E_Loop 0]"

lemma contended_reachable: "reachable (after contended)"
  by (rule after_reachable) code_simp

subsection \<open>Scheduling\<close>

text \<open>
  C5: In every reachable state the CPUs and the run queues agree with the states of the tasks.
  A CPU runs only running tasks, each running task runs on exactly one CPU, the run queue of
  priority \<open>p\<close> holds exactly the ready tasks of priority \<open>p\<close>, and no task is in two queues or twice
  in one.
\<close>

theorem reachable_scheduling:
  assumes "reachable s"
  shows "(\<forall>c t. cur s c = Some t \<longrightarrow> tstate (tasks s t) = RUNNING) \<and>
    (\<forall>t. tstate (tasks s t) = RUNNING \<longrightarrow> (\<exists>!c. cur s c = Some t)) \<and>
    (\<forall>t p. t \<in> set (queues s (RunQ p)) \<longleftrightarrow> tstate (tasks s t) = READY \<and> prio (tasks s t) = p) \<and>
    (\<forall>t q q'. t \<in> set (queues s q) \<and> t \<in> set (queues s q') \<longrightarrow> q = q') \<and> (\<forall>q. distinct (queues s q))"
proof (intro conjI allI)
  have i: "sched_inv {} s" using reachable_kernel_inv [OF assms] by (simp add: kernel_inv_def k_inv_def)
  show "cur s c = Some t \<longrightarrow> tstate (tasks s t) = RUNNING"
    and "tstate (tasks s t) = RUNNING \<longrightarrow> (\<exists>!c. cur s c = Some t)" for c t
    using i unfolding sched_inv_def cur_ok_def by blast+
  show "t \<in> set (queues s (RunQ p)) \<longleftrightarrow> tstate (tasks s t) = READY \<and> prio (tasks s t) = p" for t p
    using ready_queued [OF i] by blast
  show "t \<in> set (queues s q) \<and> t \<in> set (queues s q') \<longrightarrow> q = q'" and "distinct (queues s q)" for t q q'
    using i by (auto simp: sched_inv_def link_ok_def)
qed

theorem reachable_scheduling_witness:
  "cur (after contended) 0 = Some 1 \<and> (\<exists>!c. cur (after contended) c = Some 1) \<and>
   queues (after contended) (MutexQ 0) = [3, 2] \<and> 3 \<notin> set (queues (after contended) (RunQ 3))"
proof -
  have 1: "cur (after contended) 0 = Some 1" "queues (after contended) (MutexQ 0) = [3, 2]"
    by code_simp+
  with reachable_scheduling [OF contended_reachable] have "\<exists>!c. cur (after contended) c = Some 1" by blast
  moreover have "3 \<in> set (queues (after contended) (MutexQ 0))" using 1 by simp
  with reachable_scheduling [OF contended_reachable] have "3 \<notin> set (queues (after contended) (RunQ 3))"
    by blast
  ultimately show ?thesis using 1 by blast
qed

subsection \<open>Mutexes\<close>

text \<open>\<open>t\<close> keeps \<open>u\<close> from running: it has the mutex for which \<open>u\<close> sleeps.\<close>

definition blocks :: "sched \<Rightarrow> tid \<Rightarrow> tid \<Rightarrow> bool" where
  "blocks s t u \<longleftrightarrow> sleeping (tstate (tasks s u)) \<and>
     (case sleep_on_mutex (tasks s u) of None \<Rightarrow> False | Some m \<Rightarrow> owner (mutexes s m) = Some t)"

lemma blocks_prio:
  assumes "kernel_inv s" and "blocks s t u"
  shows "prio (tasks s t) \<le> prio (tasks s u)"
proof -
  note i = k_inv_sched [OF kernel_k_inv [OF assms(1)]] and m = k_inv_mutex [OF kernel_k_inv [OF assms(1)]]
  from assms(2) obtain x where x: "sleeping (tstate (tasks s u))" "sleep_on_mutex (tasks s u) = Some x"
    "owner (mutexes s x) = Some t" by (auto simp: blocks_def split: option.splits)
  then have "link (tasks s u) = Some (MutexQ x)"
    using sched_inv_task [OF i, of u] by (simp add: ktask_ok_def)
  then have "u \<in> set (queues s (MutexQ x))" using i by (simp add: sched_inv_def link_ok_def)
  then have "mprio (mutexes s x) \<le> prio (tasks s u)" using m by (simp add: mutex_inv_def waiters_ok_def)
  moreover have "prio (tasks s t) \<le> mprio (mutexes s x)" using m x(3) by (simp add: mutex_inv_def inherit_ok_def)
  ultimately show ?thesis by simp
qed

text \<open>
  C6: Transitive priority inheritance.  In every reachable state a task that holds up another
  one, directly or through a chain of mutexes and their owners, runs at the other's priority or
  a higher one (smaller numbers are higher priorities).
\<close>

theorem priority_inheritance:
  assumes "reachable s" and "(blocks s)\<^sup>+\<^sup>+ t u"
  shows "prio (tasks s t) \<le> prio (tasks s u)"
  using assms(2)
proof (induction rule: tranclp_induct)
  case (base u)
  then show ?case by (rule blocks_prio [OF reachable_kernel_inv [OF assms(1)]])
next
  case (step u v)
  then show ?case using blocks_prio [OF reachable_kernel_inv [OF assms(1)], of u v] by simp
qed

text \<open>Task 1 has mutex 0, task 2 has mutex 1 and waits for mutex 0, task 3 waits for mutex 1.\<close>

definition chained :: "event list" where
  "chained = [E_Create 1 10, E_Resume 0 1, E_Idle_End 0, E_Loop 0, E_Mutex_Lock 0 0 0,
     E_Create 2 5, E_Resume 0 2, E_Loop 0, E_Mutex_Lock 0 1 0, E_Mutex_Lock 0 0 0, E_Loop 0,
     E_Create 3 3, E_Resume 0 3, E_Loop 0, E_Mutex_Lock 0 1 0]"

theorem priority_inheritance_witness:
  "(blocks (after chained))\<^sup>+\<^sup>+ 1 3 \<and> saved_prio (tasks (after chained) 1) = 10 \<and>
   prio (tasks (after chained) 1) \<le> 3"
proof -
  have r: "reachable (after chained)" by (rule after_reachable) code_simp
  have "blocks (after chained) 1 2" "blocks (after chained) 2 3" by code_simp+
  then have b: "(blocks (after chained))\<^sup>+\<^sup>+ 1 3" by (meson tranclp.simps)
  moreover have "prio (tasks (after chained) 3) = 3" "saved_prio (tasks (after chained) 1) = 10" by code_simp+
  ultimately show ?thesis using priority_inheritance [OF r b] by simp
qed

text \<open>The priority a task goes back to.\<close>

lemma effective_prio_least:
  assumes "sched_inv A s" and "mutex_inv s"
  shows "effective_prio t s \<le> saved_prio (tasks s t)"
    and "owner (mutexes s m) = Some t \<Longrightarrow> effective_prio t s \<le> mprio (mutexes s m)"
    and "effective_prio t s = saved_prio (tasks s t) \<or>
      (\<exists>m. owner (mutexes s m) = Some t \<and> effective_prio t s = mprio (mutexes s m))"
proof -
  have own: "x \<in> set (owned (tasks s t)) \<longleftrightarrow> owner (mutexes s x) = Some t" for x
    using assms(2) by (simp add: mutex_inv_def own_ok_def)
  have sp: "saved_prio (tasks s t) < K_TASK_MAX_PRIORITIES"
    using ktask_ok_prio [OF sched_inv_task [OF assms(1), of t]] by simp
  show "effective_prio t s \<le> saved_prio (tasks s t)" by (simp add: effective_prio_def)
  show "effective_prio t s \<le> mprio (mutexes s m)" if "owner (mutexes s m) = Some t"
    using k_mutex_get_highest_priority_le [of "owned (tasks s t)" s] that own [of m]
    by (simp add: effective_prio_def min_le_iff_disj)
  show "effective_prio t s = saved_prio (tasks s t) \<or>
      (\<exists>m. owner (mutexes s m) = Some t \<and> effective_prio t s = mprio (mutexes s m))"
    using k_mutex_get_highest_priority_attained [of "owned (tasks s t)" s] own sp
    by (auto simp: effective_prio_def min_def)
qed

text \<open>
  C7: \<open>k_mutex_unlock\<close> by the owner returns 0 in every reachable state.  It frees this mutex and no
  other, makes a waiter of the highest priority ready and leaves the other waiters in the queue,
  and puts the caller back to the highest of its own priority and the priorities of the mutexes
  it still has.
\<close>

theorem k_mutex_unlock_hands_over:
  assumes "reachable s" and "user c s" and "cur s c = Some t" and "owner (mutexes s m) = Some t"
    and "mutex_valid (mutexes s m)"
  shows "\<exists>s'. k_mutex_unlock c m s = Some (0, s') \<and>
    (\<forall>x. owner (mutexes s' x) = (if x = m then None else owner (mutexes s x))) \<and>
    (case queues s (MutexQ m) of [] \<Rightarrow> queues s' (MutexQ m) = []
     | w # ws \<Rightarrow> queues s' (MutexQ m) = ws \<and> tstate (tasks s' w) = READY \<and> sleep_result (tasks s' w) = 0 \<and>
         (\<forall>u\<in>set ws. prio (tasks s w) \<le> prio (tasks s u))) \<and>
    prio (tasks s' t) \<le> saved_prio (tasks s t) \<and>
    (\<forall>x. owner (mutexes s' x) = Some t \<longrightarrow> prio (tasks s' t) \<le> mprio (mutexes s' x)) \<and>
    (prio (tasks s' t) = saved_prio (tasks s t) \<or>
     (\<exists>x. owner (mutexes s' x) = Some t \<and> prio (tasks s' t) = mprio (mutexes s' x)))"
proof -
  note k = reachable_kernel_inv [OF assms(1)]
  let ?l = "s\<lparr>slock := Some c\<rparr>"
  let ?h = "handed_over m ?l"
  let ?s = "(upd_task t (\<lambda>x. x\<lparr>prio := effective_prio t ?h\<rparr>) ?h)\<lparr>slock := None\<rparr>"
  note i = kernel_sched_inv [OF k, of "Some c"] and mi = kernel_mutex_inv [OF k, of "Some c"]
  have lock: "slock s = None" using assms(2) by (simp add: user_def)
  have cl: "slock ?l = Some c" "cur ?l c = Some t" using assms(3) by simp_all
  have run: "k_mutex_unlock c m s = Some (0, ?s)"
    using assms(3-5) lock k_mutex_unlock_locked_eq [OF i mi cl, of m]
    by (simp add: k_mutex_unlock_def k_mutex_holding_eq sched_lock_def sched_unlock_def)
  note q = handed_over_queue [OF i mi, of m] and e = effective_prio_least [OF handed_over_inv [OF i mi, of m], where t = t]
  have "sorted (map (\<lambda>t. prio (tasks s t)) (queues s (MutexQ m)))"
    using mi by (simp add: mutex_inv_def sorted_ok_def)
  moreover have "t \<notin> set (queues s (MutexQ m))" by (rule running_task(4) [OF k assms(3)])
  ultimately have "case queues s (MutexQ m) of [] \<Rightarrow> queues ?s (MutexQ m) = []
     | w # ws \<Rightarrow> queues ?s (MutexQ m) = ws \<and> tstate (tasks ?s w) = READY \<and> sleep_result (tasks ?s w) = 0 \<and>
         (\<forall>u\<in>set ws. prio (tasks s w) \<le> prio (tasks s u))"
    using q by (auto split: list.split)
  with e show ?thesis unfolding run by simp
qed

theorem k_mutex_unlock_hands_over_witness:
  "\<exists>s'. k_mutex_unlock 0 0 (after contended) = Some (0, s') \<and> queues s' (MutexQ 0) = [2] \<and>
     tstate (tasks s' 3) = READY \<and> prio (tasks s' 1) \<le> 10"
proof -
  have u: "user 0 (after contended)" by code_simp
  have c: "cur (after contended) 0 = Some 1" by code_simp
  have o: "owner (mutexes (after contended) 0) = Some 1" by code_simp
  have v: "mutex_valid (mutexes (after contended) 0)" by code_simp
  have q: "queues (after contended) (MutexQ 0) = [3, 2]" by code_simp
  have p: "saved_prio (tasks (after contended) 1) = 10" by code_simp
  from k_mutex_unlock_hands_over [OF contended_reachable u c o v] p q show ?thesis by auto
qed

text \<open>
  C8: Raising priorities along the chain of a mutex, its owner, the mutex the owner waits for and so
  on always ends, also when the tasks wait for each other in a cycle, provided that only
  finitely many mutexes are locked and none of those waited for is between two owners.
\<close>

theorem k_mutex_may_raise_priority_terminates:
  assumes "sched_inv A s" and "slock s = Some c" and "owner (mutexes s m) \<noteq> None"
    and "finite {x. owner (mutexes s x) \<noteq> None}"
    and "\<forall>t x. sleeping (tstate (tasks s t)) \<and> sleep_on_mutex (tasks s t) = Some x \<longrightarrow> owner (mutexes s x) \<noteq> None"
  shows "\<exists>s'. k_mutex_may_raise_priority c m p s = Some s'"
proof (rule k_mutex_may_raise_priority_returns [OF assms(1-3)])
  show "chain_ok s" unfolding chain_ok_def using assms(4,5) by blast
qed

text \<open>Tasks 1 and 2 have mutexes 0 and 1 and wait for each other.\<close>

definition waiter :: "mid \<Rightarrow> mid \<Rightarrow> ktask" where
  "waiter held wanted = idle_task\<lparr>link := Some (MutexQ wanted), tstate := SLEEP, prio := 10, saved_prio := 10,
     owned := [held], sleep_on_mutex := Some wanted, tcontext := K_MutexLock wanted 0\<rparr>"

definition deadlocked :: sched where
  "deadlocked = initial_sched\<lparr>slock := Some 0,
     tasks := (\<lambda>t. idle_task)(1 := waiter 0 1, 2 := waiter 1 0),
     mutexes := (\<lambda>m. \<lparr>mutex_valid = True, owner = None, mlink = None, mprio = K_TASK_MAX_PRIORITIES\<rparr>)
       (0 := \<lparr>mutex_valid = True, owner = Some 1, mlink = Some 1, mprio = 10\<rparr>,
        1 := \<lparr>mutex_valid = True, owner = Some 2, mlink = Some 2, mprio = 10\<rparr>),
     queues := (\<lambda>q. [])(MutexQ 0 := [2], MutexQ 1 := [1])\<rparr>"

lemma deadlocked_inv: "sched_inv {} deadlocked"
proof -
  have "link_ok deadlocked"
    by (auto simp: link_ok_def deadlocked_def waiter_def initial_sched_def idle_task_def)
  moreover have "ktask_ok idle_task" "ktask_ok (waiter x y)" for x y
    by (auto simp add: ktask_ok_def waiter_def idle_task_def sleeping_def K_TASK_MAX_PRIORITIES_def)
  moreover have "cur_ok deadlocked" "asleep_ok {} deadlocked"
    by (simp_all add: cur_ok_def asleep_ok_def asleep_task_def deadlocked_def waiter_def
        initial_sched_def idle_task_def sleeping_def)
  ultimately show ?thesis by (simp add: sched_inv_def deadlocked_def)
qed

theorem k_mutex_may_raise_priority_terminates_witness:
  "blocks deadlocked 1 2 \<and> blocks deadlocked 2 1 \<and>
   (\<exists>s'. k_mutex_may_raise_priority 0 0 3 deadlocked = Some s' \<and> prio (tasks s' 1) = 3 \<and> prio (tasks s' 2) = 3)"
proof -
  have o: "owner (mutexes deadlocked x) = (if x = 0 then Some 1 else if x = 1 then Some 2 else None)" for x
    by (simp add: deadlocked_def)
  then have f: "finite {x. owner (mutexes deadlocked x) \<noteq> None}"
    by (intro finite_subset [of "{x. owner (mutexes deadlocked x) \<noteq> None}" "{0, 1}"]) (simp_all add: subset_iff)
  have w: "\<forall>t x. sleeping (tstate (tasks deadlocked t)) \<and> sleep_on_mutex (tasks deadlocked t) = Some x \<longrightarrow>
      owner (mutexes deadlocked x) \<noteq> None"
    by (auto simp: deadlocked_def waiter_def idle_task_def sleeping_def)
  have "\<exists>s'. k_mutex_may_raise_priority 0 0 3 deadlocked = Some s'"
    by (rule k_mutex_may_raise_priority_terminates [OF deadlocked_inv _ _ f w]) (simp_all add: o, simp add: deadlocked_def)
  moreover have "map_option (\<lambda>s. (prio (tasks s 1), prio (tasks s 2))) (k_mutex_may_raise_priority 0 0 3 deadlocked) =
      Some (3, 3)" by code_simp
  moreover have "blocks deadlocked 1 2" "blocks deadlocked 2 1" by code_simp+
  ultimately show ?thesis by (cases "k_mutex_may_raise_priority 0 0 3 deadlocked") simp_all
qed

subsection \<open>Semaphores and condition variables\<close>

text \<open>
  C9: No wakeup of a semaphore is lost.  In every reachable state in which tasks wait in the queue
  of a semaphore, its count is at most the number of tasks that a \<open>k_semaphore_put\<close> has woken and
  that have yet to look at the count; all tasks in the queue are sleeping inside
  \<open>k_semaphore_timed_get\<close>.
\<close>

theorem semaphore_no_lost_wakeup:
  assumes "reachable s" and "queues s (SemQ i) \<noteq> []"
  shows "0 \<le> count (sems s i) \<and> count (sems s i) \<le> int (card {t. woken i (tasks s t)}) \<and>
    (\<forall>t\<in>set (queues s (SemQ i)). sleeping (tstate (tasks s t)) \<and> gets_sem i (tcontext (tasks s t)))"
proof -
  note k = reachable_kernel_inv [OF assms(1)]
  note i = k_inv_sched [OF kernel_k_inv [OF k]]
  show ?thesis
    using kernel_sem_ok [OF k] assms(2) wait_queue_sleeping [OF i, of "SemQ i"] by simp
qed

text \<open>Tasks 1 and 2 wait for semaphore 0; one of them is woken but has not run yet.\<close>

definition sem_put_once :: "event list" where
  "sem_put_once = [E_Create 1 10, E_Resume 0 1, E_Idle_End 0, E_Loop 0, E_Sem_Get 0 0 0 False,
     E_Loop 0, E_Create 2 10, E_Resume 0 2, E_Idle_End 0, E_Loop 0, E_Sem_Get 0 0 0 False, E_Loop 0,
     E_Sem_Put 0 0]"

theorem semaphore_no_lost_wakeup_witness:
  "queues (after sem_put_once) (SemQ 0) = [2] \<and> count (sems (after sem_put_once) 0) = 1 \<and>
   1 \<le> card {t. woken 0 (tasks (after sem_put_once) t)}"
proof -
  have r: "reachable (after sem_put_once)" by (rule after_reachable) code_simp
  have q: "queues (after sem_put_once) (SemQ 0) = [2]" "count (sems (after sem_put_once) 0) = 1" by code_simp+
  then show ?thesis using semaphore_no_lost_wakeup [OF r, of 0] by simp
qed



subsection \<open>Panics\<close>

text \<open>The calls whose assertions hold whatever the other tasks and CPUs do.\<close>

fun robust :: "event \<Rightarrow> bool" where
  "robust (E_Idle_End c) \<longleftrightarrow> True"
| "robust (E_Create t p) \<longleftrightarrow> True"
| "robust (E_Resume c t) \<longleftrightarrow> True"
| "robust (E_Yield c) \<longleftrightarrow> True"
| "robust (E_Wake c t) \<longleftrightarrow> True"
| "robust (E_Exit c) \<longleftrightarrow> True"
| "robust (E_Suspend c) \<longleftrightarrow> True"
| "robust (E_Irq_Begin c) \<longleftrightarrow> True"
| "robust (E_Irq_End c) \<longleftrightarrow> True"
| "robust (E_Quantum c) \<longleftrightarrow> True"
| "robust (E_Ticks c d) \<longleftrightarrow> True"
| "robust (E_Sem_Create i n) \<longleftrightarrow> True"
| "robust (E_Wait c i n) \<longleftrightarrow> True"
| "robust (E_Wait_One c i) \<longleftrightarrow> True"
| "robust (E_Wait_All c i) \<longleftrightarrow> True"
| "robust _ \<longleftrightarrow> False"

text \<open>
  C11: Creating, resuming, waking, suspending and ending tasks, yielding, interrupt entry and exit,
  the clock interrupt and the wait queues never fail an assertion in a reachable state in
  which they can begin.
\<close>

theorem robust_never_panics:
  assumes "reachable s" and "enabled e s" and "robust e"
  shows "\<exists>s'. k_step e s = Some s'"
proof -
  note k = reachable_kernel_inv [OF assms(1)]
  have u: "\<exists>t. cur s c = Some t \<and> tcontext (tasks s t) = K_Run \<and> slock s = None" if "user c s" for c
    using that by (rule userD) simp
  from assms(2,3) show ?thesis
  proof (cases e)
    case (E_Yield c)
    then show ?thesis using assms(2) u [of c] step_yield [OF k, of c] by auto
  next
    case (E_Exit c)
    then show ?thesis using assms(2) u [of c] step_exit [OF k, of c] by auto
  next
    case (E_Suspend c)
    then show ?thesis using assms(2) u [of c] step_suspend [OF k, of c] by auto
  next
    case (E_Wait c i n)
    then show ?thesis using assms(2) step_wait [OF k, of c n i] by auto
  next
    case (E_Resume c t)
    then show ?thesis using assms(2) step_resume [OF k, of c t] by auto
  next
    case (E_Irq_End c)
    then show ?thesis using assms(2) step_irq_end [OF k, of c] by auto
  next
    case (E_Wait_One c i)
    then show ?thesis using assms(2) step_wake_one [OF k, of "WaitQ i" c 0]
      by (auto simp: k_waitqueue_wakeup_one_def)
  next
    case (E_Wait_All c i)
    then show ?thesis using assms(2) step_wake_all [OF k, of "WaitQ i" c 0]
      by (auto simp: k_waitqueue_wakeup_all_def)
  next
    case (E_Wake c t)
    then show ?thesis using assms(2) step_wake [OF k, of c t] by auto
  next
    case (E_Quantum c)
    then show ?thesis using assms(2) step_quantum [OF k, of c] by auto
  next
    case (E_Ticks c d)
    then show ?thesis using assms(2) step_ticks [OF k, of d c] by auto
  qed (simp_all add: k_sched_idle_end_def sched_lock_def)
qed

theorem robust_never_panics_witness:
  "enabled (E_Suspend 0) (after contended) \<and> (\<exists>s'. k_step (E_Suspend 0) (after contended) = Some s')"
proof -
  have e: "enabled (E_Suspend 0) (after contended)" by code_simp
  moreover have "robust (E_Suspend 0)" by simp
  ultimately show ?thesis using robust_never_panics [OF contended_reachable e] by blast
qed

text \<open>
  C12: The assertion of \<open>k_mutex_try_lock_locked\<close> that the highest-priority task always locks the mutex
  first can fail.  A task of low priority that unlocks a mutex with two waiters and locks it again
  at once finds it free with the priority of the second waiter, and panics.
\<close>

theorem relock_panics:
  "\<exists>s. reachable s \<and> enabled (E_Mutex_Lock 0 0 0) s \<and> owner (mutexes s 0) = None \<and>
     mutex_valid (mutexes s 0) \<and> k_step (E_Mutex_Lock 0 0 0) s = None"
proof (intro exI conjI)
  let ?s = "after (contended @ [E_Mutex_Unlock 0 0])"
  show "reachable ?s" by (rule after_reachable) code_simp
  show "enabled (E_Mutex_Lock 0 0 0) ?s" by code_simp
  show "owner (mutexes ?s 0) = None" by code_simp
  show "mutex_valid (mutexes ?s 0)" by code_simp
  have "Option.is_none (k_step (E_Mutex_Lock 0 0 0) ?s)" by code_simp
  then show "k_step (E_Mutex_Lock 0 0 0) ?s = None" by (simp add: Option.is_none_def)
qed

text \<open>The assertion of \<open>_k_mutex_may_raise_priority\<close> fails when the chain reaches a mutex that was
  unlocked and not yet locked by the task woken for it: task 2 waits for mutex 0 and has
  mutex 1, which task 3 wants.\<close>

definition unowned_chain :: "event list" where
  "unowned_chain = [E_Create 1 10, E_Resume 0 1, E_Idle_End 0, E_Loop 0, E_Mutex_Lock 0 0 0,
     E_Create 2 5, E_Resume 0 2, E_Loop 0, E_Mutex_Lock 0 1 0, E_Mutex_Lock 0 0 0, E_Loop 0,
     E_Create 4 4, E_Resume 0 4, E_Loop 0, E_Mutex_Lock 0 0 0, E_Loop 0, E_Mutex_Unlock 0 0,
     E_Create 3 3, E_Resume 0 3, E_Loop 0]"

theorem chain_panics:
  "\<exists>s. reachable s \<and> enabled (E_Mutex_Lock 0 1 0) s \<and> owner (mutexes s 1) = Some 2 \<and>
     mutex_valid (mutexes s 1) \<and> k_step (E_Mutex_Lock 0 1 0) s = None"
proof (intro exI conjI)
  let ?s = "after unowned_chain"
  show "reachable ?s" by (rule after_reachable) code_simp
  show "enabled (E_Mutex_Lock 0 1 0) ?s" by code_simp
  show "owner (mutexes ?s 1) = Some 2" by code_simp
  show "mutex_valid (mutexes ?s 1)" by code_simp
  have "Option.is_none (k_step (E_Mutex_Lock 0 1 0) ?s)" by code_simp
  then show "k_step (E_Mutex_Lock 0 1 0) ?s = None" by (simp add: Option.is_none_def)
qed

end
