(* ===== verification/K_Irq.thy ===== *)
theory K_Irq
  imports Kernel_Prelude
begin

section \<open>Interrupt masking and spinlocks\<close>

text \<open>
  Models \<open>k_irq_state_save\<close> and \<open>k_irq_state_restore\<close> of \<open>kernel/core/irq.c\<close>, \<open>kernel/core/cpu.c\<close>,
  \<open>kernel/core/spinlock.c\<close> and the two architecture back ends \<open>arch/arm/core/arch_irq.c\<close> and
  \<open>arch/i386/core/arch_irq.c\<close>.  What the kernel needs of a back end is the locale \<open>irq_arch\<close>, which
  both satisfy.

  Several CPUs compete for a spinlock.  The atomic steps are the single accesses to the
  fields of the lock: the exchange that sets \<open>locked\<close>, the store to \<open>cpu\<close> after it, and the two
  stores of a release.  Each is a definition, and a step relation interleaves them.
\<close>

unbundle bit_operations_syntax

subsection \<open>Back ends\<close>

record 'r irq_ops =
  arch_is_enabled :: "'r \<Rightarrow> bool"
  arch_state_save :: "'r \<Rightarrow> u32 \<times> 'r"
  arch_state_restore :: "u32 \<Rightarrow> 'r \<Rightarrow> 'r"
  arch_enable :: "'r \<Rightarrow> 'r"

text \<open>ARM: the register is the CPSR.\<close>

definition PSR_IRQ_MASK :: u32 where
  "PSR_IRQ_MASK = push_bit 7 1 OR push_bit 6 1"

definition arm_irq_is_enabled :: "u32 \<Rightarrow> bool" where
  "arm_irq_is_enabled cpsr \<longleftrightarrow> cpsr AND PSR_IRQ_MASK \<noteq> PSR_IRQ_MASK"

definition arm_irq_enable :: "u32 \<Rightarrow> u32" where
  "arm_irq_enable cpsr = cpsr AND NOT PSR_IRQ_MASK"

definition arm_irq_disable :: "u32 \<Rightarrow> u32" where
  "arm_irq_disable cpsr = cpsr OR PSR_IRQ_MASK"

definition arm_irq_state_save :: "u32 \<Rightarrow> u32 \<times> u32" where
  "arm_irq_state_save cpsr = (NOT cpsr AND PSR_IRQ_MASK, cpsr OR PSR_IRQ_MASK)"

definition arm_irq_state_restore :: "u32 \<Rightarrow> u32 \<Rightarrow> u32" where
  "arm_irq_state_restore status cpsr = cpsr AND NOT status"

definition arm :: "u32 irq_ops" where
  "arm = \<lparr>arch_is_enabled = arm_irq_is_enabled, arch_state_save = arm_irq_state_save,
     arch_state_restore = arm_irq_state_restore, arch_enable = arm_irq_enable\<rparr>"

text \<open>i386: the register is EFLAGS; \<open>sti\<close> and \<open>cli\<close> set and clear its interrupt flag.\<close>

definition EFLAGS_IF :: u32 where
  "EFLAGS_IF = push_bit 9 1"

definition i386_irq_is_enabled :: "u32 \<Rightarrow> bool" where
  "i386_irq_is_enabled eflags \<longleftrightarrow> eflags AND EFLAGS_IF \<noteq> 0"

definition i386_irq_enable :: "u32 \<Rightarrow> u32" where
  "i386_irq_enable eflags = eflags OR EFLAGS_IF"

definition i386_irq_disable :: "u32 \<Rightarrow> u32" where
  "i386_irq_disable eflags = eflags AND NOT EFLAGS_IF"

definition i386_irq_state_save :: "u32 \<Rightarrow> u32 \<times> u32" where
  "i386_irq_state_save eflags = (eflags AND EFLAGS_IF, i386_irq_disable eflags)"

definition i386_irq_state_restore :: "u32 \<Rightarrow> u32 \<Rightarrow> u32" where
  "i386_irq_state_restore status eflags =
     (if status AND EFLAGS_IF \<noteq> 0 then i386_irq_enable eflags else eflags)"

definition i386 :: "u32 irq_ops" where
  "i386 = \<lparr>arch_is_enabled = i386_irq_is_enabled, arch_state_save = i386_irq_state_save,
     arch_state_restore = i386_irq_state_restore, arch_enable = i386_irq_enable\<rparr>"

subsection \<open>Nested critical sections\<close>

record 'r kcpu =
  reg :: 'r
  irq_save_count :: int
  irq_flags :: u32

definition k_cpu :: "'r irq_ops \<Rightarrow> 'r kcpu \<Rightarrow> 'r kcpu option" where
  "k_cpu A cpu = do { k_assert (\<not> arch_is_enabled A (reg cpu)); Some cpu }"

definition k_irq_state_save :: "'r irq_ops \<Rightarrow> 'r kcpu \<Rightarrow> 'r kcpu option" where
  "k_irq_state_save A cpu = do {
     let (flags, r) = arch_state_save A (reg cpu);
     cpu \<leftarrow> k_cpu A (cpu\<lparr>reg := r\<rparr>);
     let count = irq_save_count cpu;
     let cpu = cpu\<lparr>irq_save_count := count + 1\<rparr>;
     Some (if count = 0 then cpu\<lparr>irq_flags := flags\<rparr> else cpu)
   }"

definition k_irq_state_restore :: "'r irq_ops \<Rightarrow> 'r kcpu \<Rightarrow> 'r kcpu option" where
  "k_irq_state_restore A cpu = do {
     k_assert (\<not> arch_is_enabled A (reg cpu));
     cpu \<leftarrow> k_cpu A cpu;
     let count = irq_save_count cpu - 1;
     let cpu = cpu\<lparr>irq_save_count := count\<rparr>;
     k_assert (count \<ge> 0);
     Some (if count = 0 then cpu\<lparr>reg := arch_state_restore A (irq_flags cpu) (reg cpu)\<rparr> else cpu)
   }"

subsection \<open>Spinlocks\<close>

text \<open>Where a CPU is in its use of the lock.\<close>

datatype spin_pc = Outside | Spinning | Taken | Critical | Clearing | Freed

record 'r spin =
  cpus :: "nat \<Rightarrow> 'r kcpu"
  locked :: bool
  holder :: "nat option"
  pc :: "nat \<Rightarrow> spin_pc"
  nested :: "nat \<Rightarrow> nat"

definition k_spinlock_init :: "'r spin \<Rightarrow> 'r spin" where
  "k_spinlock_init s = s\<lparr>locked := False, holder := None\<rparr>"

definition k_spinlock_holding :: "'r irq_ops \<Rightarrow> nat \<Rightarrow> 'r spin \<Rightarrow> (bool \<times> 'r spin) option" where
  "k_spinlock_holding A c s = do {
     cpu \<leftarrow> k_irq_state_save A (cpus s c);
     let r = (locked s \<and> holder s = Some c);
     cpu \<leftarrow> k_irq_state_restore A cpu;
     Some (r, s\<lparr>cpus := (cpus s)(c := cpu)\<rparr>)
   }"

text \<open>\<open>k_spinlock_acquire\<close>: up to the spinning, one exchange of \<open>k_arch_spinlock_acquire\<close>, and the rest.\<close>

definition k_spinlock_acquire_begin :: "'r irq_ops \<Rightarrow> nat \<Rightarrow> 'r spin \<Rightarrow> 'r spin option" where
  "k_spinlock_acquire_begin A c s = do {
     (h, s) \<leftarrow> k_spinlock_holding A c s;
     k_assert (\<not> h);
     cpu \<leftarrow> k_irq_state_save A (cpus s c);
     Some (s\<lparr>cpus := (cpus s)(c := cpu), pc := (pc s)(c := Spinning)\<rparr>)
   }"

definition k_arch_spinlock_try :: "nat \<Rightarrow> 'r spin \<Rightarrow> 'r spin" where
  "k_arch_spinlock_try c s =
     (if locked s then s else s\<lparr>locked := True, pc := (pc s)(c := Taken)\<rparr>)"

definition k_spinlock_acquire_end :: "nat \<Rightarrow> 'r spin \<Rightarrow> 'r spin" where
  "k_spinlock_acquire_end c s = s\<lparr>holder := Some c, pc := (pc s)(c := Critical)\<rparr>"

text \<open>\<open>k_spinlock_release\<close>: the check and the store to \<open>cpu\<close>, the store to \<open>locked\<close>, and the rest.\<close>

definition k_spinlock_release_begin :: "'r irq_ops \<Rightarrow> nat \<Rightarrow> 'r spin \<Rightarrow> 'r spin option" where
  "k_spinlock_release_begin A c s = do {
     (h, s) \<leftarrow> k_spinlock_holding A c s;
     k_assert h;
     Some (s\<lparr>holder := None, pc := (pc s)(c := Clearing)\<rparr>)
   }"

definition k_arch_spinlock_release :: "nat \<Rightarrow> 'r spin \<Rightarrow> 'r spin" where
  "k_arch_spinlock_release c s = s\<lparr>locked := False, pc := (pc s)(c := Freed)\<rparr>"

definition k_spinlock_release_end :: "'r irq_ops \<Rightarrow> nat \<Rightarrow> 'r spin \<Rightarrow> 'r spin option" where
  "k_spinlock_release_end A c s = do {
     cpu \<leftarrow> k_irq_state_restore A (cpus s c);
     Some (s\<lparr>cpus := (cpus s)(c := cpu), pc := (pc s)(c := Outside)\<rparr>)
   }"

subsection \<open>Interleavings\<close>

datatype spin_event =
    S_Acquire nat | S_Try nat | S_Own nat | S_Release nat | S_Store nat | S_Restore nat
  | S_Save_Other nat | S_Restore_Other nat | S_Enable nat

fun spin_exec :: "'r irq_ops \<Rightarrow> spin_event \<Rightarrow> 'r spin \<Rightarrow> 'r spin option" where
  "spin_exec A (S_Acquire c) s = k_spinlock_acquire_begin A c s"
| "spin_exec A (S_Try c) s = Some (k_arch_spinlock_try c s)"
| "spin_exec A (S_Own c) s = Some (k_spinlock_acquire_end c s)"
| "spin_exec A (S_Release c) s = k_spinlock_release_begin A c s"
| "spin_exec A (S_Store c) s = Some (k_arch_spinlock_release c s)"
| "spin_exec A (S_Restore c) s = k_spinlock_release_end A c s"
| "spin_exec A (S_Save_Other c) s = do {
     cpu \<leftarrow> k_irq_state_save A (cpus s c);
     Some (s\<lparr>cpus := (cpus s)(c := cpu), nested := (nested s)(c := nested s c + 1)\<rparr>)
   }"
| "spin_exec A (S_Restore_Other c) s = do {
     cpu \<leftarrow> k_irq_state_restore A (cpus s c);
     Some (s\<lparr>cpus := (cpus s)(c := cpu), nested := (nested s)(c := nested s c - 1)\<rparr>)
   }"
| "spin_exec A (S_Enable c) s =
     Some (s\<lparr>cpus := (cpus s)(c := (cpus s c)\<lparr>reg := arch_enable A (reg (cpus s c))\<rparr>)\<rparr>)"

text \<open>When a CPU can make a step.  The sections of other locks nest; interrupts are enabled
  explicitly only outside all sections (\<open>k_task_run\<close> and \<open>k_sched_idle\<close>).\<close>

fun spin_enabled :: "spin_event \<Rightarrow> 'r spin \<Rightarrow> bool" where
  "spin_enabled (S_Acquire c) s \<longleftrightarrow> pc s c = Outside"
| "spin_enabled (S_Try c) s \<longleftrightarrow> pc s c = Spinning"
| "spin_enabled (S_Own c) s \<longleftrightarrow> pc s c = Taken"
| "spin_enabled (S_Release c) s \<longleftrightarrow> pc s c = Critical"
| "spin_enabled (S_Store c) s \<longleftrightarrow> pc s c = Clearing"
| "spin_enabled (S_Restore c) s \<longleftrightarrow> pc s c = Freed"
| "spin_enabled (S_Save_Other c) s \<longleftrightarrow> True"
| "spin_enabled (S_Restore_Other c) s \<longleftrightarrow> nested s c > 0"
| "spin_enabled (S_Enable c) s \<longleftrightarrow> pc s c = Outside \<and> nested s c = 0"

definition spin_initial :: "(nat \<Rightarrow> 'r kcpu) \<Rightarrow> 'r spin" where
  "spin_initial f = \<lparr>cpus = \<lambda>c. (f c)\<lparr>irq_save_count := 0\<rparr>, locked = False, holder = None,
     pc = \<lambda>c. Outside, nested = \<lambda>c. 0\<rparr>"

inductive spin_reachable :: "'r irq_ops \<Rightarrow> 'r spin \<Rightarrow> bool" for A where
  init: "spin_reachable A (spin_initial f)"
| step: "spin_reachable A s \<Longrightarrow> spin_enabled e s \<Longrightarrow> spin_exec A e s = Some s' \<Longrightarrow> spin_reachable A s'"

text \<open>The positions in which a CPU has set \<open>locked\<close> and not yet cleared it.\<close>

fun owns :: "spin_pc \<Rightarrow> bool" where
  "owns Taken \<longleftrightarrow> True"
| "owns Critical \<longleftrightarrow> True"
| "owns Clearing \<longleftrightarrow> True"
| "owns _ \<longleftrightarrow> False"

definition lock_wf :: "(nat \<Rightarrow> spin_pc) \<Rightarrow> bool \<Rightarrow> nat option \<Rightarrow> bool" where
  "lock_wf p l h \<longleftrightarrow> (\<forall>c. h = Some c \<longleftrightarrow> p c = Critical) \<and>
     (\<forall>c c'. owns (p c) \<longrightarrow> owns (p c') \<longrightarrow> c = c') \<and> (l \<longleftrightarrow> (\<exists>c. owns (p c)))"

lemma lock_wf_keep: "lock_wf p l h \<Longrightarrow> \<not> owns (p c) \<Longrightarrow> \<not> owns x \<Longrightarrow> lock_wf (p(c := x)) l h"
  unfolding lock_wf_def by (auto simp: fun_upd_def)

lemma lock_wf_take: "lock_wf p False h \<Longrightarrow> lock_wf (p(c := Taken)) True h"
  unfolding lock_wf_def by (auto simp: fun_upd_def) (metis owns.simps(2))

lemma lock_wf_own: "lock_wf p l h \<Longrightarrow> p c = Taken \<Longrightarrow> lock_wf (p(c := Critical)) l (Some c)"
  unfolding lock_wf_def by (auto simp: fun_upd_def) (metis owns.simps(1,2))+

lemma lock_wf_clear: "lock_wf p l h \<Longrightarrow> p c = Critical \<Longrightarrow> lock_wf (p(c := Clearing)) l None"
  unfolding lock_wf_def by (auto simp: fun_upd_def) (metis owns.simps(2))+

lemma lock_wf_free: "lock_wf p l h \<Longrightarrow> p c = Clearing \<Longrightarrow> lock_wf (p(c := Freed)) False h"
  unfolding lock_wf_def by (auto simp: fun_upd_def)

subsection \<open>The contract of a back end\<close>

locale irq_arch =
  fixes A :: "'r irq_ops"
  assumes save_disables: "\<not> arch_is_enabled A (snd (arch_state_save A r))"
    and restore_save: "arch_state_restore A (fst (arch_state_save A r)) (snd (arch_state_save A r)) = r"
    and save_again: "snd (arch_state_save A (snd (arch_state_save A r))) = snd (arch_state_save A r)"
begin

text \<open>The CPU is inside \<open>n\<close> sections; \<open>r\<close> is the register outside of them.\<close>

definition inside :: "'r \<Rightarrow> nat \<Rightarrow> 'r kcpu \<Rightarrow> bool" where
  "inside r n cpu \<longleftrightarrow> irq_save_count cpu = int n \<and>
     (if n = 0 then reg cpu = r
      else reg cpu = snd (arch_state_save A r) \<and> irq_flags cpu = fst (arch_state_save A r))"

lemma inside_masked: "inside r n cpu \<Longrightarrow> 0 < n \<Longrightarrow> \<not> arch_is_enabled A (reg cpu)"
  using save_disables by (simp add: inside_def)

lemma save_inside:
  assumes "inside r n cpu"
  shows "\<exists>cpu'. k_irq_state_save A cpu = Some cpu' \<and> inside r (Suc n) cpu'"
  using assms save_disables [of "reg cpu"] save_again [of r]
  by (auto simp: k_irq_state_save_def k_cpu_def inside_def Let_def case_prod_beta split: if_splits)

lemma restore_inside:
  assumes "inside r (Suc n) cpu"
  shows "\<exists>cpu'. k_irq_state_restore A cpu = Some cpu' \<and> inside r n cpu'"
  using assms inside_masked [OF assms] restore_save
  by (auto simp: k_irq_state_restore_def k_cpu_def inside_def Let_def)

lemma holding_inside:
  assumes "inside r n (cpus s c)"
  shows "\<exists>cpu. k_spinlock_holding A c s =
    Some (locked s \<and> holder s = Some c, s\<lparr>cpus := (cpus s)(c := cpu)\<rparr>) \<and> inside r n cpu"
proof -
  from save_inside [OF assms] obtain cpu1 where 1: "k_irq_state_save A (cpus s c) = Some cpu1"
    "inside r (Suc n) cpu1" by blast
  from restore_inside [OF 1(2)] obtain cpu2 where "k_irq_state_restore A cpu1 = Some cpu2" "inside r n cpu2"
    by blast
  with 1 show ?thesis by (intro exI [of _ cpu2]) (simp add: k_spinlock_holding_def)
qed

definition depth :: "nat \<Rightarrow> 'r spin \<Rightarrow> nat" where
  "depth c s = nested s c + (if pc s c = Outside then 0 else 1)"

definition spin_inv :: "'r spin \<Rightarrow> bool" where
  "spin_inv s \<longleftrightarrow> (\<forall>c. \<exists>r. inside r (depth c s) (cpus s c)) \<and> lock_wf (pc s) (locked s) (holder s)"

lemma spin_initial_inv: "spin_inv (spin_initial f)"
  by (auto simp: spin_inv_def spin_initial_def depth_def inside_def lock_wf_def)

text \<open>A step of CPU \<open>c\<close> that leaves the CPU at a depth that fits its position.\<close>

lemma spin_inv_step:
  assumes "spin_inv s" and "inside r n cpu" and "n = depth c s'"
    and "cpus s' = (cpus s)(c := cpu)" "\<And>c'. c' \<noteq> c \<Longrightarrow> pc s' c' = pc s c' \<and> nested s' c' = nested s c'"
    and "lock_wf (pc s') (locked s') (holder s')"
  shows "spin_inv s'"
proof -
  have "\<exists>r. inside r (depth c' s') (cpus s' c')" for c'
  proof (cases "c' = c")
    case False
    then show ?thesis using assms by (simp add: spin_inv_def depth_def)
  qed (use assms in auto)
  with assms show ?thesis by (simp add: spin_inv_def)
qed

lemma spin_inv_cpu:
  assumes "spin_inv s"
  obtains r where "inside r (depth c s) (cpus s c)" and "lock_wf (pc s) (locked s) (holder s)"
  using assms by (auto simp: spin_inv_def)

lemma lock_wf_holder: "lock_wf (pc s) (locked s) (holder s) \<Longrightarrow>
    (locked s \<and> holder s = Some c) \<longleftrightarrow> pc s c = Critical"
  unfolding lock_wf_def by (metis owns.simps(2))

lemma spin_inv_acquire:
  assumes inv: "spin_inv s" and out: "pc s c = Outside"
  shows "\<exists>s'. k_spinlock_acquire_begin A c s = Some s' \<and> spin_inv s'"
proof -
  from inv obtain r where r: "inside r (depth c s) (cpus s c)" and w: "lock_wf (pc s) (locked s) (holder s)"
    by (rule spin_inv_cpu)
  from holding_inside [OF r] obtain cpu1 where h: "k_spinlock_holding A c s =
      Some (locked s \<and> holder s = Some c, s\<lparr>cpus := (cpus s)(c := cpu1)\<rparr>)" "inside r (depth c s) cpu1" by blast
  from save_inside [OF h(2)] obtain cpu2 where 2: "k_irq_state_save A cpu1 = Some cpu2"
    "inside r (Suc (depth c s)) cpu2" by blast
  let ?s = "s\<lparr>cpus := (cpus s)(c := cpu2), pc := (pc s)(c := Spinning)\<rparr>"
  have "spin_inv ?s"
    by (rule spin_inv_step [OF inv 2(2)]) (use out w in \<open>simp_all add: depth_def lock_wf_keep\<close>)
  moreover have "k_spinlock_acquire_begin A c s = Some ?s"
    using h(1) 2(1) lock_wf_holder [OF w, of c] out by (simp add: k_spinlock_acquire_begin_def)
  ultimately show ?thesis by blast
qed

lemma spin_inv_release:
  assumes inv: "spin_inv s" and crit: "pc s c = Critical"
  shows "\<exists>s'. k_spinlock_release_begin A c s = Some s' \<and> spin_inv s'"
proof -
  from inv obtain r where r: "inside r (depth c s) (cpus s c)" and w: "lock_wf (pc s) (locked s) (holder s)"
    by (rule spin_inv_cpu)
  from holding_inside [OF r] obtain cpu1 where h: "k_spinlock_holding A c s =
      Some (locked s \<and> holder s = Some c, s\<lparr>cpus := (cpus s)(c := cpu1)\<rparr>)" "inside r (depth c s) cpu1" by blast
  let ?s = "s\<lparr>cpus := (cpus s)(c := cpu1), holder := None, pc := (pc s)(c := Clearing)\<rparr>"
  have "spin_inv ?s"
    by (rule spin_inv_step [OF inv h(2)]) (use crit lock_wf_clear [OF w crit] in \<open>simp_all add: depth_def\<close>)
  moreover have "k_spinlock_release_begin A c s = Some ?s"
    using h(1) lock_wf_holder [OF w, of c] crit by (simp add: k_spinlock_release_begin_def)
  ultimately show ?thesis by blast
qed

lemma spin_inv_release_end:
  assumes inv: "spin_inv s" and freed: "pc s c = Freed"
  shows "\<exists>s'. k_spinlock_release_end A c s = Some s' \<and> spin_inv s'"
proof -
  from inv obtain r where r: "inside r (Suc (nested s c)) (cpus s c)" and w: "lock_wf (pc s) (locked s) (holder s)"
    by (rule spin_inv_cpu [of s c]) (use freed in \<open>simp add: depth_def\<close>)
  from restore_inside [OF r] obtain cpu where cpu: "k_irq_state_restore A (cpus s c) = Some cpu"
    "inside r (nested s c) cpu" by blast
  have "spin_inv (s\<lparr>cpus := (cpus s)(c := cpu), pc := (pc s)(c := Outside)\<rparr>)"
    by (rule spin_inv_step [OF inv cpu(2)]) (use freed w in \<open>simp_all add: depth_def lock_wf_keep\<close>)
  with cpu(1) show ?thesis by (simp add: k_spinlock_release_end_def)
qed

lemma spin_inv_nested:
  assumes inv: "spin_inv s"
  shows "\<exists>s'. spin_exec A (S_Save_Other c) s = Some s' \<and> spin_inv s'"
    and "nested s c > 0 \<Longrightarrow> \<exists>s'. spin_exec A (S_Restore_Other c) s = Some s' \<and> spin_inv s'"
proof -
  from inv obtain r where r: "inside r (depth c s) (cpus s c)" and w: "lock_wf (pc s) (locked s) (holder s)"
    by (rule spin_inv_cpu)
  from save_inside [OF r] obtain cpu where cpu: "k_irq_state_save A (cpus s c) = Some cpu"
    "inside r (Suc (depth c s)) cpu" by blast
  have "spin_inv (s\<lparr>cpus := (cpus s)(c := cpu), nested := (nested s)(c := nested s c + 1)\<rparr>)"
    by (rule spin_inv_step [OF inv cpu(2)]) (use w in \<open>simp_all add: depth_def\<close>)
  with cpu(1) show "\<exists>s'. spin_exec A (S_Save_Other c) s = Some s' \<and> spin_inv s'" by simp
  assume n: "nested s c > 0"
  let ?n = "depth c s - 1"
  have "inside r (Suc ?n) (cpus s c)" using r n by (simp add: depth_def)
  from restore_inside [OF this] obtain cpu where cpu: "k_irq_state_restore A (cpus s c) = Some cpu"
    "inside r ?n cpu" by blast
  have "spin_inv (s\<lparr>cpus := (cpus s)(c := cpu), nested := (nested s)(c := nested s c - 1)\<rparr>)"
    by (rule spin_inv_step [OF inv cpu(2)]) (use w n in \<open>auto simp: depth_def\<close>)
  with cpu(1) show "\<exists>s'. spin_exec A (S_Restore_Other c) s = Some s' \<and> spin_inv s'" by simp
qed

lemma spin_exec_inv:
  assumes inv: "spin_inv s" and e: "spin_enabled e s"
  shows "\<exists>s'. spin_exec A e s = Some s' \<and> spin_inv s'"
proof -
  have same: "spin_inv s'"
    if "cpus s' = cpus s" "nested s' = nested s" "\<And>c. (pc s' c = Outside) = (pc s c = Outside)"
      "lock_wf (pc s') (locked s') (holder s')" for s'
    using inv that by (simp add: spin_inv_def depth_def)
  have w: "lock_wf (pc s) (locked s) (holder s)" using inv by (simp add: spin_inv_def)
  show ?thesis
  proof (cases e)
    case (S_Acquire c)
    with e spin_inv_acquire [OF inv, of c] show ?thesis by simp
  next
    case (S_Release c)
    with e spin_inv_release [OF inv, of c] show ?thesis by simp
  next
    case (S_Restore c)
    with e spin_inv_release_end [OF inv, of c] show ?thesis by simp
  next
    case (S_Try c)
    have "spin_inv (k_arch_spinlock_try c s)"
      using inv e S_Try lock_wf_take [of "pc s" "holder s" c] w
      by (cases "locked s") (auto simp: k_arch_spinlock_try_def intro!: same split: if_splits)
    with S_Try show ?thesis by simp
  next
    case (S_Own c)
    then show ?thesis
      using e lock_wf_own [OF w, of c] by (auto simp: k_spinlock_acquire_end_def intro!: same split: if_splits)
  next
    case (S_Store c)
    then show ?thesis
      using e lock_wf_free [OF w, of c] by (auto simp: k_arch_spinlock_release_def intro!: same split: if_splits)
  next
    case (S_Enable c)
    from inv obtain r where "inside r (depth c s) (cpus s c)" by (rule spin_inv_cpu)
    then have "inside (arch_enable A r) 0 ((cpus s c)\<lparr>reg := arch_enable A (reg (cpus s c))\<rparr>)"
      using e S_Enable by (simp add: inside_def depth_def)
    from spin_inv_step [OF inv this, of c] show ?thesis using S_Enable e w by (simp add: depth_def)
  next
    case (S_Save_Other c)
    with spin_inv_nested(1) [OF inv, of c] show ?thesis by simp
  next
    case (S_Restore_Other c)
    with e spin_inv_nested(2) [OF inv, of c] show ?thesis by simp
  qed
qed

lemma spin_reachable_inv: "spin_reachable A s \<Longrightarrow> spin_inv s"
proof (induction rule: spin_reachable.induct)
  case (step s e s')
  with spin_exec_inv [of s e] show ?case by auto
qed (rule spin_initial_inv)

lemma exclusion:
  assumes "spin_reachable A s"
  shows "pc s c = Critical \<and> pc s c' = Critical \<longrightarrow> c = c'"
    and "pc s c \<noteq> Outside \<longrightarrow> \<not> arch_is_enabled A (reg (cpus s c))"
    and "map_option fst (k_spinlock_holding A c s) = Some (pc s c = Critical)"
    and "spin_enabled e s \<longrightarrow> spin_exec A e s \<noteq> None"
proof -
  note inv = spin_reachable_inv [OF assms]
  from inv obtain r where r: "inside r (depth c s) (cpus s c)" and w: "lock_wf (pc s) (locked s) (holder s)"
    by (rule spin_inv_cpu)
  show "pc s c = Critical \<and> pc s c' = Critical \<longrightarrow> c = c'"
    using w unfolding lock_wf_def by (metis owns.simps(2))
  show "pc s c \<noteq> Outside \<longrightarrow> \<not> arch_is_enabled A (reg (cpus s c))"
    using inside_masked [OF r] by (simp add: depth_def)
  show "map_option fst (k_spinlock_holding A c s) = Some (pc s c = Critical)"
    using holding_inside [OF r] lock_wf_holder [OF w, of c] by auto
  show "spin_enabled e s \<longrightarrow> spin_exec A e s \<noteq> None" using spin_exec_inv [OF inv, of e] by auto
qed

lemma nested_sections:
  assumes "irq_save_count cpu = 0"
  shows "\<exists>cpu1. ((\<lambda>x. Option.bind x (k_irq_state_save A)) ^^ n) (Some cpu) = Some cpu1 \<and> inside (reg cpu) n cpu1"
    and "inside r n cpu1 \<Longrightarrow> \<exists>cpu2. ((\<lambda>x. Option.bind x (k_irq_state_restore A)) ^^ n) (Some cpu1) = Some cpu2 \<and>
      reg cpu2 = r \<and> irq_save_count cpu2 = 0"
proof -
  show "\<exists>cpu1. ((\<lambda>x. Option.bind x (k_irq_state_save A)) ^^ n) (Some cpu) = Some cpu1 \<and> inside (reg cpu) n cpu1"
  proof (induction n)
    case 0
    then show ?case using assms by (simp add: inside_def)
  next
    case (Suc n)
    then show ?case using save_inside by auto
  qed
  show "inside r n cpu1 \<Longrightarrow> \<exists>cpu2. ((\<lambda>x. Option.bind x (k_irq_state_restore A)) ^^ n) (Some cpu1) = Some cpu2 \<and>
      reg cpu2 = r \<and> irq_save_count cpu2 = 0"
  proof (induction n arbitrary: cpu1)
    case 0
    then show ?case by (simp add: inside_def)
  next
    case (Suc n)
    from restore_inside [OF Suc.prems] obtain cpu where "k_irq_state_restore A cpu1 = Some cpu" "inside r n cpu"
      by blast
    with Suc.IH [of cpu] show ?case by (simp add: funpow_swap1 [of _ n] del: funpow.simps) (simp add: funpow_Suc_right del: funpow.simps)
  qed
qed

end

subsection \<open>Both back ends satisfy it\<close>

interpretation arm_irq: irq_arch arm
proof unfold_locales
  fix r :: u32
  show "\<not> arch_is_enabled arm (snd (arch_state_save arm r))"
    by (auto simp: arm_def arm_irq_is_enabled_def arm_irq_state_save_def bit_eq_iff bit_simps)
  show "arch_state_restore arm (fst (arch_state_save arm r)) (snd (arch_state_save arm r)) = r"
    by (auto simp: arm_def arm_irq_state_save_def arm_irq_state_restore_def bit_eq_iff bit_simps)
  show "snd (arch_state_save arm (snd (arch_state_save arm r))) = snd (arch_state_save arm r)"
    by (simp add: arm_def arm_irq_state_save_def ac_simps)
qed

lemma bit_EFLAGS_IF: "bit EFLAGS_IF n \<longleftrightarrow> n = 9"
  unfolding EFLAGS_IF_def bit_push_bit_iff bit_1_iff by auto

lemma and_EFLAGS_IF: "(r :: u32) AND EFLAGS_IF = 0 \<longleftrightarrow> \<not> bit r 9"
proof
  assume "r AND EFLAGS_IF = 0"
  moreover have "bit (r AND EFLAGS_IF) 9 = bit r 9" by (simp add: bit_and_iff bit_EFLAGS_IF)
  ultimately show "\<not> bit r 9" by simp
next
  assume "\<not> bit r 9"
  then show "r AND EFLAGS_IF = 0" by (intro bit_word_eqI) (auto simp: bit_and_iff bit_EFLAGS_IF)
qed

interpretation i386_irq: irq_arch i386
proof unfold_locales
  fix r :: u32
  show "\<not> arch_is_enabled i386 (snd (arch_state_save i386 r))"
    by (auto simp: i386_def i386_irq_is_enabled_def i386_irq_state_save_def i386_irq_disable_def bit_eq_iff bit_simps)
  show "arch_state_restore i386 (fst (arch_state_save i386 r)) (snd (arch_state_save i386 r)) = r"
    by (auto simp: i386_def i386_irq_state_save_def i386_irq_state_restore_def i386_irq_disable_def
        i386_irq_enable_def and_EFLAGS_IF bit_and_iff bit_EFLAGS_IF intro!: bit_word_eqI)
      (auto simp: bit_simps bit_EFLAGS_IF)
  show "snd (arch_state_save i386 (snd (arch_state_save i386 r))) = snd (arch_state_save i386 r)"
    by (simp add: i386_def i386_irq_state_save_def i386_irq_disable_def ac_simps)
qed

subsection \<open>Properties\<close>








text \<open>
  C14: Critical sections nest.  After any number of \<open>k_irq_state_save\<close> calls and as many
  \<open>k_irq_state_restore\<close> calls the status register has its first value, on ARM and on i386, and
  in between interrupts are off.
\<close>

theorem irq_sections_nest:
  assumes "A = arm \<or> A = i386" and "irq_save_count cpu = 0"
  shows "\<exists>cpu1 cpu2. ((\<lambda>x. Option.bind x (k_irq_state_save A)) ^^ n) (Some cpu) = Some cpu1 \<and>
    (0 < n \<longrightarrow> \<not> arch_is_enabled A (reg cpu1)) \<and>
    ((\<lambda>x. Option.bind x (k_irq_state_restore A)) ^^ n) (Some cpu1) = Some cpu2 \<and>
    reg cpu2 = reg cpu \<and> irq_save_count cpu2 = 0"
  using assms(1)
proof
  assume A: "A = arm"
  from arm_irq.nested_sections(1) [OF assms(2), of n] obtain cpu1 where
    "((\<lambda>x. Option.bind x (k_irq_state_save arm)) ^^ n) (Some cpu) = Some cpu1" "arm_irq.inside (reg cpu) n cpu1"
    by blast
  with arm_irq.nested_sections(2) [OF assms(2) this(2)] arm_irq.inside_masked [OF this(2)] show ?thesis
    unfolding A by blast
next
  assume A: "A = i386"
  from i386_irq.nested_sections(1) [OF assms(2), of n] obtain cpu1 where
    "((\<lambda>x. Option.bind x (k_irq_state_save i386)) ^^ n) (Some cpu) = Some cpu1" "i386_irq.inside (reg cpu) n cpu1"
    by blast
  with i386_irq.nested_sections(2) [OF assms(2) this(2)] i386_irq.inside_masked [OF this(2)] show ?thesis
    unfolding A by blast
qed

theorem irq_sections_nest_witness:
  "\<exists>cpu1 cpu2. ((\<lambda>x. Option.bind x (k_irq_state_save i386)) ^^ 3) (Some \<lparr>reg = 514, irq_save_count = 0, irq_flags = 0\<rparr>) =
     Some cpu1 \<and> \<not> i386_irq_is_enabled (reg cpu1) \<and>
     ((\<lambda>x. Option.bind x (k_irq_state_restore i386)) ^^ 3) (Some cpu1) = Some cpu2 \<and> reg cpu2 = 514"
proof -
  have "arch_is_enabled i386 = i386_irq_is_enabled" by (simp add: i386_def)
  then show ?thesis
    using irq_sections_nest [of i386 "\<lparr>reg = 514, irq_save_count = 0, irq_flags = 0\<rparr>" 3] by auto
qed

end
