(* ===== verification/K_Timer.thy ===== *)
theory K_Timer
  imports K_Kernel
begin

section \<open>Timers and the system tick\<close>

text \<open>
  Models \<open>kernel/core/timer.c\<close> and \<open>kernel/core/tick.c\<close>.  A timer is a queue entry with a callback, a
  delay and a period.  The lock of the timer queue is released while a callback runs, so
  what happens during this time (the callback and the calls of other CPUs) is the parameter
  \<open>run\<close>, which works on the whole timer state; \<open>'w\<close> is the state of the callbacks' owners.

  A timer that is not in the queue is one whose link is null; \<open>k_timer_create\<close> is for such a timer.
\<close>

record 'a ktimer =
  timer_valid :: bool
  callback :: 'a
  delay :: int
  period :: int

record 'a timers =
  timer :: "nat \<Rightarrow> 'a ktimer"
  timer_current :: "nat option"

type_synonym ('w, 'a) timer_state = "('w \<times> 'a timers) \<times> nat tqueue"

abbreviation upd_timer :: "nat \<Rightarrow> ('a ktimer \<Rightarrow> 'a ktimer) \<Rightarrow> 'a timers \<Rightarrow> 'a timers" where
  "upd_timer t f ts \<equiv> ts\<lparr>timer := (timer ts)(t := f (timer ts t))\<rparr>"

subsection \<open>Operations\<close>

definition k_timer_create ::
  "nat \<Rightarrow> 'a \<Rightarrow> int \<Rightarrow> int \<Rightarrow> ('w, 'a) timer_state \<Rightarrow> int \<times> ('w, 'a) timer_state" where
  "k_timer_create t cb dly per = (\<lambda>((w, ts), q). (0, (w,
     upd_timer t (\<lambda>x. \<lparr>timer_valid = True, callback = cb, delay = dly, period = per\<rparr>) ts), q))"

definition k_timer_enqueue :: "nat \<Rightarrow> int \<Rightarrow> ('w, 'a) timer_state \<Rightarrow> ('w, 'a) timer_state option" where
  "k_timer_enqueue t d = (\<lambda>(s, q). do { q \<leftarrow> timeout_queue_add t d q; Some (s, q) })"

definition k_timer_dequeue :: "nat \<Rightarrow> ('w, 'a) timer_state \<Rightarrow> ('w, 'a) timer_state option" where
  "k_timer_dequeue t = (\<lambda>(s, q). do { q \<leftarrow> timeout_queue_remove t q; Some (s, q) })"

definition k_timer_start :: "nat \<Rightarrow> ('w, 'a) timer_state \<Rightarrow> (int \<times> ('w, 'a) timer_state) option" where
  "k_timer_start t = (\<lambda>((w, ts), q). do {
     k_assert (timer_valid (timer ts t));
     if t \<in> fst ` set q then Some (- EINVAL, (w, ts), q)
     else do {
       sq \<leftarrow> k_timer_enqueue t (delay (timer ts t)) ((w, ts), q);
       Some (0, sq)
     }
   })"

definition k_timer_stop :: "nat \<Rightarrow> ('w, 'a) timer_state \<Rightarrow> (int \<times> ('w, 'a) timer_state) option" where
  "k_timer_stop t = (\<lambda>((w, ts), q). do {
     k_assert (timer_valid (timer ts t));
     if t \<in> fst ` set q then do { sq \<leftarrow> k_timer_dequeue t ((w, ts), q); Some (0, sq) }
     else if timer_current ts = Some t then Some (0, (w, ts\<lparr>timer_current := None\<rparr>), q)
     else Some (0, (w, ts), q)
   })"

definition k_timer_destroy :: "nat \<Rightarrow> ('w, 'a) timer_state \<Rightarrow> (int \<times> ('w, 'a) timer_state) option" where
  "k_timer_destroy t sq = do {
     (_, (w, ts), q) \<leftarrow> k_timer_stop t sq;
     Some (0, (w, upd_timer t (\<lambda>x. x\<lparr>timer_valid := False\<rparr>) ts), q)
   }"

definition k_timer_timeout ::
  "('a \<Rightarrow> ('w, 'a) timer_state \<Rightarrow> ('w, 'a) timer_state option) \<Rightarrow>
   nat \<Rightarrow> ('w, 'a) timer_state \<Rightarrow> ('w, 'a) timer_state option" where
  "k_timer_timeout run t = (\<lambda>((w, ts), q). do {
     ((w, ts), q) \<leftarrow> run (callback (timer ts t)) ((w, ts\<lparr>timer_current := Some t\<rparr>), q);
     case timer_current ts of
       None \<Rightarrow> Some ((w, ts), q)
     | Some t' \<Rightarrow> do {
         k_assert (t' = t);
         ((w, ts), q) \<leftarrow> (if period (timer ts t) \<noteq> 0
           then k_timer_enqueue t (period (timer ts t)) ((w, ts), q) else Some ((w, ts), q));
         Some ((w, ts\<lparr>timer_current := None\<rparr>), q)
       }
   })"

definition k_timer_adjust_timeouts ::
  "nat \<Rightarrow> ('a \<Rightarrow> ('w, 'a) timer_state \<Rightarrow> ('w, 'a) timer_state option) \<Rightarrow>
   int \<Rightarrow> ('w, 'a) timer_state \<Rightarrow> ('w, 'a) timer_state option" where
  "k_timer_adjust_timeouts fuel run ticks sq = timeout_queue_adjust fuel (k_timer_timeout run) ticks sq"

subsection \<open>The tick\<close>

record ('w, 'a) clock =
  sched_state :: sched
  timer_state :: "('w, 'a) timer_state"
  tick_counter :: int
  tick_prev_counter :: int

definition k_tick ::
  "nat \<Rightarrow> ('a \<Rightarrow> ('w, 'a) timer_state \<Rightarrow> ('w, 'a) timer_state option) \<Rightarrow> bool \<Rightarrow> cpu_id \<Rightarrow>
   ('w, 'a) clock \<Rightarrow> ('w, 'a) clock option" where
  "k_tick fuel run irq_enabled c k = do {
     k_assert (\<not> irq_enabled);
     s \<leftarrow> k_sched_check_quantum c (sched_state k);
     let k = k\<lparr>sched_state := s\<rparr>;
     if c \<noteq> 0 then Some k
     else do {
       let k = k\<lparr>tick_counter := tick_counter k + 1\<rparr>;
       let delta_tick = tick_counter k - tick_prev_counter k;
       let k = k\<lparr>tick_prev_counter := tick_counter k\<rparr>;
       s \<leftarrow> k_sched_adjust_timeouts c delta_tick (sched_state k);
       t \<leftarrow> k_timer_adjust_timeouts fuel run delta_tick (timer_state k);
       Some (k\<lparr>sched_state := s, timer_state := t\<rparr>)
     }
   }"

definition k_tick_get :: "('w, 'a) clock \<Rightarrow> int" where
  "k_tick_get k = tick_counter k"

definition k_tick_set :: "int \<Rightarrow> ('w, 'a) clock \<Rightarrow> ('w, 'a) clock" where
  "k_tick_set counter k = k\<lparr>tick_counter := counter\<rparr>"

subsection \<open>Deadlines\<close>

definition dl :: "nat tqueue \<Rightarrow> nat \<Rightarrow> int option" where
  "dl q = map_of (deadlines q)"

lemma dl_Nil [simp]: "dl [] = Map.empty"
  by (simp add: dl_def deadlines_def)

lemma map_of_filter_split:
  assumes "distinct (map fst xs)" and "e \<notin> fst ` set xs"
  shows "map_of (filter P xs @ (e, r) # filter (\<lambda>x. \<not> P x) xs) = (map_of xs)(e \<mapsto> r)"
proof -
  have sub: "fst ` set (filter Q xs) \<subseteq> fst ` set xs" for Q by auto
  have "fst ` set (filter P xs) \<inter> fst ` set (filter (\<lambda>x. \<not> P x) xs) = {}"
    using assms(1) by (auto simp: distinct_map inj_on_def)
  then have "distinct (map fst (filter P xs @ (e, r) # filter (\<lambda>x. \<not> P x) xs))"
    using assms sub [of P] sub [of "\<lambda>x. \<not> P x"] by (auto simp: distinct_map_filter)
  then have "map_of (filter P xs @ (e, r) # filter (\<lambda>x. \<not> P x) xs) = map_of ((e, r) # xs)"
    using assms by (subst map_of_inject_set) auto
  then show ?thesis by simp
qed

lemma fst_set_deadlines: "fst ` set (deadlines_from a q) = fst ` set q"
  by (simp only: list.set_map [symmetric] fst_deadlines_from)

lemma dl_insert:
  assumes "\<forall>x\<in>set q. 0 \<le> snd x" and "distinct (map fst q)" and "e \<notin> fst ` set q"
  shows "dl (timeout_insert e r q) = (dl q)(e \<mapsto> r)"
proof -
  have "distinct (map fst (deadlines_from 0 q))" "e \<notin> fst ` set (deadlines_from 0 q)"
    using assms by (simp_all add: fst_set_deadlines)
  from map_of_filter_split [OF this, of "\<lambda>x. snd x \<le> r" r] show ?thesis
    using deadlines_insert_from [OF assms(1), of 0 e r] by (simp add: dl_def deadlines_def not_le)
qed

lemma dl_Cons_0: "dl ((e, 0) # q) = (dl q)(e \<mapsto> 0)"
  by (simp add: dl_def deadlines_def)

lemma dl_dom: "dl q t = None \<longleftrightarrow> t \<notin> fst ` set q"
  by (simp add: dl_def deadlines_def map_of_eq_None_iff fst_set_deadlines)

lemma dl_sub: "dl ((e, r - d) # q) t = map_option (\<lambda>x. x - d) (dl ((e, r) # q) t)"
proof -
  have "deadlines_from 0 ((e, r - d) # q) = map (\<lambda>(e, x). (e, x - d)) (deadlines_from 0 ((e, r) # q))"
    using deadlines_from_shift [of "- d" r q] by simp
  moreover have "map_of (map (\<lambda>(e, x). (e, x - d)) xs) t = map_option (\<lambda>x. x - d) (map_of xs t)"
    for xs :: "(nat \<times> int) list" by (induction xs) auto
  ultimately show ?thesis by (simp add: dl_def deadlines_def del: deadlines_from.simps)
qed

subsection \<open>One tick\<close>

text \<open>Callbacks that work on their own state only.\<close>

definition harmless ::
  "('a \<Rightarrow> ('w, 'a) timer_state \<Rightarrow> ('w, 'a) timer_state option) \<Rightarrow> ('a \<Rightarrow> 'w \<Rightarrow> 'w) \<Rightarrow> bool" where
  "harmless run f \<longleftrightarrow> (\<forall>cb w ts q. run cb ((w, ts), q) = Some ((f cb w, ts), q))"

definition timer_inv :: "'a timers \<Rightarrow> nat tqueue \<Rightarrow> bool" where
  "timer_inv ts q \<longleftrightarrow> timer_current ts = None \<and> (\<forall>t. 0 \<le> period (timer ts t)) \<and>
     (\<forall>x\<in>set q. 0 \<le> snd x) \<and> distinct (map fst q)"

definition call :: "('a \<Rightarrow> 'w \<Rightarrow> 'w) \<Rightarrow> 'a timers \<Rightarrow> nat \<Rightarrow> 'w \<Rightarrow> 'w" where
  "call f ts t w = f (callback (timer ts t)) w"

text \<open>The entry of a timer that expired: it goes back into the queue if the timer is periodic.\<close>

definition requeue :: "'a timers \<Rightarrow> nat \<Rightarrow> nat tqueue \<Rightarrow> nat tqueue" where
  "requeue ts t q = (if period (timer ts t) = 0 then q else timeout_insert t (period (timer ts t)) q)"

lemma k_timer_timeout_eq:
  assumes "harmless run f" and "timer_inv ts q" and "t \<notin> fst ` set q"
  shows "k_timer_timeout run t ((w, ts), q) = Some ((call f ts t w, ts), requeue ts t q)"
proof -
  have "0 \<le> period (timer ts t)" "timer_current ts = None" using assms(2) by (simp_all add: timer_inv_def)
  moreover have "ts\<lparr>timer_current := None\<rparr> = ts" if "timer_current ts = None" using that by (cases ts) simp
  ultimately show ?thesis
    using assms by (simp add: k_timer_timeout_def harmless_def requeue_def call_def k_timer_enqueue_def
        timeout_queue_add_def)
qed

lemma timeout_insert_zeros:
  "0 < r \<Longrightarrow> takeWhile (\<lambda>x. snd x = 0) (timeout_insert e r q) = takeWhile (\<lambda>x. snd x = 0) q"
  by (induction e r q rule: timeout_insert.induct) auto

lemma requeue_props:
  assumes "timer_inv ts q" and "t \<notin> fst ` set q"
  shows "timer_inv ts (requeue ts t q)"
    and "takeWhile (\<lambda>x. snd x = 0) (requeue ts t q) = takeWhile (\<lambda>x. snd x = 0) q"
    and "dl (requeue ts t q) = (dl q)(t := if period (timer ts t) = 0 then None else Some (period (timer ts t)))"
proof -
  have p: "0 \<le> period (timer ts t)" using assms(1) by (simp add: timer_inv_def)
  with assms timeout_insert_distinct [of q t "period (timer ts t)"] timeout_insert_nonneg [of q "period (timer ts t)" t]
  show "timer_inv ts (requeue ts t q)" by (simp add: timer_inv_def requeue_def)
  from p show "takeWhile (\<lambda>x. snd x = 0) (requeue ts t q) = takeWhile (\<lambda>x. snd x = 0) q"
    by (auto simp: requeue_def timeout_insert_zeros)
  have "dl q t = None" using assms(2) by (simp add: dl_dom)
  with assms dl_insert [of q t] show
    "dl (requeue ts t q) = (dl q)(t := if period (timer ts t) = 0 then None else Some (period (timer ts t)))"
    by (auto simp: requeue_def timer_inv_def)
qed

definition zeros :: "nat tqueue \<Rightarrow> nat list" where
  "zeros q = map fst (takeWhile (\<lambda>x. snd x = 0) q)"

text \<open>The deadline of a timer after the entries that are due were taken out.\<close>

definition next_deadline :: "'a timers \<Rightarrow> nat \<Rightarrow> int \<Rightarrow> int option" where
  "next_deadline ts t d = (if d \<noteq> 0 then Some d
     else if period (timer ts t) = 0 then None else Some (period (timer ts t)))"

lemma timer_drain:
  assumes "harmless run f"
  shows "timer_inv ts q \<Longrightarrow> length (zeros q) < fuel \<Longrightarrow>
    \<exists>q'. timeout_drain fuel (k_timer_timeout run) ((w, ts), q) = Some ((fold (call f ts) (zeros q) w, ts), q') \<and>
      timer_inv ts q' \<and> (q' \<noteq> [] \<longrightarrow> 0 < snd (hd q')) \<and>
      (\<forall>t. dl q' t = Option.bind (dl q t) (next_deadline ts t))"
proof (induction "length (zeros q)" arbitrary: q w fuel)
  case 0
  then obtain g where g: "fuel = Suc g" by (cases fuel) auto
  have *: "q \<noteq> [] \<longrightarrow> snd (hd q) \<noteq> 0" using 0(1) by (cases q) (auto simp: zeros_def)
  moreover have "q \<noteq> [] \<longrightarrow> 0 \<le> snd (hd q)" using 0(2) by (cases q) (auto simp: timer_inv_def)
  ultimately have pos: "q \<noteq> [] \<longrightarrow> 0 < snd (hd q)" by linarith
  have "dl q t = Option.bind (dl q t) (next_deadline ts t)" for t
  proof (cases "dl q t")
    case (Some d)
    have "d \<noteq> 0"
    proof (cases q)
      case (Cons x q')
      obtain e r where x: "x = (e, r)" by (cases x)
      from Some have "(t, d) \<in> set (deadlines_from 0 q)" by (simp add: dl_def deadlines_def map_of_SomeD)
      then have "r \<le> d" using deadlines_from_ge [of q' "(t, d)" r] 0(2) Cons x by (auto simp: timer_inv_def)
      with pos Cons x show ?thesis by simp
    qed (use Some in simp)
    with Some show ?thesis by (simp add: next_deadline_def)
  qed simp
  with 0 * pos g show ?case by (cases q) (auto simp: zeros_def)
next
  case (Suc n)
  then obtain e q1 where q: "q = (e, 0) # q1" by (cases q) (auto simp: zeros_def split: if_splits)
  from Suc.prems obtain g where g: "fuel = Suc g" by (cases fuel) auto
  have inv1: "timer_inv ts q1" and e: "e \<notin> fst ` set q1" using Suc.prems(1) q by (auto simp: timer_inv_def)
  note r = requeue_props [OF inv1 e]
  have z: "zeros q = e # zeros q1" "zeros (requeue ts e q1) = zeros q1" using q r(2) by (simp_all add: zeros_def)
  have "n = length (zeros (requeue ts e q1))" "length (zeros (requeue ts e q1)) < g"
    using Suc.hyps(2) Suc.prems(2) z g by simp_all
  from Suc.hyps(1) [OF this(1) r(1) this(2), of "call f ts e w"] obtain q' where
    q': "timeout_drain g (k_timer_timeout run) ((call f ts e w, ts), requeue ts e q1) =
        Some ((fold (call f ts) (zeros q1) (call f ts e w), ts), q')" "timer_inv ts q'"
      "q' \<noteq> [] \<longrightarrow> 0 < snd (hd q')" "\<forall>t. dl q' t = Option.bind (dl (requeue ts e q1) t) (next_deadline ts t)"
    unfolding z by blast
  have "dl q' t = Option.bind (dl q t) (next_deadline ts t)" for t
    using q'(4) r(3) by (simp add: q dl_Cons_0 next_deadline_def)
  with q' z g q k_timer_timeout_eq [OF assms inv1 e, of w] show ?case by auto
qed

lemma zeros_fired: "\<forall>x\<in>set q. 0 \<le> snd x \<Longrightarrow> zeros q = fired 0 q"
proof (induction q)
  case (Cons x q)
  then show ?case by (cases x) (auto simp: zeros_def)
qed (simp add: zeros_def)

lemma tq_inv_timer_inv: "tq_inv q \<Longrightarrow> timer_current ts = None \<Longrightarrow> \<forall>t. 0 \<le> period (timer ts t) \<Longrightarrow> timer_inv ts q"
  by (simp add: tq_inv_def timer_inv_def)

lemma deadline_ge_head:
  assumes "tq_inv ((e, r) # q)" and "dl ((e, r) # q) t = Some d"
  shows "r \<le> d"
proof -
  from assms(2) have "(t, d) \<in> set (deadlines_from 0 ((e, r) # q))"
    unfolding dl_def deadlines_def by (rule map_of_SomeD)
  then show ?thesis using deadlines_from_ge [of q "(t, d)" r] assms(1) by (auto simp: tq_inv_def)
qed

lemma timer_tick:
  assumes run: "harmless run f" and cur: "timer_current ts = None" "\<forall>t. 0 \<le> period (timer ts t)"
    and inv: "tq_inv q" and fuel: "length q + 2 < fuel"
  shows "\<exists>q'. k_timer_adjust_timeouts fuel run 1 ((w, ts), q) = Some ((fold (call f ts) (fired 1 q) w, ts), q') \<and>
    tq_inv q' \<and> (\<forall>t. dl q' t = Option.bind (dl q t) (\<lambda>d. next_deadline ts t (d - 1)))"
proof (cases q)
  case Nil
  then show ?thesis by (simp add: k_timer_adjust_timeouts_def timeout_queue_adjust_def)
next
  case (Cons x q1)
  obtain e r where x: "x = (e, r)" by (cases x)
  with Cons have q: "q = (e, r) # q1" by simp
  have r: "1 \<le> r" using inv q by (simp add: tq_inv_def)
  obtain g where g: "fuel = Suc g" "length q1 + 2 < g" using fuel q by (cases fuel) auto
  show ?thesis
  proof (cases "1 < r")
    case True
    let ?q = "(e, r - 1) # q1"
    have "k_timer_adjust_timeouts fuel run 1 ((w, ts), q) = Some ((w, ts), ?q)"
      using True q g by (simp add: k_timer_adjust_timeouts_def timeout_queue_adjust_def)
    moreover have "tq_inv ?q" using inv True q by (simp add: tq_inv_def)
    moreover have "dl ?q t = Option.bind (dl q t) (\<lambda>d. next_deadline ts t (d - 1))" for t
      unfolding dl_sub q using deadline_ge_head [OF inv [unfolded q], of t] True
      by (cases "dl ((e, r) # q1) t") (auto simp: next_deadline_def)
    ultimately show ?thesis using True q by auto
  next
    case False
    with r have r1: "r = 1" by simp
    let ?q = "(e, 0) # q1"
    have inv0: "timer_inv ts ?q" using inv q cur by (simp add: tq_inv_def timer_inv_def)
    have "zeros ?q = fired 1 q" using zeros_fired [of q1] inv q r1 by (simp add: zeros_def tq_inv_def)
    moreover have "length (zeros ?q) < g" using g(2) length_takeWhile_le [of "\<lambda>x. snd x = 0" q1]
      by (simp add: zeros_def)
    ultimately obtain q' where
      d: "timeout_drain g (k_timer_timeout run) ((w, ts), ?q) = Some ((fold (call f ts) (fired 1 q) w, ts), q')"
        "timer_inv ts q'" "q' \<noteq> [] \<longrightarrow> 0 < snd (hd q')" "\<forall>t. dl q' t = Option.bind (dl ?q t) (next_deadline ts t)"
      using timer_drain [OF run inv0, of g w] by auto
    have "tq_inv q'" using d(2,3) by (simp add: tq_inv_def timer_inv_def)
    moreover have "dl q' t = Option.bind (dl q t) (\<lambda>d. next_deadline ts t (d - 1))" for t
      using d(4) dl_sub [of e 1 1 q1 t] q r1 by (cases "dl q t") auto
    moreover have "timeout_ticks g (k_timer_timeout run) 0 ((v, ts), q') = Some ((v, ts), q')" for v
      using g by (cases g) auto
    then have "k_timer_adjust_timeouts fuel run 1 ((w, ts), q) = Some ((fold (call f ts) (fired 1 q) w, ts), q')"
      using d(1) q r1 g by (simp add: k_timer_adjust_timeouts_def timeout_queue_adjust_def)
    ultimately show ?thesis by blast
  qed
qed





subsection \<open>Properties\<close>

text \<open>
  C15: A tick treats every timer by its own deadline, whatever the other timers do.  Exactly the
  timers with one tick left are called, in the order of the queue; those with a period start
  anew with the full period, the others leave the queue, and the rest come one tick closer.
  The callbacks are assumed to leave the timers alone.
\<close>

theorem timer_tick_exact:
  assumes "harmless run f" and "timer_current ts = None" and "\<forall>t. 0 \<le> period (timer ts t)"
    and "tq_inv q" and "length q + 2 < fuel"
  shows "\<exists>q'. k_timer_adjust_timeouts fuel run 1 ((w, ts), q) =
      Some ((fold (\<lambda>t. f (callback (timer ts t))) (map fst (filter (\<lambda>x. snd x \<le> 1) (deadlines q))) w, ts), q') \<and>
    tq_inv q' \<and> (\<forall>t. dl q' t = (case dl q t of None \<Rightarrow> None | Some d \<Rightarrow>
      if d \<noteq> 1 then Some (d - 1) else if period (timer ts t) = 0 then None else Some (period (timer ts t))))"
proof -
  from timer_tick [OF assms, of w] obtain q' where
    "k_timer_adjust_timeouts fuel run 1 ((w, ts), q) = Some ((fold (call f ts) (fired 1 q) w, ts), q')" "tq_inv q'"
    "\<forall>t. dl q' t = Option.bind (dl q t) (\<lambda>d. next_deadline ts t (d - 1))" by blast
  moreover have "call f ts = (\<lambda>t. f (callback (timer ts t)))" by (rule ext)+ (simp add: call_def)
  moreover have "dl q' t = (case dl q t of None \<Rightarrow> None | Some d \<Rightarrow>
      if d \<noteq> 1 then Some (d - 1) else if period (timer ts t) = 0 then None else Some (period (timer ts t)))" for t
    using calculation(3) by (cases "dl q t") (simp_all add: next_deadline_def)
  ultimately show ?thesis using fired_deadlines [OF assms(4), of 1] by auto
qed

text \<open>Timer 7 is periodic, timer 2 fires once; callbacks append their argument to a log.\<close>

definition log_run :: "nat \<Rightarrow> (nat list, nat) timer_state \<Rightarrow> (nat list, nat) timer_state option" where
  "log_run cb = (\<lambda>((w, ts), q). Some ((w @ [cb], ts), q))"

definition two_timers :: "nat timers" where
  "two_timers = \<lparr>timer = (\<lambda>t. \<lparr>timer_valid = True, callback = 10 * t, delay = 3, period = 0\<rparr>)
     (7 := \<lparr>timer_valid = True, callback = 10, delay = 1, period = 5\<rparr>), timer_current = None\<rparr>"

lemma log_run_harmless: "harmless log_run (\<lambda>cb w. w @ [cb])"
  by (simp add: harmless_def log_run_def)

theorem timer_tick_exact_witness:
  "\<exists>q'. k_timer_adjust_timeouts 9 log_run 1 (([], two_timers), [(2, 1), (7, 0), (3, 4)]) =
     Some (([20, 10], two_timers), q') \<and> dl q' 7 = Some 5 \<and> dl q' 2 = None \<and> dl q' 3 = Some 4"
proof -
  let ?q = "[(2, 1), (7, 0), (3, 4)] :: nat tqueue"
  have 1: "timer_current two_timers = None" "\<forall>t. 0 \<le> period (timer two_timers t)" "tq_inv ?q" "length ?q + 2 < 9"
    by (simp_all add: two_timers_def tq_inv_def)
  have 2: "map fst (filter (\<lambda>x. snd x \<le> 1) (deadlines ?q)) = [2, 7]" "dl ?q 7 = Some 1" "dl ?q 2 = Some 1"
    "dl ?q 3 = Some 5" by (simp_all add: deadlines_def dl_def)
  have 3: "callback (timer two_timers 2) = 20" "callback (timer two_timers 7) = 10" "period (timer two_timers 7) = 5"
    "period (timer two_timers 2) = 0" by (simp_all add: two_timers_def)
  from timer_tick_exact [OF log_run_harmless 1, of "[]"] obtain q' where
    q': "k_timer_adjust_timeouts 9 log_run 1 (([], two_timers), ?q) = Some (([20, 10], two_timers), q')"
    "\<forall>t. dl q' t = (case dl ?q t of None \<Rightarrow> None | Some d \<Rightarrow> if d \<noteq> 1 then Some (d - 1)
      else if period (timer two_timers t) = 0 then None else Some (period (timer two_timers t)))"
    unfolding 2 by (auto simp: 3)
  from q'(2) [rule_format, of 7] q'(2) [rule_format, of 2] q'(2) [rule_format, of 3] q'(1) show ?thesis
    unfolding 2 3 by simp
qed



text \<open>
  C17: A clock interrupt on the master CPU, from any reachable state of the kernel core and with the tick
  counter not set by hand since the last one, never panics and advances time by one for
  everybody: the counter, the sleeping tasks' timeouts, and the timers.
\<close>

theorem k_tick_advances_one:
  assumes "reachable (sched_state k)" and "slock (sched_state k) = None"
    and "tick_prev_counter k = tick_counter k" and "timer_state k = ((w, ts), q)"
    and "harmless run f" and "timer_current ts = None" and "\<forall>t. 0 \<le> period (timer ts t)"
    and "tq_inv q" and "length q + 2 < fuel"
  shows "\<exists>k' w' q'. k_tick fuel run False 0 k = Some k' \<and> reachable (sched_state k') \<and>
    k_tick_get k' = k_tick_get k + 1 \<and> tick_prev_counter k' = tick_counter k' \<and>
    timeouts (sched_state k') = advance 1 (timeouts (sched_state k)) \<and> timer_state k' = ((w', ts), q') \<and>
    (\<forall>t d. dl q t = Some d \<and> d \<noteq> 1 \<longrightarrow> dl q' t = Some (d - 1))"
proof -
  let ?s = "sched_state k"
  note inv = reachable_kernel_inv [OF assms(1)]
  from step_quantum [OF inv assms(2), of 0] obtain s1 where
    s1: "k_sched_check_quantum 0 ?s = Some s1" by blast
  have r1: "reachable s1" by (rule reachable.step [OF assms(1), of "E_Quantum 0"]) (use s1 assms(2) in simp_all)
  have l1: "slock s1 = None" "timeouts s1 = timeouts ?s"
    using s1 assms(2) by (auto simp: k_sched_check_quantum_def sched_lock_def sched_unlock_def Let_def split: option.splits)
  note a = k_sched_adjust_timeouts_eq [OF k_inv_sched [OF kernel_k_inv [OF reachable_kernel_inv [OF r1]]] l1(1), of 1 0]
  let ?s2 = "(ticked 1 (s1\<lparr>slock := Some 0\<rparr>))\<lparr>slock := None\<rparr>"
  have r2: "reachable ?s2" by (rule reachable.step [OF r1, of "E_Ticks 0 1"]) (use a l1 in simp_all)
  have t2: "timeouts ?s2 = advance 1 (timeouts ?s)" using l1 by (simp add: ticked_def fold_expire_fields)
  from timer_tick [OF assms(5-9), of w] obtain w' q' where
    t: "k_timer_adjust_timeouts fuel run 1 ((w, ts), q) = Some ((w', ts), q')"
      "\<forall>t. dl q' t = Option.bind (dl q t) (\<lambda>d. next_deadline ts t (d - 1))" by blast
  let ?k = "k\<lparr>sched_state := ?s2, timer_state := ((w', ts), q'), tick_counter := tick_counter k + 1,
    tick_prev_counter := tick_counter k + 1\<rparr>"
  have "k_tick fuel run False 0 k = Some ?k"
    using s1 a t(1) assms(3,4) by (cases k) (simp add: k_tick_def Let_def)
  moreover have "\<forall>t d. dl q t = Some d \<and> d \<noteq> 1 \<longrightarrow> dl q' t = Some (d - 1)" using t(2) by (simp add: next_deadline_def)
  ultimately show ?thesis using r2 t2 by (intro exI [of _ ?k] exI [of _ w'] exI [of _ q']) (simp add: k_tick_get_def)
qed

theorem k_tick_advances_one_witness:
  "\<exists>k' w' q'. k_tick 9 log_run False 0 \<lparr>sched_state = initial_sched,
       timer_state = (([], two_timers), [(2, 1), (7, 0), (3, 4)]), tick_counter = 41, tick_prev_counter = 41\<rparr> = Some k' \<and>
     k_tick_get k' = 42 \<and> timer_state k' = ((w', two_timers), q') \<and> dl q' 3 = Some 4"
proof -
  let ?q = "[(2, 1), (7, 0), (3, 4)] :: nat tqueue"
  let ?k = "\<lparr>sched_state = initial_sched, timer_state = (([], two_timers), ?q), tick_counter = 41, tick_prev_counter = 41\<rparr>"
  have 1: "reachable (sched_state ?k)" "slock (sched_state ?k) = None" "tick_prev_counter ?k = tick_counter ?k"
    "timer_state ?k = (([], two_timers), ?q)"
    using reachable.init by simp_all (simp add: initial_sched_def)
  have 2: "timer_current two_timers = None" "\<forall>t. 0 \<le> period (timer two_timers t)" "tq_inv ?q" "length ?q + 2 < 9"
    by (simp_all add: two_timers_def tq_inv_def)
  have "dl ?q 3 = Some 5" by (simp add: dl_def deadlines_def)
  with k_tick_advances_one [OF 1 log_run_harmless 2] show ?thesis by (fastforce simp: k_tick_get_def)
qed

end
