(* ===== verification/Bounded_Fifo.thy ===== *)
theory Bounded_Fifo
  imports Kernel_Prelude
begin

section \<open>The contract of a bounded queue\<close>

text \<open>
  Mailboxes, pipes and the input buffers of terminals are ring buffers.  What their users rely
  on is one contract: a queue of bounded length whose \<open>put\<close> fails exactly when it is full and
  whose \<open>get\<close> fails exactly when it is empty.  The locale states it for a concrete representation
  with an abstraction function \<open>items\<close>; its lemmas speak of arbitrary sequences of calls.
\<close>

datatype 'm fifo_op = Put 'm | Get

text \<open>Executing calls: the state, the messages accepted so far and the messages delivered so far.
  A failing call changes nothing.\<close>

fun fifo_run :: "('m \<Rightarrow> 'q \<Rightarrow> 'q option) \<Rightarrow> ('q \<Rightarrow> ('m \<times> 'q) option) \<Rightarrow> 'm fifo_op list \<Rightarrow>
    'q \<times> 'm list \<times> 'm list \<Rightarrow> 'q \<times> 'm list \<times> 'm list" where
  "fifo_run put get [] x = x"
| "fifo_run put get (Put m # ops) (q, sent, received) =
     fifo_run put get ops (case put m q of None \<Rightarrow> (q, sent, received) | Some q' \<Rightarrow> (q', sent @ [m], received))"
| "fifo_run put get (Get # ops) (q, sent, received) =
     fifo_run put get ops (case get q of None \<Rightarrow> (q, sent, received) | Some (m, q') \<Rightarrow> (q', sent, received @ [m]))"

fun op_ok :: "('m \<Rightarrow> bool) \<Rightarrow> 'm fifo_op \<Rightarrow> bool" where
  "op_ok ok (Put m) \<longleftrightarrow> ok m"
| "op_ok ok Get \<longleftrightarrow> True"

locale bounded_fifo =
  fixes wf :: "'q \<Rightarrow> bool" and items :: "'q \<Rightarrow> 'm list" and cap :: "'q \<Rightarrow> nat" and ok :: "'q \<Rightarrow> 'm \<Rightarrow> bool"
    and put :: "'m \<Rightarrow> 'q \<Rightarrow> 'q option" and get :: "'q \<Rightarrow> ('m \<times> 'q) option"
  assumes bound: "wf q \<Longrightarrow> length (items q) \<le> cap q"
    and put_full: "wf q \<Longrightarrow> length (items q) = cap q \<Longrightarrow> put m q = None"
    and put_room: "wf q \<Longrightarrow> ok q m \<Longrightarrow> length (items q) < cap q \<Longrightarrow>
      \<exists>q'. put m q = Some q' \<and> wf q' \<and> items q' = items q @ [m] \<and> cap q' = cap q \<and> ok q' = ok q"
    and get_empty: "wf q \<Longrightarrow> items q = [] \<Longrightarrow> get q = None"
    and get_first: "wf q \<Longrightarrow> items q = m # ms \<Longrightarrow>
      \<exists>q'. get q = Some (m, q') \<and> wf q' \<and> items q' = ms \<and> cap q' = cap q \<and> ok q' = ok q"
begin

lemma put_cases:
  assumes "wf q" and "ok q m"
  obtains (full) "put m q = None" and "length (items q) = cap q"
  | (room) q' where "put m q = Some q'" and "wf q'" and "items q' = items q @ [m]" and "cap q' = cap q"
    and "ok q' = ok q"
proof (cases "length (items q) = cap q")
  case True
  show thesis by (rule full [OF put_full [OF assms(1) True] True])
next
  case False
  with bound [OF assms(1)] have "length (items q) < cap q" by simp
  from put_room [OF assms this] room show thesis by blast
qed

lemma get_cases:
  assumes "wf q"
  obtains (empty) "get q = None" and "items q = []"
  | (first) m q' where "get q = Some (m, q')" and "wf q'" and "items q = m # items q'" and "cap q' = cap q"
    and "ok q' = ok q"
proof (cases "items q")
  case Nil
  show thesis by (rule empty [OF get_empty [OF assms Nil] Nil])
next
  case (Cons m ms)
  from get_first [OF assms Cons] Cons first show thesis by blast
qed

text \<open>Messages are delivered in the order in which they were accepted; none is lost, made up or
  delivered twice, and at most \<open>cap\<close> of them are under way.\<close>

lemma run_fifo:
  assumes "wf q" and "sent = received @ items q" and "list_all (op_ok (ok q)) ops"
    and "fifo_run put get ops (q, sent, received) = (q', sent', received')"
  shows "wf q' \<and> sent' = received' @ items q' \<and> length (items q') \<le> cap q"
  using assms
proof (induction ops arbitrary: q sent received)
  case Nil
  then show ?case using bound by auto
next
  case (Cons x ops)
  show ?case
  proof (cases x)
    case (Put m)
    with Cons.prems have "ok q m" by simp
    with Cons.prems(1) show ?thesis
    proof (rule put_cases)
      assume "put m q = None"
      with Put Cons.prems Cons.IH [of q sent received] show ?thesis by simp
    next
      fix q1 assume "put m q = Some q1" "wf q1" "items q1 = items q @ [m]" "cap q1 = cap q" "ok q1 = ok q"
      with Put Cons.prems Cons.IH [of q1 "sent @ [m]" received] show ?thesis by simp
    qed
  next
    case Get
    from Cons.prems(1) show ?thesis
    proof (rule get_cases)
      assume "get q = None"
      with Get Cons.prems Cons.IH [of q sent received] show ?thesis by simp
    next
      fix m q1 assume "get q = Some (m, q1)" "wf q1" "items q = m # items q1" "cap q1 = cap q" "ok q1 = ok q"
      with Get Cons.prems Cons.IH [of q1 sent "received @ [m]"] show ?thesis by simp
    qed
  qed
qed

end

subsection \<open>Rings\<close>

text \<open>The cells of a ring of size \<open>n\<close> in use: \<open>k\<close> of them, from \<open>r\<close> on.\<close>

lemma ring_distinct:
  assumes "i < n" and "j < n" and "(r + i) mod n = (r + j) mod n"
  shows "i = (j :: nat)"
proof -
  have *: "j - i = 0" if "i \<le> j" "j < n" "(r + i) mod n = (r + j) mod n" for i j :: nat
  proof -
    have "r + i \<le> r + j" using that(1) by simp
    from iffD1 [OF mod_eq_dvd_iff_nat [OF this] that(3) [symmetric]] have "n dvd (r + j) - (r + i)" .
    then have "n dvd j - i" by simp
    then have "j - i = 0 \<or> n \<le> j - i" using dvd_imp_le by blast
    with that show ?thesis by linarith
  qed
  show ?thesis
  proof (cases "i \<le> j")
    case True
    with * [OF True assms(2,3)] show ?thesis by simp
  next
    case False
    with * [of j i] assms(1) assms(3) [symmetric] show ?thesis by simp
  qed
qed

lemma ring_step: "r < n \<Longrightarrow> (if r + 1 \<ge> n then 0 else r + 1) = (r + 1) mod (n :: nat)"
  by (cases "r + 1 = n") auto

end
