(* ===== verification/K_Mailbox.thy ===== *)
theory K_Mailbox
  imports K_Safety Bounded_Fifo
begin

section \<open>Mailboxes\<close>

text \<open>
  Models \<open>kernel/core/mailbox.c\<close>.  The buffer is an array of bytes; pointers into it are offsets
  from \<open>buf_start\<close>, so \<open>buf_end\<close> is the size in use.  The receivers and senders of mailbox \<open>i\<close>
  wait in the queues \<open>RecvQ i\<close> and \<open>SendQ i\<close> of the scheduler.  A section under the lock of the
  mailbox is one step; a call that has to wait ends its step in \<open>_k_sched_sleep\<close>, and the next
  round of its loop is the definition \<open>k_mailbox_receive_retry\<close> or \<open>k_mailbox_send_retry\<close>, applied
  to the result of the sleep.

  A mailbox implements a bounded queue of messages (\<open>Bounded_Fifo\<close>).
\<close>

record mailbox =
  mb_valid :: bool
  buf :: "u8 list"
  buf_end :: nat
  read_ptr :: nat
  write_ptr :: nat
  mb_size :: nat
  mb_capacity :: nat
  msg_size :: nat

subsection \<open>The buffer\<close>

definition k_memmove :: "nat \<Rightarrow> u8 list \<Rightarrow> u8 list \<Rightarrow> u8 list" where
  "k_memmove off src dst = take off dst @ src @ drop (off + length src) dst"

text \<open>The parts of \<open>k_mailbox_try_receive_locked\<close> and \<open>k_mailbox_try_send_locked\<close> that work on the
  mailbox; \<open>None\<close> is \<open>K_ERR_AGAIN\<close>.\<close>

definition mailbox_get :: "mailbox \<Rightarrow> (u8 list \<times> mailbox) option" where
  "mailbox_get mb =
     (if mb_size mb = 0 then None
      else let message = take (msg_size mb) (drop (read_ptr mb) (buf mb));
               p = read_ptr mb + msg_size mb;
               p = (if p \<ge> buf_end mb then 0 else p)
           in Some (message, mb\<lparr>read_ptr := p, mb_size := mb_size mb - 1\<rparr>))"

definition mailbox_put :: "u8 list \<Rightarrow> mailbox \<Rightarrow> mailbox option" where
  "mailbox_put message mb =
     (if mb_size mb = mb_capacity mb then None
      else let b = k_memmove (write_ptr mb) (take (msg_size mb) message) (buf mb);
               p = write_ptr mb + msg_size mb;
               p = (if p \<ge> buf_end mb then 0 else p)
           in Some (mb\<lparr>buf := b, write_ptr := p, mb_size := mb_size mb + 1\<rparr>))"

subsection \<open>Operations\<close>

text \<open>\<open>None\<close> for a message size of zero, by which the code divides.\<close>

definition k_mailbox_create :: "nat \<Rightarrow> nat \<Rightarrow> u8 list \<Rightarrow> sched \<Rightarrow> (mailbox \<times> sched) option" where
  "k_mailbox_create i msize b s =
     (if msize = 0 then None
      else Some (\<lparr>mb_valid = True, buf = b, buf_end = length b - length b mod msize, read_ptr = 0,
        write_ptr = 0, mb_size = 0, mb_capacity = length b div msize, msg_size = msize\<rparr>,
        s\<lparr>queues := (queues s)(RecvQ i := [], SendQ i := [])\<rparr>))"

definition k_mailbox_destroy :: "cpu_id \<Rightarrow> nat \<Rightarrow> mailbox \<times> sched \<Rightarrow> (mailbox \<times> sched) option" where
  "k_mailbox_destroy c i = (\<lambda>(mb, s). do {
     k_assert (mb_valid mb);
     s \<leftarrow> sched_lock c s;
     s \<leftarrow> k_sched_wakeup_all_locked c (RecvQ i) (- EINVAL) s;
     s \<leftarrow> sched_unlock c s;
     s \<leftarrow> sched_lock c s;
     s \<leftarrow> k_sched_wakeup_all_locked c (SendQ i) (- EINVAL) s;
     s \<leftarrow> sched_unlock c s;
     Some (mb\<lparr>mb_valid := False\<rparr>, s)
   })"

definition k_mailbox_try_receive_locked ::
  "cpu_id \<Rightarrow> nat \<Rightarrow> mailbox \<times> sched \<Rightarrow> (int \<times> u8 list \<times> mailbox \<times> sched) option" where
  "k_mailbox_try_receive_locked c i = (\<lambda>(mb, s).
     case mailbox_get mb of
       None \<Rightarrow> Some (- EAGAIN, [], mb, s)
     | Some (message, mb) \<Rightarrow> do {
         s \<leftarrow> sched_lock c s;
         (_, s) \<leftarrow> k_sched_wakeup_one_locked c (SendQ i) 0 s;
         s \<leftarrow> sched_unlock c s;
         Some (0, message, mb, s)
       })"

definition k_mailbox_try_send_locked ::
  "cpu_id \<Rightarrow> nat \<Rightarrow> u8 list \<Rightarrow> mailbox \<times> sched \<Rightarrow> (int \<times> mailbox \<times> sched) option" where
  "k_mailbox_try_send_locked c i message = (\<lambda>(mb, s).
     case mailbox_put message mb of
       None \<Rightarrow> Some (- EAGAIN, mb, s)
     | Some mb \<Rightarrow> do {
         s \<leftarrow> sched_lock c s;
         (_, s) \<leftarrow> k_sched_wakeup_one_locked c (RecvQ i) 0 s;
         s \<leftarrow> sched_unlock c s;
         Some (0, mb, s)
       })"

definition k_mailbox_try_receive ::
  "cpu_id \<Rightarrow> nat \<Rightarrow> mailbox \<times> sched \<Rightarrow> (int \<times> u8 list \<times> mailbox \<times> sched) option" where
  "k_mailbox_try_receive c i x = do { k_assert (mb_valid (fst x)); k_mailbox_try_receive_locked c i x }"

definition k_mailbox_try_send ::
  "cpu_id \<Rightarrow> nat \<Rightarrow> u8 list \<Rightarrow> mailbox \<times> sched \<Rightarrow> (int \<times> mailbox \<times> sched) option" where
  "k_mailbox_try_send c i message x = do { k_assert (mb_valid (fst x)); k_mailbox_try_send_locked c i message x }"

text \<open>A round of the waiting calls: the result with the message, or \<open>None\<close> when the task sleeps.\<close>

definition k_mailbox_receive_round ::
  "cpu_id \<Rightarrow> nat \<Rightarrow> int \<Rightarrow> bool \<Rightarrow> mailbox \<times> sched \<Rightarrow> ((int \<times> u8 list) option \<times> mailbox \<times> sched) option" where
  "k_mailbox_receive_round c i timeout unwakeable x = do {
     (r, message, mb, s) \<leftarrow> k_mailbox_try_receive_locked c i x;
     if r = 0 \<or> r \<noteq> - EAGAIN then Some (Some (r, message), mb, s)
     else do {
       s \<leftarrow> sched_lock c s;
       s \<leftarrow> k_sched_sleep_begin c (Some (RecvQ i)) (sleep_state unwakeable) timeout (K_Sleep timeout) s;
       Some (None, mb, s)
     }
   }"

definition k_mailbox_timed_receive ::
  "cpu_id \<Rightarrow> nat \<Rightarrow> int \<Rightarrow> bool \<Rightarrow> mailbox \<times> sched \<Rightarrow> ((int \<times> u8 list) option \<times> mailbox \<times> sched) option" where
  "k_mailbox_timed_receive c i timeout unwakeable x =
     do { k_assert (mb_valid (fst x)); k_mailbox_receive_round c i timeout unwakeable x }"

definition k_mailbox_receive_retry ::
  "cpu_id \<Rightarrow> nat \<Rightarrow> int \<Rightarrow> bool \<Rightarrow> int \<Rightarrow> mailbox \<times> sched \<Rightarrow>
   ((int \<times> u8 list) option \<times> mailbox \<times> sched) option" where
  "k_mailbox_receive_retry c i timeout unwakeable r x =
     (if r < 0 then Some (Some (r, []), x) else k_mailbox_receive_round c i timeout unwakeable x)"

definition k_mailbox_send_round ::
  "cpu_id \<Rightarrow> nat \<Rightarrow> u8 list \<Rightarrow> int \<Rightarrow> bool \<Rightarrow> mailbox \<times> sched \<Rightarrow> (int option \<times> mailbox \<times> sched) option" where
  "k_mailbox_send_round c i message timeout unwakeable x = do {
     (r, mb, s) \<leftarrow> k_mailbox_try_send_locked c i message x;
     if r = 0 \<or> r \<noteq> - EAGAIN then Some (Some r, mb, s)
     else do {
       s \<leftarrow> sched_lock c s;
       s \<leftarrow> k_sched_sleep_begin c (Some (SendQ i)) (sleep_state unwakeable) timeout (K_Sleep timeout) s;
       Some (None, mb, s)
     }
   }"

definition k_mailbox_timed_send ::
  "cpu_id \<Rightarrow> nat \<Rightarrow> u8 list \<Rightarrow> int \<Rightarrow> bool \<Rightarrow> mailbox \<times> sched \<Rightarrow> (int option \<times> mailbox \<times> sched) option" where
  "k_mailbox_timed_send c i message timeout unwakeable x =
     do { k_assert (mb_valid (fst x)); k_mailbox_send_round c i message timeout unwakeable x }"

definition k_mailbox_send_retry ::
  "cpu_id \<Rightarrow> nat \<Rightarrow> u8 list \<Rightarrow> int \<Rightarrow> bool \<Rightarrow> int \<Rightarrow> mailbox \<times> sched \<Rightarrow>
   (int option \<times> mailbox \<times> sched) option" where
  "k_mailbox_send_retry c i message timeout unwakeable r x =
     (if r < 0 then Some (Some r, x) else k_mailbox_send_round c i message timeout unwakeable x)"

subsection \<open>The messages in the buffer\<close>

definition slot :: "mailbox \<Rightarrow> nat \<Rightarrow> u8 list" where
  "slot mb j = take (msg_size mb) (drop (j * msg_size mb) (buf mb))"

definition messages :: "mailbox \<Rightarrow> u8 list list" where
  "messages mb = map (\<lambda>k. slot mb ((read_ptr mb div msg_size mb + k) mod mb_capacity mb)) [0..<mb_size mb]"

definition mailbox_wf :: "mailbox \<Rightarrow> bool" where
  "mailbox_wf mb \<longleftrightarrow> 0 < msg_size mb \<and> buf_end mb = mb_capacity mb * msg_size mb \<and> buf_end mb \<le> length (buf mb) \<and>
     mb_size mb \<le> mb_capacity mb \<and>
     (0 < mb_capacity mb \<longrightarrow> (\<exists>r<mb_capacity mb. read_ptr mb = r * msg_size mb \<and>
        write_ptr mb = (r + mb_size mb) mod mb_capacity mb * msg_size mb))"

lemma length_k_memmove: "off + length m \<le> length b \<Longrightarrow> length (k_memmove off m b) = length b"
  by (simp add: k_memmove_def)

lemma nth_k_memmove:
  assumes "off + length m \<le> length b" and "i < length b"
  shows "k_memmove off m b ! i = (if off \<le> i \<and> i < off + length m then m ! (i - off) else b ! i)"
  using assms by (auto simp: k_memmove_def nth_append)

lemma slot_end: "mailbox_wf mb \<Longrightarrow> j < mb_capacity mb \<Longrightarrow> j * msg_size mb + msg_size mb \<le> length (buf mb)"
proof -
  assume a: "mailbox_wf mb" "j < mb_capacity mb"
  then have "(j + 1) * msg_size mb \<le> mb_capacity mb * msg_size mb" by (intro mult_le_mono1) simp
  with a(1) show ?thesis by (simp add: mailbox_wf_def)
qed

lemma slot_write:
  assumes "mailbox_wf mb" and "w < mb_capacity mb" and "j < mb_capacity mb" and "length m = msg_size mb"
  shows "slot (mb\<lparr>buf := k_memmove (w * msg_size mb) m (buf mb), write_ptr := p, mb_size := q\<rparr>) j =
    (if j = w then m else slot mb j)"
proof (rule nth_equalityI)
  let ?n = "msg_size mb" and ?b = "k_memmove (w * msg_size mb) m (buf mb)"
  note w = slot_end [OF assms(1,2)] and j = slot_end [OF assms(1,3)]
  have l: "length ?b = length (buf mb)" using w assms(4) by (simp add: length_k_memmove)
  show "length (slot (mb\<lparr>buf := ?b, write_ptr := p, mb_size := q\<rparr>) j) = length (if j = w then m else slot mb j)"
    using j l assms(4) by (simp add: slot_def)
  fix i assume "i < length (slot (mb\<lparr>buf := ?b, write_ptr := p, mb_size := q\<rparr>) j)"
  then have i: "i < ?n" by (simp add: slot_def)
  have "j = w" if "w * ?n \<le> j * ?n + i" "j * ?n + i < w * ?n + ?n"
  proof -
    have "w * ?n < (j + 1) * ?n" "j * ?n < (w + 1) * ?n" using that i by simp_all
    then have "w < j + 1" "j < w + 1" by (metis mult_less_cancel2)+
    then show ?thesis by simp
  qed
  then show "slot (mb\<lparr>buf := ?b, write_ptr := p, mb_size := q\<rparr>) j ! i = (if j = w then m else slot mb j) ! i"
    using i j w l assms(4) nth_k_memmove [of "w * ?n" m "buf mb" "j * ?n + i"]
    by (auto simp: slot_def add.commute)
qed

lemma mailbox_wfE:
  assumes "mailbox_wf mb" and "0 < mb_capacity mb"
  obtains r where "r < mb_capacity mb" and "read_ptr mb = r * msg_size mb" and "0 < msg_size mb"
    and "write_ptr mb = (r + mb_size mb) mod mb_capacity mb * msg_size mb"
    and "buf_end mb = mb_capacity mb * msg_size mb"
    and "messages mb = map (\<lambda>k. slot mb ((r + k) mod mb_capacity mb)) [0..<mb_size mb]"
  using assms by (auto simp: mailbox_wf_def messages_def)

lemma ring_pointer:
  assumes "r < n" and "0 < (m :: nat)"
  shows "(if r * m + m \<ge> n * m then 0 else r * m + m) = (r + 1) mod n * m"
proof (cases "r + 1 = n")
  case True
  then show ?thesis by (simp add: algebra_simps flip: True)
next
  case False
  with assms have "r + 1 < n" by simp
  then have "(r + 1) * m < n * m" using assms(2) by (rule mult_strict_right_mono)
  with False assms show ?thesis by (simp add: algebra_simps)
qed

lemma mailbox_get_first:
  assumes wf: "mailbox_wf mb" and ne: "messages mb = m # ms"
  shows "\<exists>mb'. mailbox_get mb = Some (m, mb') \<and> mailbox_wf mb' \<and> messages mb' = ms \<and>
    mb_capacity mb' = mb_capacity mb \<and> msg_size mb' = msg_size mb"
proof -
  from ne have size: "0 < mb_size mb" by (cases "mb_size mb") (auto simp: messages_def)
  with wf have cap: "0 < mb_capacity mb" by (auto simp: mailbox_wf_def)
  let ?n = "mb_capacity mb" and ?m = "msg_size mb"
  from wf cap obtain r where r: "r < ?n" "read_ptr mb = r * ?m" "0 < ?m" "write_ptr mb = (r + mb_size mb) mod ?n * ?m"
    "buf_end mb = ?n * ?m" "messages mb = map (\<lambda>k. slot mb ((r + k) mod ?n)) [0..<mb_size mb]" by (rule mailbox_wfE)
  let ?mb = "mb\<lparr>read_ptr := (r + 1) mod ?n * ?m, mb_size := mb_size mb - 1\<rparr>"
  have get: "mailbox_get mb = Some (slot mb r, ?mb)"
    using size r ring_pointer [OF r(1,3)] by (simp add: mailbox_get_def slot_def Let_def)
  have up: "[0..<mb_size mb] = 0 # map Suc [0..<mb_size mb - 1]"
    using size by (metis One_nat_def Suc_pred' map_Suc_upt upt_conv_Cons)
  have first: "m = slot mb r" and rest: "ms = map (\<lambda>k. slot mb ((r + 1 + k) mod ?n)) [0..<mb_size mb - 1]"
    using ne r(1) unfolding r(6) up by (simp_all add: o_def)
  have "(r + 1) mod ?n < ?n" using cap by simp
  moreover have "((r + 1) mod ?n + (mb_size mb - 1)) mod ?n = (r + mb_size mb) mod ?n"
    using mod_add_left_eq [of "r + 1" ?n "mb_size mb - 1"] size by simp
  ultimately have "mailbox_wf ?mb"
    using wf r size cap by (auto simp: mailbox_wf_def intro!: exI [of _ "(r + 1) mod ?n"])
  moreover have "messages ?mb = ms"
    using r(3) rest by (simp add: messages_def slot_def mod_add_left_eq)
  ultimately show ?thesis using get first by simp
qed

lemma mailbox_put_room:
  assumes wf: "mailbox_wf mb" and m: "length m = msg_size mb" and room: "mb_size mb < mb_capacity mb"
  shows "\<exists>mb'. mailbox_put m mb = Some mb' \<and> mailbox_wf mb' \<and> messages mb' = messages mb @ [m] \<and>
    mb_capacity mb' = mb_capacity mb \<and> msg_size mb' = msg_size mb"
proof -
  let ?n = "mb_capacity mb" and ?m = "msg_size mb"
  from room have cap: "0 < ?n" by simp
  from wf cap obtain r where r: "r < ?n" "read_ptr mb = r * ?m" "0 < ?m" "write_ptr mb = (r + mb_size mb) mod ?n * ?m"
    "buf_end mb = ?n * ?m" "messages mb = map (\<lambda>k. slot mb ((r + k) mod ?n)) [0..<mb_size mb]" by (rule mailbox_wfE)
  let ?w = "(r + mb_size mb) mod ?n"
  have w: "?w < ?n" using cap by simp
  let ?mb = "mb\<lparr>buf := k_memmove (?w * ?m) m (buf mb), write_ptr := (?w + 1) mod ?n * ?m, mb_size := mb_size mb + 1\<rparr>"
  have put: "mailbox_put m mb = Some ?mb"
    using room r m ring_pointer [OF w r(3)] by (simp add: mailbox_put_def Let_def)
  have "length (buf ?mb) = length (buf mb)"
    using slot_end [OF wf w] m by (simp add: length_k_memmove)
  moreover have "(?w + 1) mod ?n = (r + mb_size ?mb) mod ?n" by (simp add: mod_Suc_eq)
  ultimately have "mailbox_wf ?mb" using wf r room by (auto simp: mailbox_wf_def intro!: exI [of _ r])
  moreover have "slot ?mb ((r + k) mod ?n) = slot mb ((r + k) mod ?n)" if "k < mb_size mb" for k
    using slot_write [OF wf w _ m, of "(r + k) mod ?n"] cap ring_distinct [of k ?n "mb_size mb" r] that room by auto
  moreover have "slot ?mb ?w = m" using slot_write [OF wf w w m] by simp
  ultimately show ?thesis using put r(2,3,6) by (simp add: messages_def)
qed

lemma messages_length: "length (messages mb) = mb_size mb"
  by (simp add: messages_def)

interpretation mb_fifo: bounded_fifo mailbox_wf messages mb_capacity "\<lambda>mb m. length m = msg_size mb"
  mailbox_put mailbox_get
proof unfold_locales
  fix mb m ms
  assume wf: "mailbox_wf mb"
  then show "length (messages mb) \<le> mb_capacity mb" by (simp add: messages_length mailbox_wf_def)
  show "length (messages mb) = mb_capacity mb \<Longrightarrow> mailbox_put m mb = None"
    by (simp add: messages_length mailbox_put_def)
  show "messages mb = [] \<Longrightarrow> mailbox_get mb = None" by (simp add: messages_def mailbox_get_def)
  show "length m = msg_size mb \<Longrightarrow> length (messages mb) < mb_capacity mb \<Longrightarrow>
      \<exists>q'. mailbox_put m mb = Some q' \<and> mailbox_wf q' \<and> messages q' = messages mb @ [m] \<and>
        mb_capacity q' = mb_capacity mb \<and> (\<lambda>m. length m = msg_size q') = (\<lambda>m. length m = msg_size mb)"
    using mailbox_put_room [OF wf] by (force simp: messages_length)
  show "messages mb = m # ms \<Longrightarrow>
      \<exists>q'. mailbox_get mb = Some (m, q') \<and> mailbox_wf q' \<and> messages q' = ms \<and>
        mb_capacity q' = mb_capacity mb \<and> (\<lambda>m. length m = msg_size q') = (\<lambda>m. length m = msg_size mb)"
    using mailbox_get_first [OF wf] by force
qed

lemma k_mailbox_create_wf:
  assumes "k_mailbox_create i msize b s = Some (mb, s')"
  shows "mailbox_wf mb \<and> messages mb = [] \<and> mb_capacity mb = length b div msize \<and> msg_size mb = msize \<and> mb_valid mb"
proof -
  have "length b - length b mod msize = length b div msize * msize" by (simp add: minus_mod_eq_div_mult)
  with assms show ?thesis by (auto simp: k_mailbox_create_def mailbox_wf_def messages_def split: if_splits)
qed

text \<open>
  C18: A mailbox delivers messages in the order in which they were sent.  From its creation on, for
  every sequence of attempts to send and to receive messages of its message size, the messages
  received followed by those in the buffer are the messages sent; the buffer never holds more
  than \<open>buf_size / msg_size\<close> of them.
\<close>

theorem mailbox_delivers_in_order:
  assumes "k_mailbox_create i msize b s = Some (mb, s')" and "list_all (op_ok (\<lambda>m. length m = msize)) ops"
    and "fifo_run mailbox_put mailbox_get ops (mb, [], []) = (mb', sent, received)"
  shows "mailbox_wf mb' \<and> sent = received @ messages mb' \<and> length (messages mb') \<le> length b div msize"
  using mb_fifo.run_fifo [of mb "[]" "[]" ops mb' sent received] k_mailbox_create_wf [OF assms(1)] assms(2,3)
  by simp

theorem mailbox_delivers_in_order_witness:
  "\<exists>mb s' mb'. k_mailbox_create 0 2 [0, 0, 0, 0, 0] initial_sched = Some (mb, s') \<and>
     fifo_run mailbox_put mailbox_get [Put [1, 2], Put [3, 4], Put [5, 6], Get, Put [7, 8], Get] (mb, [], []) =
       (mb', [[1, 2], [3, 4], [7, 8]], [[1, 2], [3, 4]]) \<and> messages mb' = [[7, 8]]"
proof -
  define mb where "mb = fst (the (k_mailbox_create 0 2 [0, 0, 0, 0, 0] initial_sched))"
  define r where "r = fifo_run mailbox_put mailbox_get
    [Put [1, 2], Put [3, 4], Put [5, 6], Get, Put [7, 8], Get] (mb, [], [])"
  have create: "k_mailbox_create 0 2 [0, 0, 0, 0, 0] initial_sched =
      Some (mb, snd (the (k_mailbox_create 0 2 [0, 0, 0, 0, 0] initial_sched)))"
    by (simp add: mb_def k_mailbox_create_def)
  have run: "snd r = ([[1, 2], [3, 4], [7, 8]], [[1, 2], [3, 4]])"
    unfolding r_def mb_def by code_simp
  from mailbox_delivers_in_order [OF create, of "[Put [1, 2], Put [3, 4], Put [5, 6], Get, Put [7, 8], Get]"
      "fst r" "fst (snd r)" "snd (snd r)"] run
  have "messages (fst r) = [[7, 8]]" by (simp add: r_def)
  with create run show ?thesis unfolding r_def by (metis prod.collapse)
qed

subsection \<open>Waiting for messages\<close>

lemma wake_one_bind:
  assumes "kernel_inv s" and "slock s = None" and "is_wait_queue q"
  shows "do { s \<leftarrow> sched_lock c s; (_, s) \<leftarrow> k_sched_wakeup_one_locked c q r s; s \<leftarrow> sched_unlock c s; f s } =
    f ((wake_one q r (s\<lparr>slock := Some c\<rparr>))\<lparr>slock := None\<rparr>)"
  using assms(2) k_sched_wakeup_one_eq [OF kernel_sched_inv [OF assms(1), of "Some c"] _ assms(3), of c r]
  by (simp add: sched_lock_def sched_unlock_def wake_one_def split: list.split)

text \<open>A task that sleeps on the queue of a mailbox.\<close>

lemma mailbox_sleep:
  fixes u :: bool
  assumes inv: "kernel_inv s" and user: "user c s" and n: "0 \<le> n" and cur: "cur s c = Some t"
    and q: "is_wait_queue q" "\<And>m. q \<noteq> MutexQ m" "\<And>j. q \<noteq> SemQ j"
  defines "s' \<equiv> slept c t q (sleep_state u) n (K_Sleep n) (s\<lparr>slock := Some c\<rparr>)"
  shows "do { s \<leftarrow> sched_lock c s; k_sched_sleep_begin c (Some q) (sleep_state u) n (K_Sleep n) s } = Some s'"
    and "kernel_inv s'" and "t \<in> set (queues s' q)"
proof -
  from user cur have t: "tcontext (tasks s t) = K_Run" "slock s = None" "lock_count s c \<le> 0"
    by (auto elim!: userD)
  note i = kernel_sched_inv [OF inv, of "Some c"]
  have c: "cur (s\<lparr>slock := Some c\<rparr>) c = Some t" using cur by simp
  note b = sleep_begin_inv [OF i kernel_mutex_inv [OF inv], of c t n "K_Sleep n" q "sleep_state u"]
  show "do { s \<leftarrow> sched_lock c s; k_sched_sleep_begin c (Some q) (sleep_state u) n (K_Sleep n) s } = Some s'"
    using b(1) t cur n q by (simp add: sched_lock_def s'_def)
  have k: "k_inv s'" using b(2) t cur n q by (simp add: s'_def)
  show "kernel_inv s'"
    unfolding s'_def
    by (rule kernel_inv_slept [OF inv c i _ _ k [unfolded s'_def]])
      (use n q running_task [OF inv cur] not_woken_run [OF t(1)] in \<open>simp_all\<close>)
  show "t \<in> set (queues s' q)" using slept_queues [OF i c] by (simp add: s'_def set_sched_insert)
qed

text \<open>
  C19: A receiver gets the oldest message or waits.  In a state of the kernel core that satisfies its
  invariant, \<open>k_mailbox_timed_receive\<close> never panics.  If there are messages it returns 0 with the
  first one, removes it, and makes the first waiting sender ready; if there is none the caller
  enters the queue of receivers and gives up the CPU.  The invariants are kept.
\<close>

theorem k_mailbox_timed_receive_or_waits:
  assumes "kernel_inv s" and "user c s" and "cur s c = Some t" and "mailbox_wf mb" and "mb_valid mb" and "0 \<le> n"
  shows "\<exists>r mb' s'. k_mailbox_timed_receive c i n u (mb, s) = Some (r, mb', s') \<and> mailbox_wf mb' \<and> kernel_inv s' \<and>
    (case messages mb of
       [] \<Rightarrow> r = None \<and> mb' = mb \<and> t \<in> set (queues s' (RecvQ i)) \<and> cur s' c = None
     | m # ms \<Rightarrow> r = Some (0, m) \<and> messages mb' = ms \<and>
         (case queues s (SendQ i) of [] \<Rightarrow> True | w # ws \<Rightarrow> queues s' (SendQ i) = ws \<and> tstate (tasks s' w) = READY))"
proof (cases "messages mb")
  case Nil
  let ?s = "slept c t (RecvQ i) (sleep_state u) n (K_Sleep n) (s\<lparr>slock := Some c\<rparr>)"
  have lock: "slock s = None" using assms(2) by (simp add: user_def)
  note sl = mailbox_sleep [OF assms(1,2,6,3), of "RecvQ i" u]
  have "k_mailbox_timed_receive c i n u (mb, s) = Some (None, mb, ?s)"
    using sl(1) assms(5) mb_fifo.get_empty [OF assms(4) Nil]
    by (simp add: k_mailbox_timed_receive_def k_mailbox_receive_round_def k_mailbox_try_receive_locked_def
        errno_defs sched_lock_def lock)
  with sl(2,3) Nil assms(4) show ?thesis by simp
next
  case (Cons m ms)
  from mailbox_get_first [OF assms(4) Cons] obtain mb' where
    mb': "mailbox_get mb = Some (m, mb')" "mailbox_wf mb'" "messages mb' = ms" by blast
  have lock: "slock s = None" using assms(2) by (simp add: user_def)
  note w = wake_one_eq [OF kernel_k_inv [OF assms(1)] lock, where q = "SendQ i" and c = c and r = 0]
  let ?s = "(wake_one (SendQ i) 0 (s\<lparr>slock := Some c\<rparr>))\<lparr>slock := None\<rparr>"
  from step_wake_one [OF assms(1) lock, of "SendQ i" c 0] w(1) have inv: "kernel_inv ?s" by simp
  have "k_mailbox_try_receive_locked c i (mb, s) = Some (0, m, mb', ?s)"
    using wake_one_bind [OF assms(1) lock, where q = "SendQ i" and c = c and r = 0] mb'(1)
    by (simp add: k_mailbox_try_receive_locked_def)
  then have "k_mailbox_timed_receive c i n u (mb, s) = Some (Some (0, m), mb', ?s)"
    using assms(5) by (simp add: k_mailbox_timed_receive_def k_mailbox_receive_round_def)
  moreover have "case queues s (SendQ i) of [] \<Rightarrow> True | w # ws \<Rightarrow>
      queues ?s (SendQ i) = ws \<and> tstate (tasks ?s w) = READY"
    using resumed_wait_queue [OF kernel_sched_inv [OF assms(1), of "Some c"], of "SendQ i"]
    by (auto simp: wake_one_def split: list.split)
  ultimately show ?thesis using mb' inv Cons by simp
qed

definition one_message :: mailbox where
  "one_message = \<lparr>mb_valid = True, buf = [9, 8, 7, 6], buf_end = 4, read_ptr = 2, write_ptr = 0, mb_size = 1,
     mb_capacity = 2, msg_size = 2\<rparr>"

theorem k_mailbox_timed_receive_or_waits_witness:
  "\<exists>mb' s'. k_mailbox_timed_receive 0 5 0 False (one_message, after contended) = Some (Some (0, [7, 6]), mb', s') \<and>
     messages mb' = []"
proof -
  have u: "user 0 (after contended)" by code_simp
  have c: "cur (after contended) 0 = Some 1" by code_simp
  have w: "mailbox_wf one_message" "mb_valid one_message" "messages one_message = [[7, 6]]"
    by (auto simp: one_message_def mailbox_wf_def messages_def slot_def intro!: exI [of _ 1])
  from k_mailbox_timed_receive_or_waits [OF reachable_kernel_inv [OF contended_reachable] u c w(1,2), of 0 5 False]
  show ?thesis by (auto simp: w(3))
qed

text \<open>The same for senders.\<close>

lemma k_mailbox_timed_send_or_waits:
  assumes "kernel_inv s" and "user c s" and "cur s c = Some t" and "mailbox_wf mb" and "mb_valid mb" and "0 \<le> n"
    and "length m = msg_size mb"
  shows "\<exists>r mb' s'. k_mailbox_timed_send c i m n u (mb, s) = Some (r, mb', s') \<and> mailbox_wf mb' \<and> kernel_inv s' \<and>
    (if length (messages mb) = mb_capacity mb then r = None \<and> mb' = mb \<and> t \<in> set (queues s' (SendQ i))
     else r = Some 0 \<and> messages mb' = messages mb @ [m])"
proof -
  have lock: "slock s = None" using assms(2) by (simp add: user_def)
  from assms(4,7) show ?thesis
  proof (rule mb_fifo.put_cases)
    assume full: "mailbox_put m mb = None" "length (messages mb) = mb_capacity mb"
    note sl = mailbox_sleep [OF assms(1,2,6,3), of "SendQ i" u]
    have "k_mailbox_timed_send c i m n u (mb, s) =
        Some (None, mb, slept c t (SendQ i) (sleep_state u) n (K_Sleep n) (s\<lparr>slock := Some c\<rparr>))"
      using sl(1) assms(5) full(1)
      by (simp add: k_mailbox_timed_send_def k_mailbox_send_round_def k_mailbox_try_send_locked_def
          errno_defs sched_lock_def lock)
    with sl(2,3) full(2) assms(4) show ?thesis by simp
  next
    fix mb' assume mb': "mailbox_put m mb = Some mb'" "mailbox_wf mb'" "messages mb' = messages mb @ [m]"
      "mb_capacity mb' = mb_capacity mb"
    let ?s = "(wake_one (RecvQ i) 0 (s\<lparr>slock := Some c\<rparr>))\<lparr>slock := None\<rparr>"
    have "kernel_inv ?s"
      using step_wake_one [OF assms(1) lock, of "RecvQ i" c 0]
        wake_one_eq [OF kernel_k_inv [OF assms(1)] lock, where q = "RecvQ i" and c = c and r = 0] by simp
    moreover have "k_mailbox_try_send_locked c i m (mb, s) = Some (0, mb', ?s)"
      using wake_one_bind [OF assms(1) lock, where q = "RecvQ i" and c = c and r = 0] mb'(1)
      by (simp add: k_mailbox_try_send_locked_def)
    then have "k_mailbox_timed_send c i m n u (mb, s) = Some (Some 0, mb', ?s)"
      using assms(5) by (simp add: k_mailbox_timed_send_def k_mailbox_send_round_def)
    moreover have "length (messages mb) \<noteq> mb_capacity mb" using mb_fifo.bound [OF mb'(2)] mb'(3,4) by simp
    ultimately show ?thesis using mb' by simp
  qed
qed

end
