(* ===== verification/Lib_String.thy ===== *)
theory Lib_String
  imports Kernel_Prelude
begin

section \<open>Memory and string functions\<close>

text \<open>
  Models the byte and string functions of \<open>kernel/lib\<close>.  Memory is a map from addresses to
  bytes; a pointer is an address, the null pointer of a result is \<open>None\<close>.  A loop that is bounded by
  a count is a recursion on the count.  A loop that looks for the terminating zero byte of a
  string may run on for ever in a memory without one; it is a partial function, for which \<open>None\<close> means
  that it does not return, and the lemmas show that it returns whenever there is a string.
\<close>

type_synonym mem = "nat \<Rightarrow> u8"

subsection \<open>Blocks of bytes\<close>

fun memset :: "nat \<Rightarrow> int \<Rightarrow> nat \<Rightarrow> mem \<Rightarrow> mem" where
  "memset p c 0 m = m"
| "memset p c (Suc n) m = memset (p + 1) c n (m(p := word_of_int c))"

fun memcpy :: "nat \<Rightarrow> nat \<Rightarrow> nat \<Rightarrow> mem \<Rightarrow> mem" where
  "memcpy dst src 0 m = m"
| "memcpy dst src (Suc n) m = memcpy (dst + 1) (src + 1) n (m(dst := m src))"

text \<open>The descending loop; both pointers are one behind the last byte still to be copied.\<close>

fun memcpy_down :: "nat \<Rightarrow> nat \<Rightarrow> nat \<Rightarrow> mem \<Rightarrow> mem" where
  "memcpy_down dst src 0 m = m"
| "memcpy_down dst src (Suc n) m = memcpy_down (dst - 1) (src - 1) n (m(dst - 1 := m (src - 1)))"

definition memmove :: "nat \<Rightarrow> nat \<Rightarrow> nat \<Rightarrow> mem \<Rightarrow> mem" where
  "memmove dst src n m =
     (if src < dst \<and> src + n > dst then memcpy_down (dst + n) (src + n) n m
      else memcpy dst src n m)"

fun memcmp :: "nat \<Rightarrow> nat \<Rightarrow> nat \<Rightarrow> mem \<Rightarrow> int" where
  "memcmp p1 p2 0 m = 0"
| "memcmp p1 p2 (Suc n) m =
     (if m p1 \<noteq> m p2 then uint (m p1) - uint (m p2) else memcmp (p1 + 1) (p2 + 1) n m)"

fun memchr :: "nat \<Rightarrow> int \<Rightarrow> nat \<Rightarrow> mem \<Rightarrow> nat option" where
  "memchr p c 0 m = None"
| "memchr p c (Suc n) m = (if m p = word_of_int c then Some p else memchr (p + 1) c n m)"

subsection \<open>Strings\<close>

partial_function (option) strlen_loop :: "nat \<Rightarrow> mem \<Rightarrow> nat option" where
  "strlen_loop p m = (if m p \<noteq> 0 then strlen_loop (p + 1) m else Some p)"

definition strlen :: "nat \<Rightarrow> mem \<Rightarrow> nat option" where
  "strlen s m = do { p \<leftarrow> strlen_loop s m; Some (p - s) }"

fun strnlen :: "nat \<Rightarrow> nat \<Rightarrow> mem \<Rightarrow> nat" where
  "strnlen p 0 m = 0"
| "strnlen p (Suc n) m = (if m p \<noteq> 0 then Suc (strnlen (p + 1) n m) else 0)"

partial_function (option) strcpy :: "nat \<Rightarrow> nat \<Rightarrow> mem \<Rightarrow> mem option" where
  "strcpy p s m = (if m s \<noteq> 0 then strcpy (p + 1) (s + 1) (m(p := m s)) else Some (m(p := 0)))"

fun strncpy :: "nat \<Rightarrow> nat \<Rightarrow> nat \<Rightarrow> mem \<Rightarrow> mem" where
  "strncpy p s 0 m = m"
| "strncpy p s (Suc n) m =
     (if m s \<noteq> 0 then strncpy (p + 1) (s + 1) n (m(p := m s)) else memset p 0 (Suc n) m)"

partial_function (option) strcmp :: "nat \<Rightarrow> nat \<Rightarrow> mem \<Rightarrow> int option" where
  "strcmp s1 s2 m =
     (if m s1 = m s2 then (if m s1 = 0 then Some 0 else strcmp (s1 + 1) (s2 + 1) m)
      else Some (uint (m s1) - uint (m s2)))"

fun strncmp :: "nat \<Rightarrow> nat \<Rightarrow> nat \<Rightarrow> mem \<Rightarrow> int" where
  "strncmp s1 s2 0 m = 0"
| "strncmp s1 s2 (Suc n) m =
     (if m s1 \<noteq> m s2 then uint (m s1) - uint (m s2)
      else if m s1 = 0 then 0 else strncmp (s1 + 1) (s2 + 1) n m)"

partial_function (option) strchr :: "nat \<Rightarrow> u8 \<Rightarrow> mem \<Rightarrow> nat option option" where
  "strchr s ch m =
     (if m s \<noteq> ch then (if m s = 0 then Some None else strchr (s + 1) ch m) else Some (Some s))"

partial_function (option) strpbrk :: "nat \<Rightarrow> nat \<Rightarrow> mem \<Rightarrow> nat option option" where
  "strpbrk s1 s2 m =
     (if m s1 \<noteq> 0 then do {
        r \<leftarrow> strchr s2 (m s1) m;
        if r \<noteq> None then Some (Some s1) else strpbrk (s1 + 1) s2 m
      } else Some None)"

partial_function (option) strspn_loop :: "nat \<Rightarrow> nat \<Rightarrow> mem \<Rightarrow> nat option" where
  "strspn_loop p s2 m =
     (if m p \<noteq> 0 then do {
        r \<leftarrow> strchr s2 (m p) m;
        if r = None then Some p else strspn_loop (p + 1) s2 m
      } else Some p)"

definition strspn :: "nat \<Rightarrow> nat \<Rightarrow> mem \<Rightarrow> nat option" where
  "strspn s1 s2 m = do { p \<leftarrow> strspn_loop s1 s2 m; Some (p - s1) }"

declare strlen_loop.simps [code] strcpy.simps [code] strcmp.simps [code] strchr.simps [code]
  strpbrk.simps [code] strspn_loop.simps [code]

text \<open>\<open>strtok\<close> with its static variable: \<open>None\<close> is the empty string literal to which it is set when
  there is nothing left.\<close>

definition strtok :: "nat option \<Rightarrow> nat \<Rightarrow> nat option \<Rightarrow> mem \<Rightarrow> (nat option \<times> nat option \<times> mem) option" where
  "strtok s sep state m =
     (case (if s \<noteq> None then s else state) of
        None \<Rightarrow> Some (None, state, m)
      | Some start \<Rightarrow> do {
          n \<leftarrow> strspn start sep m;
          let tok = start + n;
          if m tok = 0 then Some (None, state, m)
          else do {
            r \<leftarrow> strpbrk tok sep m;
            case r of
              Some tok_end \<Rightarrow> Some (Some tok, Some (tok_end + 1), m(tok_end := 0))
            | None \<Rightarrow> Some (Some tok, None, m)
          }
        })"

subsection \<open>What the block functions do\<close>

lemma memset_apply:
  "memset p c n m = (\<lambda>a. if p \<le> a \<and> a < p + n then word_of_int c else m a)"
proof (induction p c n m rule: memset.induct)
  case (2 p c n m)
  show ?case unfolding memset.simps "2.IH" fun_upd_apply by (rule ext) auto
qed (auto simp: fun_eq_iff)

lemma memcpy_apply:
  "dst \<le> src \<or> src + n \<le> dst \<Longrightarrow>
   memcpy dst src n m = (\<lambda>a. if dst \<le> a \<and> a < dst + n then m (src + (a - dst)) else m a)"
proof (induction dst src n m rule: memcpy.induct)
  case (2 dst src n m)
  from "2.prems" have "dst + 1 \<le> src + 1 \<or> src + 1 + n \<le> dst + 1" by auto
  note IH = "2.IH" [OF this]
  show ?case
  proof
    fix a
    show "memcpy dst src (Suc n) m a
            = (if dst \<le> a \<and> a < dst + Suc n then m (src + (a - dst)) else m a)"
      using "2.prems" unfolding memcpy.simps IH fun_upd_apply
      by (cases "a = dst") (auto intro!: arg_cong [where f = m])
  qed
qed (auto simp: fun_eq_iff)

lemma memcpy_down_apply:
  "src < dst \<Longrightarrow>
   memcpy_down (dst + n) (src + n) n m
     = (\<lambda>a. if dst \<le> a \<and> a < dst + n then m (src + (a - dst)) else m a)"
proof (induction n arbitrary: m)
  case (Suc n)
  show ?case using Suc.prems by (auto simp: fun_eq_iff Suc.IH [OF Suc.prems])
qed (auto simp: fun_eq_iff)

lemma memmove_apply:
  "memmove dst src n m = (\<lambda>a. if dst \<le> a \<and> a < dst + n then m (src + (a - dst)) else m a)"
proof (cases "src < dst \<and> src + n > dst")
  case True
  then show ?thesis by (simp add: memmove_def memcpy_down_apply)
next
  case False
  then have "dst \<le> src \<or> src + n \<le> dst" by auto
  with False show ?thesis by (simp only: memmove_def memcpy_apply if_False)
qed

lemma memchr_cases:
  "case memchr p c n m of
     None \<Rightarrow> \<forall>i<n. m (p + i) \<noteq> word_of_int c
   | Some q \<Rightarrow> \<exists>i<n. q = p + i \<and> m q = word_of_int c \<and> (\<forall>j<i. m (p + j) \<noteq> word_of_int c)"
proof (induction p c n m rule: memchr.induct)
  case (2 p c n m)
  show ?case
  proof (cases "m p = word_of_int c")
    case True
    then show ?thesis by auto
  next
    case False
    with "2.IH" False show ?thesis
      by (force simp: less_Suc_eq_0_disj split: option.splits)
  qed
qed simp

subsection \<open>Strings in memory\<close>

text \<open>\<open>cstr m p xs\<close>: the bytes at \<open>p\<close> are the non-zero bytes \<open>xs\<close> followed by a zero byte.\<close>

fun cstr :: "mem \<Rightarrow> nat \<Rightarrow> u8 list \<Rightarrow> bool" where
  "cstr m p [] = (m p = 0)"
| "cstr m p (x # xs) = (x \<noteq> 0 \<and> m p = x \<and> cstr m (p + 1) xs)"

lemma cstr_nonzero: "cstr m p xs \<Longrightarrow> 0 \<notin> set xs"
  by (induction xs arbitrary: p) auto

lemma cstr_append:
  "cstr m p (xs @ ys) \<longleftrightarrow>
   (\<forall>i<length xs. m (p + i) = xs ! i \<and> xs ! i \<noteq> 0) \<and> cstr m (p + length xs) ys"
proof (induction xs arbitrary: p)
  case (Cons x xs)
  show ?case by (auto simp: Cons.IH All_less_Suc2)
qed simp

lemma cstr_nth: "cstr m p xs \<Longrightarrow> i < length xs \<Longrightarrow> m (p + i) = xs ! i \<and> xs ! i \<noteq> 0"
  using cstr_append [of m p xs "[]"] by simp

lemma cstr_end: "cstr m p xs \<Longrightarrow> m (p + length xs) = 0"
  using cstr_append [of m p xs "[]"] by simp

lemma cstr_iff:
  "cstr m p xs \<longleftrightarrow> (\<forall>i<length xs. m (p + i) = xs ! i \<and> xs ! i \<noteq> 0) \<and> m (p + length xs) = 0"
  using cstr_append [of m p xs "[]"] by simp

lemma cstr_cong:
  "(\<And>i. i \<le> length xs \<Longrightarrow> m' (p + i) = m (p + i)) \<Longrightarrow> cstr m' p xs = cstr m p xs"
  by (simp add: cstr_iff)

lemma strlen_cstr: "cstr m s xs \<Longrightarrow> strlen s m = Some (length xs)"
proof -
  have "cstr m p xs \<Longrightarrow> strlen_loop p m = Some (p + length xs)" for p
    by (induction xs arbitrary: p) (simp_all add: strlen_loop.simps [of _ m])
  then show "cstr m s xs \<Longrightarrow> strlen s m = Some (length xs)" by (simp add: strlen_def)
qed

lemma strnlen_cstr: "cstr m s xs \<Longrightarrow> strnlen s n m = min n (length xs)"
proof (induction n arbitrary: s xs)
  case (Suc n)
  then show ?case by (cases xs) auto
qed simp

lemma strchr_cstr:
  "cstr m s xs \<Longrightarrow> c \<noteq> 0 \<Longrightarrow>
   strchr s c m = Some (if c \<in> set xs then Some (s + length (takeWhile (\<lambda>x. x \<noteq> c) xs)) else None)"
  by (induction xs arbitrary: s) (auto simp: strchr.simps [of _ c m])

lemma strchr_terminator: "cstr m s xs \<Longrightarrow> strchr s 0 m = Some (Some (s + length xs))"
  by (induction xs arbitrary: s) (auto simp: strchr.simps [of _ 0 m])

lemma strspn_cstr:
  "cstr m s xs \<Longrightarrow> cstr m sep ss \<Longrightarrow>
   strspn s sep m = Some (length (takeWhile (\<lambda>x. x \<in> set ss) xs))"
proof -
  have "cstr m p xs \<Longrightarrow> cstr m sep ss \<Longrightarrow>
        strspn_loop p sep m = Some (p + length (takeWhile (\<lambda>x. x \<in> set ss) xs))" for p
    by (induction xs arbitrary: p) (auto simp: strspn_loop.simps [of _ sep m] strchr_cstr)
  then show "cstr m s xs \<Longrightarrow> cstr m sep ss \<Longrightarrow> ?thesis" by (simp add: strspn_def)
qed

lemma strpbrk_cstr:
  "cstr m s xs \<Longrightarrow> cstr m sep ss \<Longrightarrow>
   strpbrk s sep m = Some (if \<exists>x\<in>set xs. x \<in> set ss
                           then Some (s + length (takeWhile (\<lambda>x. x \<notin> set ss) xs)) else None)"
  by (induction xs arbitrary: s) (auto simp: strpbrk.simps [of _ sep m] strchr_cstr)


subsection \<open>Comparing and copying strings\<close>

text \<open>The order of strings: by the first byte in which they differ, as unsigned bytes, a proper prefix
  first.\<close>

fun bytes_less :: "u8 list \<Rightarrow> u8 list \<Rightarrow> bool" where
  "bytes_less xs [] = False"
| "bytes_less [] (y # ys) = True"
| "bytes_less (x # xs) (y # ys) = (x < y \<or> x = y \<and> bytes_less xs ys)"

lemma cstr_0: "cstr m p xs \<Longrightarrow> m p = 0 \<longleftrightarrow> xs = []"
  by (cases xs) auto

lemma strcmp_cstr:
  "cstr m p xs \<Longrightarrow> cstr m q ys \<Longrightarrow>
   \<exists>r. strcmp p q m = Some r \<and> (r = 0 \<longleftrightarrow> xs = ys) \<and> (r < 0 \<longleftrightarrow> bytes_less xs ys)"
proof (induction xs ys arbitrary: p q rule: bytes_less.induct)
  case (1 xs)
  then show ?case
    by (cases xs) (auto simp: strcmp.simps [of p q] word_less_def unsigned_eq_0_iff intro: ccontr)
next
  case (2 y ys)
  then show ?case by (auto simp: strcmp.simps [of p q] unsigned_eq_0_iff word_neq_0_conv word_less_def)
next
  case (3 x xs y ys)
  show ?case
  proof (cases "x = y")
    case True
    with 3 show ?thesis by (auto simp: strcmp.simps [of p q])
  next
    case False
    with 3 show ?thesis by (auto simp: strcmp.simps [of p q] word_less_def dest: unsigned_word_eqI)
  qed
qed

lemma strncmp_cstr:
  "cstr m p xs \<Longrightarrow> cstr m q ys \<Longrightarrow>
   (strncmp p q n m = 0 \<longleftrightarrow> take n xs = take n ys) \<and>
   (strncmp p q n m < 0 \<longleftrightarrow> bytes_less (take n xs) (take n ys))"
proof (induction xs ys arbitrary: p q n rule: bytes_less.induct)
  case (1 xs)
  then show ?case
    by (cases xs; cases n) (auto simp: word_less_def unsigned_eq_0_iff)
next
  case (2 y ys)
  then show ?case
    by (cases n) (auto simp: unsigned_eq_0_iff word_neq_0_conv word_less_def)
next
  case (3 x xs y ys)
  show ?case
  proof (cases n)
    case (Suc k)
    with "3.prems" "3.IH" [of "p + 1" "q + 1" k] show ?thesis
      by (cases "x = y") (auto simp: word_less_def dest: unsigned_word_eqI)
  qed simp
qed

lemma strcpy_cstr:
  "cstr m s xs \<Longrightarrow> p \<le> s \<or> s + length xs < p \<Longrightarrow>
   strcpy p s m = Some (\<lambda>a. if p \<le> a \<and> a < p + length xs then xs ! (a - p)
                           else if a = p + length xs then 0 else m a)"
proof (induction xs arbitrary: p s m)
  case Nil
  then show ?case by (auto simp: strcpy.simps [of p s m] fun_eq_iff)
next
  case (Cons x xs)
  have "cstr (m(p := x)) (s + 1) xs \<longleftrightarrow> cstr m (s + 1) xs"
    using Cons.prems(2) by (intro cstr_cong) auto
  with Cons.prems have "cstr (m(p := x)) (s + 1) xs" by simp
  moreover have "p + 1 \<le> s + 1 \<or> s + 1 + length xs < p + 1" using Cons.prems(2) by auto
  ultimately have "strcpy (p + 1) (s + 1) (m(p := x))
     = Some (\<lambda>a. if p + 1 \<le> a \<and> a < p + 1 + length xs then xs ! (a - (p + 1))
                  else if a = p + 1 + length xs then 0 else (m(p := x)) a)"
    by (rule Cons.IH)
  with Cons.prems(1) show ?case
    by (auto simp: strcpy.simps [of p s m] fun_eq_iff nth_Cons split: nat.splits
        intro!: arg_cong [where f = "(!) xs"])
qed

lemma strncpy_cstr:
  "cstr m s xs \<Longrightarrow> p \<le> s \<or> s + length xs < p \<Longrightarrow>
   strncpy p s n m = (\<lambda>a. if p \<le> a \<and> a < p + n then if a - p < length xs then xs ! (a - p) else 0 else m a)"
proof (induction n arbitrary: p s m xs)
  case (Suc n)
  show ?case
  proof (cases xs)
    case Nil
    with Suc.prems(1) show ?thesis by (auto simp: memset_apply fun_eq_iff)
  next
    case (Cons x ys)
    have "cstr (m(p := x)) (s + 1) ys \<longleftrightarrow> cstr m (s + 1) ys"
      using Suc.prems(2) Cons by (intro cstr_cong) auto
    with Suc.prems(1) Cons have "cstr (m(p := x)) (s + 1) ys" by simp
    moreover have "p + 1 \<le> s + 1 \<or> s + 1 + length ys < p + 1" using Suc.prems(2) Cons by auto
    ultimately have "strncpy (p + 1) (s + 1) n (m(p := x))
       = (\<lambda>a. if p + 1 \<le> a \<and> a < p + 1 + n then if a - (p + 1) < length ys then ys ! (a - (p + 1)) else 0
              else (m(p := x)) a)"
      by (rule Suc.IH)
    with Suc.prems(1) Cons show ?thesis
      by (auto simp: fun_eq_iff nth_Cons split: nat.splits intro!: arg_cong [where f = "(!) ys"])
  qed
qed (auto simp: fun_eq_iff)


subsection \<open>Splitting a string into tokens\<close>

text \<open>The tokens of a string: its maximal non-empty runs of bytes that are not separators.\<close>

function tokens :: "u8 set \<Rightarrow> u8 list \<Rightarrow> u8 list list" where
  "tokens S xs =
     (let ys = dropWhile (\<lambda>x. x \<in> S) xs
      in if ys = [] then []
         else takeWhile (\<lambda>x. x \<notin> S) ys # tokens S (tl (dropWhile (\<lambda>x. x \<notin> S) ys)))"
  by pat_completeness auto
termination
proof (relation "measure (\<lambda>(S, xs). length xs)")
  fix S :: "u8 set" and xs ys :: "u8 list"
  assume ys: "ys = dropWhile (\<lambda>x. x \<in> S) xs" "ys \<noteq> []"
  then have "length (dropWhile (\<lambda>x. x \<notin> S) ys) \<le> length xs"
    by (metis le_trans length_dropWhile_le)
  moreover have "0 < length xs" using ys by (cases xs) auto
  ultimately show "((S, tl (dropWhile (\<lambda>x. x \<notin> S) ys)), S, xs) \<in> measure (\<lambda>(S, xs). length xs)"
    by (simp del: length_greater_0_conv)
qed simp

declare tokens.simps [simp del]

text \<open>A loop that calls \<open>strtok\<close> with the string first and with the null pointer from then on, until it
  returns the null pointer.\<close>

fun strtok_all :: "nat \<Rightarrow> nat option \<Rightarrow> nat \<Rightarrow> nat option \<Rightarrow> mem \<Rightarrow> (nat list \<times> mem) option" where
  "strtok_all 0 s sep state m = None"
| "strtok_all (Suc fuel) s sep state m = do {
     (r, state, m) \<leftarrow> strtok s sep state m;
     case r of
       None \<Rightarrow> Some ([], m)
     | Some p \<Rightarrow> do {
         (ps, m) \<leftarrow> strtok_all fuel None sep state m;
         Some (p # ps, m)
       }
   }"


text \<open>Where the pieces of a string lie: leading separators \<open>as\<close>, the token \<open>tok\<close>, the rest.\<close>

lemma token_split:
  "xs = takeWhile P xs @ takeWhile Q (dropWhile P xs) @ dropWhile Q (dropWhile P xs)"
  by simp

lemma strtok_cases:
  assumes s: "(if s \<noteq> None then s else state) = Some p"
    and xs: "cstr m p (as @ ys)" and ss: "cstr m sep ss"
    and as: "set as \<subseteq> set ss" and ys: "ys \<noteq> [] \<Longrightarrow> hd ys \<notin> set ss"
  shows "strtok s sep state m =
    (if ys = [] then Some (None, state, m)
     else let q = p + length as; e = q + length (takeWhile (\<lambda>x. x \<notin> set ss) ys)
          in if \<exists>x\<in>set ys. x \<in> set ss then Some (Some q, Some (e + 1), m(e := 0)) else Some (Some q, None, m))"
proof -
  have "takeWhile (\<lambda>x. x \<in> set ss) (as @ ys) = as"
    using as ys by (cases ys) (auto simp: takeWhile_append)
  then have span: "strspn p sep m = Some (length as)" using strspn_cstr [OF xs ss] by simp
  have ys_at: "cstr m (p + length as) ys" using xs by (simp add: cstr_append)
  show ?thesis
    using s span cstr_0 [OF ys_at] strpbrk_cstr [OF ys_at ss]
    by (auto simp: strtok_def Let_def split: if_splits)
qed

lemma strtok_all_cstr:
  assumes "(if s \<noteq> None then s else state) = Some p" "cstr m p xs" "cstr m sep ss"
    "sep + length ss < p \<or> p + length xs < sep" "length xs < fuel"
  shows "\<exists>ps m'. strtok_all fuel s sep state m = Some (ps, m') \<and> list_all2 (cstr m') ps (tokens (set ss) xs) \<and>
    (\<forall>a. a < p \<or> p + length xs < a \<longrightarrow> m' a = m a)"
  using assms
proof (induction "length xs" arbitrary: xs fuel s state p m rule: less_induct)
  case less
  define as where "as = takeWhile (\<lambda>x. x \<in> set ss) xs"
  define ys where "ys = dropWhile (\<lambda>x. x \<in> set ss) xs"
  define tok where "tok = takeWhile (\<lambda>x. x \<notin> set ss) ys"
  define rest where "rest = dropWhile (\<lambda>x. x \<notin> set ss) ys"
  have xs: "xs = as @ tok @ rest" by (simp add: as_def ys_def tok_def rest_def)
  have ys: "ys = tok @ rest" by (simp add: tok_def rest_def)
  obtain f where f: "fuel = Suc f" using less.prems(5) by (cases fuel) auto
  have "set as \<subseteq> set ss" by (auto simp: as_def dest: set_takeWhileD)
  moreover have "ys \<noteq> [] \<Longrightarrow> hd ys \<notin> set ss" unfolding ys_def by (rule hd_dropWhile)
  ultimately have step: "strtok s sep state m =
    (if ys = [] then Some (None, state, m)
     else let q = p + length as; e = q + length tok
          in if \<exists>x\<in>set ys. x \<in> set ss then Some (Some q, Some (e + 1), m(e := 0)) else Some (Some q, None, m))"
    unfolding tok_def using less.prems(1-3) xs ys by (intro strtok_cases) auto
  have toks: "tokens (set ss) xs = (if ys = [] then [] else tok # tokens (set ss) (tl rest))"
    by (subst tokens.simps) (simp add: Let_def ys_def tok_def rest_def)
  have tok_at: "\<forall>i<length tok. m (p + length as + i) = tok ! i \<and> tok ! i \<noteq> 0"
    and rest_at: "cstr m (p + length as + length tok) rest"
    using less.prems(2) unfolding xs by (simp_all add: cstr_append)
  have rest_sep: "(\<exists>x\<in>set ys. x \<in> set ss) \<longleftrightarrow> rest \<noteq> []"
    by (auto simp: rest_def)
  consider "ys = []" | "ys \<noteq> []" "rest = []" | "ys \<noteq> []" "rest \<noteq> []" by auto
  then show ?case
  proof cases
    case 1
    then show ?thesis by (simp add: f step toks)
  next
    case 2
    then have "0 < length xs" "length xs \<le> f" using less.prems(5) f xs ys by auto
    then have "f \<noteq> 0" by (simp del: length_greater_0_conv)
    then have "strtok_all f None sep None m = Some ([], m)"
      by (cases f) (simp_all add: strtok_def)
    moreover have "cstr m (p + length as) tok" using tok_at rest_at 2 by (simp add: cstr_iff)
    moreover have "tokens (set ss) [] = []" by (subst tokens.simps) simp
    ultimately show ?thesis using 2 rest_sep by (simp add: f step toks Let_def)
  next
    case 3
    then obtain x zs where rest: "rest = x # zs" by (cases rest) auto
    define e where "e = p + length as + length tok"
    have e: "p \<le> e" "e < p + length xs" "p + length xs = e + 1 + length zs"
      by (simp_all add: e_def xs rest)
    have "cstr (m(e := 0)) (e + 1) zs \<longleftrightarrow> cstr m (e + 1) zs" by (rule cstr_cong) simp
    then have zs: "cstr (m(e := 0)) (e + 1) zs" using rest_at rest by (simp add: e_def)
    have "cstr (m(e := 0)) sep ss \<longleftrightarrow> cstr m sep ss"
      using less.prems(4) e by (intro cstr_cong) auto
    then have ss: "cstr (m(e := 0)) sep ss" using less.prems(3) by simp
    obtain ps m' where IH: "strtok_all f None sep (Some (e + 1)) (m(e := 0)) = Some (ps, m')"
        "list_all2 (cstr m') ps (tokens (set ss) zs)"
        "\<forall>a. a < e + 1 \<or> e + 1 + length zs < a \<longrightarrow> m' a = (m(e := 0)) a"
      using less.hyps [of zs None "Some (e + 1)" "e + 1" "m(e := 0)" f] zs ss e less.prems(4,5) f
      by fastforce
    have "cstr m' (p + length as) tok" using tok_at IH(3) by (simp add: cstr_iff e_def)
    then show ?thesis using 3 rest_sep rest IH e
      by (simp add: f step toks Let_def e_def [symmetric])
  qed
qed


subsection \<open>Properties\<close>

text \<open>C20: \<open>memmove\<close> gives every byte of the destination the value its source byte had before the call,
  however the two blocks overlap, and changes no other byte; so it is \<open>memcpy\<close> through a copy of the source.\<close>

theorem memmove_any_overlap:
  "memmove dst src n m = (\<lambda>a. if dst \<le> a \<and> a < dst + n then m (src + (a - dst)) else m a)"
  by (rule memmove_apply)

text \<open>C21: a loop over \<open>strtok\<close> ends, returns pointers to the maximal separator-free runs of the string
  in their order, each of them a terminated string in the memory that is left, and writes nowhere outside
  the string.\<close>

theorem strtok_splits:
  assumes "cstr m s xs" "cstr m sep ss" "sep + length ss < s \<or> s + length xs < sep"
  shows "\<exists>ps m'. strtok_all (length xs + 1) (Some s) sep state m = Some (ps, m') \<and>
    list_all2 (cstr m') ps (tokens (set ss) xs) \<and> (\<forall>a. a < s \<or> s + length xs < a \<longrightarrow> m' a = m a)"
  using assms by (intro strtok_all_cstr) auto

text \<open>The string \<open>,ab,,c\<close> with the separator \<open>,\<close>.\<close>

theorem strtok_splits_witness:
  "let m = (\<lambda>a. if a < 5 then [44, 97, 98, 44, 99] ! a else if a = 10 then 44 else 0) in
   cstr m 0 [44, 97, 98, 44, 99] \<and> tokens (set [44]) [44, 97, 98, 44, 99] = [[97, 98], [99]] \<and>
   (\<exists>ps m'. strtok_all 6 (Some 0) 10 None m = Some (ps, m') \<and> list_all2 (cstr m') ps [[97, 98], [99]])"
proof -
  define m :: mem where "m = (\<lambda>a. if a < 5 then [44, 97, 98, 44, 99] ! a else if a = 10 then 44 else 0)"
  have c: "cstr m 0 [44, 97, 98, 44, 99]" "cstr m 10 [44]" by (simp_all add: m_def)
  have t: "tokens (set [44]) [44, 97, 98, 44, 99] = [[97, 98], [99]]"
    by code_simp
  have "10 + length [44 :: u8] < 0 \<or> 0 + length [44 :: u8, 97, 98, 44, 99] < (10 :: nat)"
    and l: "length [44 :: u8, 97, 98, 44, 99] + 1 = 6" by simp_all
  from strtok_splits [OF c this(1), of None]
  have "\<exists>ps m'. strtok_all 6 (Some 0) 10 None m = Some (ps, m') \<and> list_all2 (cstr m') ps [[97, 98], [99]]"
    unfolding l t by blast
  with c(1) t show ?thesis unfolding m_def [symmetric] Let_def by blast
qed

end
