(* ===== verification/Lib_Printf.thy ===== *)
theory Lib_Printf
  imports Lib_String
begin

section \<open>Formatted output\<close>

text \<open>
  Models \<open>__printf\<close> of \<open>kernel/lib/__printf.c\<close> with its helpers, and \<open>vsnprintf\<close> on top of it.  The output
  function is a parameter; it may change the memory, from which the format and the string arguments are
  read.  The variable arguments are a list; taking an argument of another type than the one passed is
  undefined and gives \<open>None\<close>, as a loop that does not end does.  The floating-point conversions are left
  out (\<open>None\<close>).  Pointers, \<open>int\<close> and \<open>long\<close> have 32 bits; field widths are unbounded integers.
\<close>

unbundle bit_operations_syntax

record 'a pft =
  xputc_arg :: 'a
  nchar :: int
  pft_flags :: u32
  pft_width :: int
  pft_precision :: int
  pft_length :: int
  pft_conversion :: u8

definition FLAG_LEFT :: u32 where "FLAG_LEFT = 1"
definition FLAG_SIGN :: u32 where "FLAG_SIGN = 2"
definition FLAG_BLANK :: u32 where "FLAG_BLANK = 4"
definition FLAG_ALT :: u32 where "FLAG_ALT = 8"
definition FLAG_ZERO :: u32 where "FLAG_ZERO = 16"

lemmas flag_defs = FLAG_LEFT_def FLAG_SIGN_def FLAG_BLANK_def FLAG_ALT_def FLAG_ZERO_def

definition flag_set :: "'a pft \<Rightarrow> u32 \<Rightarrow> bool" where
  "flag_set p f \<longleftrightarrow> pft_flags p AND f \<noteq> 0"

text \<open>The character constants of the source, and the test \<open>strchr(lit, c)\<close> on a literal, which also finds the
  terminating zero.\<close>

definition chr :: "char \<Rightarrow> u8" where "chr c = of_char c"

definition chrs :: "string \<Rightarrow> u8 list" where "chrs s = map of_char s"

definition in_literal :: "string \<Rightarrow> u8 \<Rightarrow> bool" where
  "in_literal lit c \<longleftrightarrow> c \<in> set (chrs lit) \<or> c = 0"

definition is_digit :: "u8 \<Rightarrow> bool" where
  "is_digit c \<longleftrightarrow> chr CHR ''0'' \<le> c \<and> c \<le> chr CHR ''9''"

subsection \<open>Fetching arguments\<close>

datatype printf_arg = Int_Arg u32 | Long_Long_Arg u64 | Ptr_Arg nat

fun va_int :: "printf_arg list \<Rightarrow> (u32 \<times> printf_arg list) option" where
  "va_int (Int_Arg w # ap) = Some (w, ap)"
| "va_int ap = None"

fun va_long_long :: "printf_arg list \<Rightarrow> (u64 \<times> printf_arg list) option" where
  "va_long_long (Long_Long_Arg w # ap) = Some (w, ap)"
| "va_long_long ap = None"

fun va_ptr :: "printf_arg list \<Rightarrow> (nat \<times> printf_arg list) option" where
  "va_ptr (Ptr_Arg p # ap) = Some (p, ap)"
| "va_ptr ap = None"

definition get_int_arg :: "printf_arg list \<Rightarrow> int \<Rightarrow> (u64 \<times> printf_arg list) option" where
  "get_int_arg ap len =
     (if len > 1 then va_long_long ap
      else do {
        (w, ap) \<leftarrow> va_int ap;
        Some (if len = 1 \<or> len = 0 then signed w
              else if len = - 1 then signed (ucast w :: u16)
              else signed (ucast w :: u8), ap)
      })"

definition get_uint_arg :: "printf_arg list \<Rightarrow> int \<Rightarrow> (u64 \<times> printf_arg list) option" where
  "get_uint_arg ap len =
     (if len > 1 then va_long_long ap
      else do {
        (w, ap) \<leftarrow> va_int ap;
        Some (if len = 1 \<or> len = 0 then unsigned w
              else if len = - 1 then unsigned (ucast w :: u16)
              else unsigned (ucast w :: u8), ap)
      })"

subsection \<open>Printing\<close>

type_synonym 'a xputc = "'a \<Rightarrow> u8 \<Rightarrow> mem \<Rightarrow> int \<times> 'a \<times> mem"

definition print_char :: "'a xputc \<Rightarrow> u8 \<Rightarrow> 'a pft \<times> mem \<Rightarrow> 'a pft \<times> mem" where
  "print_char xputc c pm =
     (let (p, m) = pm; (k, a, m) = xputc (xputc_arg p) c m
      in (p\<lparr>nchar := nchar p + k, xputc_arg := a\<rparr>, m))"

fun print_chars :: "'a xputc \<Rightarrow> u8 list \<Rightarrow> 'a pft \<times> mem \<Rightarrow> 'a pft \<times> mem" where
  "print_chars xputc [] pm = pm"
| "print_chars xputc (c # cs) pm = print_chars xputc cs (print_char xputc c pm)"

text \<open>The digits of a number, the least significant first, as the loop stores them.\<close>

function digits :: "string \<Rightarrow> nat \<Rightarrow> nat \<Rightarrow> u8 list" where
  "digits symbols b n =
     chrs symbols ! (n mod b) # (if n div b \<noteq> 0 \<and> b > 1 then digits symbols b (n div b) else [])"
  by pat_completeness auto
termination
  by (relation "measure (\<lambda>(symbols, b, n). n)") (auto simp: div_greater_zero_iff)

declare digits.simps [simp del]

text \<open>What \<open>print_int\<close> prints: blanks, the prefix, zeros, the digits and blanks.\<close>

definition int_prefix :: "'a pft \<Rightarrow> nat \<Rightarrow> bool \<Rightarrow> bool \<Rightarrow> u8 list" where
  "int_prefix p b upper neg =
     (if flag_set p FLAG_ALT
      then if b = 8 then chrs ''0'' else if b = 16 then chrs (if upper then ''X0'' else ''x0'') else []
      else []) @
     (if neg then chrs ''-'' else if flag_set p FLAG_SIGN then chrs ''+''
      else if flag_set p FLAG_BLANK then chrs '' '' else [])"

definition int_padding :: "'a pft \<Rightarrow> int \<Rightarrow> int \<Rightarrow> int \<times> int" where
  "int_padding p nprefix ndigits =
     (let nzeros = (if pft_precision p > ndigits then pft_precision p - ndigits else 0)
      in if pft_width p > nprefix + nzeros + ndigits
         then if flag_set p FLAG_ZERO \<and> \<not> flag_set p FLAG_LEFT
              then (pft_width p - (nprefix + ndigits), 0)
              else (nzeros, pft_width p - (nprefix + nzeros + ndigits))
         else (nzeros, 0))"

definition format_int :: "'a pft \<Rightarrow> u64 \<Rightarrow> u8 list" where
  "format_int p num =
     (let conv = pft_conversion p;
          b = (if in_literal ''oO'' conv then 8 else if in_literal ''xXp'' conv then 16 else 10);
          sgned = (conv = chr CHR ''d'' \<or> conv = chr CHR ''i'');
          upper = (conv = chr CHR ''O'' \<or> conv = chr CHR ''X'');
          symbols = (if upper then ''0123456789ABCDEF'' else ''0123456789abcdef'');
          neg = (sgned \<and> sint num < 0);
          abs_num = (if neg then - num else num);
          prefix = int_prefix p b upper neg;
          ds = digits symbols b (unat abs_num);
          (nzeros, nblanks) = int_padding p (int (length prefix)) (int (length ds));
          (before, after) = (if flag_set p FLAG_LEFT then (0, nblanks) else (nblanks, 0))
      in replicate (nat before) (chr CHR '' '') @ rev prefix @ replicate (nat nzeros) (chr CHR ''0'') @ rev ds @
         replicate (nat after) (chr CHR '' ''))"

definition print_int :: "'a xputc \<Rightarrow> u64 \<Rightarrow> 'a pft \<times> mem \<Rightarrow> 'a pft \<times> mem" where
  "print_int xputc num pm = print_chars xputc (format_int (fst pm) num) pm"

text \<open>The bytes of a string argument are read one by one, while the output goes on.\<close>

fun print_bytes :: "'a xputc \<Rightarrow> nat \<Rightarrow> nat \<Rightarrow> 'a pft \<times> mem \<Rightarrow> 'a pft \<times> mem" where
  "print_bytes xputc s 0 pm = pm"
| "print_bytes xputc s (Suc n) pm = print_bytes xputc (s + 1) n (print_char xputc (snd pm s) pm)"

definition print_str :: "'a xputc \<Rightarrow> nat \<Rightarrow> 'a pft \<times> mem \<Rightarrow> ('a pft \<times> mem) option" where
  "print_str xputc s pm = do {
     let p = fst pm;
     n \<leftarrow> strlen s (snd pm);
     let n = (if pft_precision p > 0 \<and> pft_precision p < int n then nat (pft_precision p) else n);
     let padding = (if pft_width p > int n then pft_width p - int n else 0);
     let pm = (if flag_set p FLAG_LEFT then print_bytes xputc s n pm else pm);
     let pm = print_chars xputc (replicate (nat padding) (chr CHR '' '')) pm;
     Some (if \<not> flag_set p FLAG_LEFT then print_bytes xputc s n pm else pm)
   }"

subsection \<open>Interpreting the format\<close>

partial_function (option) printf_literal ::
  "'a xputc \<Rightarrow> nat \<Rightarrow> 'a pft \<times> mem \<Rightarrow> (nat \<times> 'a pft \<times> mem) option" where
  "printf_literal xputc f pm =
     (if snd pm f \<noteq> 0 \<and> snd pm f \<noteq> chr CHR ''%''
      then printf_literal xputc (f + 1) (print_char xputc (snd pm f) pm)
      else Some (f, pm))"

definition flag_of :: "u8 \<Rightarrow> u32" where
  "flag_of c =
     (if c = chr CHR ''-'' then FLAG_LEFT else if c = chr CHR ''+'' then FLAG_SIGN
      else if c = chr CHR '' '' then FLAG_BLANK else if c = chr CHR ''#'' then FLAG_ALT
      else if c = chr CHR ''0'' then FLAG_ZERO else 0)"

partial_function (option) printf_flags :: "nat \<Rightarrow> u32 \<Rightarrow> mem \<Rightarrow> (nat \<times> u32) option" where
  "printf_flags f fl m =
     (if in_literal ''-+ #0'' (m f) then printf_flags (f + 1) (fl OR flag_of (m f)) m else Some (f, fl))"

partial_function (option) printf_number :: "nat \<Rightarrow> int \<Rightarrow> mem \<Rightarrow> (nat \<times> int) option" where
  "printf_number f n m =
     (if is_digit (m f) then printf_number (f + 1) (n * 10 + (uint (m f) - uint (chr CHR ''0''))) m
      else Some (f, n))"

partial_function (option) printf_length :: "nat \<Rightarrow> int \<Rightarrow> mem \<Rightarrow> (nat \<times> int) option" where
  "printf_length f n m =
     (if m f = chr CHR ''h'' then printf_length (f + 1) (n - 1) m
      else if m f = chr CHR ''l'' then printf_length (f + 1) (n + 1) m
      else Some (f, n))"

text \<open>The width; the flag of the result is the \<open>break\<close> out of the loop over the format that a negative
  width argument causes.\<close>

definition printf_width ::
  "nat \<Rightarrow> u32 \<Rightarrow> printf_arg list \<Rightarrow> mem \<Rightarrow> (bool \<times> nat \<times> u32 \<times> int \<times> printf_arg list) option" where
  "printf_width f fl ap m =
     (if m f = chr CHR ''*'' then do {
        (w, ap) \<leftarrow> va_int ap;
        if sint w < 0 then Some (True, f + 1, fl OR FLAG_LEFT, - sint w, ap)
        else Some (False, f + 1, fl, sint w, ap)
      }
      else if is_digit (m f) then do {
        (f, w) \<leftarrow> printf_number f 0 m;
        Some (False, f, fl, w, ap)
      }
      else Some (False, f, fl, - 1, ap))"

definition printf_precision :: "nat \<Rightarrow> printf_arg list \<Rightarrow> mem \<Rightarrow> (nat \<times> int \<times> printf_arg list) option" where
  "printf_precision f ap m =
     (if m f = chr CHR ''.''
      then if m (f + 1) = chr CHR ''*''
           then do { (w, ap) \<leftarrow> va_int ap; Some (f + 2, sint w, ap) }
           else do { (f, n) \<leftarrow> printf_number (f + 1) 0 m; Some (f, n, ap) }
      else Some (f, - 1, ap))"

partial_function (option) printf_rewind :: "nat \<Rightarrow> mem \<Rightarrow> nat option" where
  "printf_rewind f m = (if m f \<noteq> chr CHR ''%'' then printf_rewind (f - 1) m else Some f)"

definition store32 :: "nat \<Rightarrow> u32 \<Rightarrow> mem \<Rightarrow> mem" where
  "store32 a w m = m(a := ucast w, a + 1 := ucast (drop_bit 8 w), a + 2 := ucast (drop_bit 16 w),
                     a + 3 := ucast (drop_bit 24 w))"

text \<open>\<open>print_str\<close> on the literal \<open>(null)\<close>, which is not part of the modelled memory.\<close>

definition print_null :: "'a xputc \<Rightarrow> 'a pft \<times> mem \<Rightarrow> 'a pft \<times> mem" where
  "print_null xputc pm =
     (let p = fst pm;
          n = (if pft_precision p > 0 \<and> pft_precision p < 6 then nat (pft_precision p) else 6);
          pad = replicate (nat (pft_width p - int n)) (chr CHR '' '');
          s = take n (chrs ''(null)'')
      in print_chars xputc (if flag_set p FLAG_LEFT then s @ pad else pad @ s) pm)"

text \<open>One conversion.\<close>

definition printf_convert ::
  "'a xputc \<Rightarrow> nat \<Rightarrow> printf_arg list \<Rightarrow> 'a pft \<times> mem \<Rightarrow> (nat \<times> printf_arg list \<times> 'a pft \<times> mem) option" where
  "printf_convert xputc f ap pm =
     (let p = fst pm; conv = pft_conversion p in
      if conv = chr CHR ''d'' \<or> conv = chr CHR ''i'' then do {
        (num, ap) \<leftarrow> get_int_arg ap (pft_length p);
        Some (f, ap, print_int xputc num pm)
      }
      else if conv \<in> set (chrs ''uoOxX'') then do {
        (num, ap) \<leftarrow> get_uint_arg ap (pft_length p);
        Some (f, ap, print_int xputc num pm)
      }
      else if conv \<in> set (chrs ''fFaA'') then None
      else if conv = chr CHR ''p'' then do {
        let p = p\<lparr>pft_width := 10, pft_flags := pft_flags p OR (FLAG_ZERO OR FLAG_ALT)\<rparr>;
        (ptr, ap) \<leftarrow> va_ptr ap;
        Some (f, ap, print_int xputc (unsigned (of_nat ptr :: u32)) (p, snd pm))
      }
      else if conv = chr CHR ''c'' then do {
        (w, ap) \<leftarrow> va_int ap;
        Some (f, ap, print_char xputc (ucast w) pm)
      }
      else if conv = chr CHR ''s'' then do {
        (ptr, ap) \<leftarrow> va_ptr ap;
        pm \<leftarrow> (if ptr = 0 then Some (print_null xputc pm) else print_str xputc ptr pm);
        Some (f, ap, pm)
      }
      else if conv = chr CHR ''n'' then do {
        (ptr, ap) \<leftarrow> va_ptr ap;
        Some (f, ap, p, store32 ptr (word_of_int (nchar p)) (snd pm))
      }
      else if conv = chr CHR ''%'' then Some (f, ap, print_char xputc (chr CHR ''%'') pm)
      else do {
        f \<leftarrow> printf_rewind f (snd pm);
        Some (f, ap, pm)
      })"

text \<open>A conversion specification, from behind the percent sign to its last character.\<close>

definition printf_spec ::
  "'a xputc \<Rightarrow> nat \<Rightarrow> printf_arg list \<Rightarrow> 'a pft \<times> mem \<Rightarrow> (bool \<times> nat \<times> printf_arg list \<times> 'a pft \<times> mem) option" where
  "printf_spec xputc f ap pm = do {
     let m = snd pm;
     (f, fl) \<leftarrow> printf_flags f 0 m;
     (brk, f, fl, w, ap) \<leftarrow> printf_width f fl ap m;
     if brk then Some (True, f, ap, pm)
     else do {
       (f, prec, ap) \<leftarrow> printf_precision f ap m;
       (f, len) \<leftarrow> printf_length f 0 m;
       let p = (fst pm)\<lparr>pft_flags := fl, pft_width := w, pft_precision := prec, pft_length := len,
                        pft_conversion := m f\<rparr>;
       (f, ap, pm) \<leftarrow> printf_convert xputc f ap (p, m);
       Some (False, f, ap, pm)
     }
   }"

partial_function (option) printf_loop ::
  "'a xputc \<Rightarrow> nat \<Rightarrow> printf_arg list \<Rightarrow> 'a pft \<times> mem \<Rightarrow> ('a pft \<times> mem) option" where
  "printf_loop xputc f ap pm =
     (if snd pm f = 0 then Some pm
      else do {
        (f, pm) \<leftarrow> printf_literal xputc f pm;
        if snd pm f = 0 then Some pm
        else do {
          (brk, f, ap, pm) \<leftarrow> printf_spec xputc (f + 1) ap pm;
          if brk then Some pm else printf_loop xputc (f + 1) ap pm
        }
      })"

definition printf :: "'a xputc \<Rightarrow> 'a \<Rightarrow> nat \<Rightarrow> printf_arg list \<Rightarrow> mem \<Rightarrow> (int \<times> 'a \<times> mem) option" where
  "printf xputc a fmt ap m = do {
     (p, m) \<leftarrow> printf_loop xputc fmt ap
       (\<lparr>xputc_arg = a, nchar = 0, pft_flags = 0, pft_width = - 1, pft_precision = - 1, pft_length = 0,
         pft_conversion = 0\<rparr>, m);
     Some (nchar p, xputc_arg p, m)
   }"

declare printf_literal.simps [code] printf_flags.simps [code] printf_number.simps [code]
  printf_length.simps [code] printf_rewind.simps [code] printf_loop.simps [code]

subsection \<open>Printing into a buffer\<close>

record snprintfbuf =
  buf_s :: nat
  buf_idx :: nat
  buf_n :: nat

text \<open>The size has 32 bits: for a buffer of size 0 the test compares with the largest number.\<close>

definition putch :: "snprintfbuf xputc" where
  "putch buf ch m =
     (if int (buf_idx buf) < (int (buf_n buf) - 1) mod 2 ^ 32
      then (1, buf\<lparr>buf_idx := buf_idx buf + 1\<rparr>, m(buf_s buf + buf_idx buf := ch))
      else (0, buf, m))"

definition vsnprintf :: "nat \<Rightarrow> nat \<Rightarrow> nat \<Rightarrow> printf_arg list \<Rightarrow> mem \<Rightarrow> (int \<times> mem) option" where
  "vsnprintf s n fmt ap m = do {
     (k, buf, m) \<leftarrow> printf putch \<lparr>buf_s = s, buf_idx = 0, buf_n = n\<rparr> fmt ap m;
     Some (int (buf_idx buf), m(buf_s buf + buf_idx buf := 0))
   }"


subsection \<open>The output stays in the buffer\<close>











lemma buf_size: "0 < n \<Longrightarrow> n < 2 ^ 32 \<Longrightarrow> (int n - 1) mod 2 ^ 32 = int n - 1"
  by (simp add: mod_pos_pos_trivial)





subsection \<open>Printing a decimal number\<close>

lemma print_chars_putch:
  "print_chars putch cs (p, m) = (p', m') \<Longrightarrow> xputc_arg p = \<lparr>buf_s = s, buf_idx = i, buf_n = n\<rparr> \<Longrightarrow>
   0 < n \<Longrightarrow> n < 2 ^ 32 \<Longrightarrow> i < n \<Longrightarrow>
   xputc_arg p' = \<lparr>buf_s = s, buf_idx = min (n - 1) (i + length cs), buf_n = n\<rparr> \<and>
   m' = (\<lambda>a. if s + i \<le> a \<and> a < s + min (n - 1) (i + length cs) then cs ! (a - (s + i)) else m a)"
proof (induction cs arbitrary: p m i)
  case Nil
  then show ?case by (auto simp: fun_eq_iff)
next
  case (Cons c cs)
  show ?case
  proof (cases "i < n - 1")
    case True
    let ?p = "p\<lparr>nchar := nchar p + 1, xputc_arg := \<lparr>buf_s = s, buf_idx = i + 1, buf_n = n\<rparr>\<rparr>"
    have "print_char putch c (p, m) = (?p, m(s + i := c))"
      using Cons.prems(2-5) True of_nat_less_iff [of i "n - 1", where 'a = int]
      by (simp add: print_char_def putch_def buf_size of_nat_diff)
    then have "print_chars putch cs (?p, m(s + i := c)) = (p', m')" using Cons.prems(1) by simp
    from Cons.IH [OF this _ Cons.prems(3,4), of "i + 1"] True
    have r: "xputc_arg p' = \<lparr>buf_s = s, buf_idx = min (n - 1) (i + 1 + length cs), buf_n = n\<rparr>"
      "m' = (\<lambda>a. if s + (i + 1) \<le> a \<and> a < s + min (n - 1) (i + 1 + length cs) then cs ! (a - (s + (i + 1)))
                  else (m(s + i := c)) a)"
      by simp_all
    have "m' a = (if s + i \<le> a \<and> a < s + min (n - 1) (i + length (c # cs)) then (c # cs) ! (a - (s + i)) else m a)" for a
      using True unfolding r(2) by (cases "a = s + i") (auto simp: nth_Cons' intro!: arg_cong [where f = "(!) cs"])
    with r(1) show ?thesis by (simp add: fun_eq_iff)
  next
    case False
    then have "\<not> int i < int n - 1" by linarith
    then have "print_char putch c (p, m) = (p, m)"
      using Cons.prems(2-5) by (simp add: print_char_def putch_def buf_size)
    then have "print_chars putch cs (p, m) = (p', m')" using Cons.prems(1) by simp
    moreover have "min (n - 1) (i + length (c # cs)) = i" "min (n - 1) (i + length cs) = i"
      using False Cons.prems(5) by simp_all
    ultimately show ?thesis using Cons.IH [OF _ Cons.prems(2-5)] by (simp only: fun_eq_iff) auto
  qed
qed

text \<open>The decimal representation of a number.\<close>

definition decimal :: "int \<Rightarrow> u8 list" where
  "decimal k = (if k < 0 then chrs ''-'' else []) @ rev (digits ''0123456789abcdef'' 10 (nat \<bar>k\<bar>))"

lemma unat_word_of_int_u64:
  "unat (word_of_int k :: u64) = nat (k mod 2 ^ 64)"
  by (simp add: unat_eq_nat_uint uint_word_of_int)

lemma unat_abs_sint:
  fixes w :: u64
  shows "unat (if sint w < 0 then - w else w) = nat \<bar>sint w\<bar>"
proof -
  have b: "\<bar>sint w\<bar> \<le> 2 ^ 63" using sint_greater_eq [of w] sint_less [of w] by simp
  have "(if sint w < 0 then - w else w) = word_of_int \<bar>sint w\<bar>" by simp
  then have "unat (if sint w < 0 then - w else w) = nat (\<bar>sint w\<bar> mod 2 ^ 64)"
    by (simp only: unat_word_of_int_u64)
  also have "\<bar>sint w\<bar> mod 2 ^ 64 = \<bar>sint w\<bar>" using b by (intro mod_pos_pos_trivial) simp_all
  finally show ?thesis .
qed

lemma format_int_decimal:
  assumes "pft_conversion p = chr CHR ''d''" "pft_flags p = 0" "pft_width p = - 1" "pft_precision p = - 1"
  shows "format_int p w = decimal (sint w)"
proof -
  have lits: "\<not> in_literal ''oO'' (chr CHR ''d'')" "\<not> in_literal ''xXp'' (chr CHR ''d'')"
    "chr CHR ''d'' \<noteq> chr CHR ''O''" "chr CHR ''d'' \<noteq> chr CHR ''X''"
    by (simp_all add: in_literal_def chrs_def chr_def)
  have nf: "\<not> flag_set p f" for f by (simp add: flag_set_def assms(2))
  then have pre: "int_prefix p 10 False neg = (if neg then chrs ''-'' else [])" for neg
    by (simp add: int_prefix_def)
  have pad: "int_padding p (int a) (int b) = (0, 0)" for a b
    by (simp add: int_padding_def assms)
  show ?thesis
    by (simp only: format_int_def assms(1) Let_def lits if_False simp_thms pre pad unat_abs_sint prod.case
        decimal_def nf if_cancel) (simp add: chrs_def)
qed

lemma printf_spec_decimal:
  assumes "m f = chr CHR ''d''"
  shows "printf_spec xputc f (Int_Arg w # ap) (p, m) =
    Some (False, f, ap, print_chars xputc (decimal (sint w))
      (p\<lparr>pft_flags := 0, pft_width := - 1, pft_precision := - 1, pft_length := 0, pft_conversion := chr CHR ''d''\<rparr>, m))"
proof -
  have "printf_flags f 0 m = Some (f, 0)" "printf_length f 0 m = Some (f, 0)"
    "printf_precision f (Int_Arg w # ap) m = Some (f, - 1, Int_Arg w # ap)"
    "printf_width f 0 (Int_Arg w # ap) m = Some (False, f, 0, - 1, Int_Arg w # ap)"
    by (simp_all add: assms printf_flags.simps [of f] printf_length.simps [of f] printf_precision_def
        printf_width_def in_literal_def is_digit_def chrs_def chr_def)
  moreover have "sint (signed w :: u64) = sint w" by (simp add: sint_up_scast is_up)
  ultimately show ?thesis
    by (simp add: printf_spec_def printf_convert_def Let_def get_int_arg_def print_int_def
        format_int_decimal assms)
qed

lemma vsnprintf_decimal:
  assumes "cstr m fmt (chrs ''%d'')" "fmt + 2 < s \<or> s + n \<le> fmt" "0 < n" "n < 2 ^ 32"
    and k: "k = min (n - 1) (length (decimal (sint w)))"
  shows "vsnprintf s n fmt [Int_Arg w] m = Some (int k,
    \<lambda>a. if s \<le> a \<and> a < s + k then decimal (sint w) ! (a - s) else if a = s + k then 0 else m a)"
proof -
  let ?p = "\<lparr>xputc_arg = \<lparr>buf_s = s, buf_idx = 0, buf_n = n\<rparr>, nchar = 0, pft_flags = 0, pft_width = - 1,
    pft_precision = - 1, pft_length = 0, pft_conversion = 0\<rparr>"
  let ?q = "?p\<lparr>pft_conversion := chr CHR ''d''\<rparr>"
  have f: "m fmt = chr CHR ''%''" "m (fmt + 1) = chr CHR ''d''" "m (fmt + 2) = 0"
    using assms(1) by (simp_all add: chrs_def chr_def)
  have nz: "chr CHR ''%'' \<noteq> 0" by (simp add: chr_def)
  have lit: "printf_literal putch fmt (?p, m) = Some (fmt, ?p, m)"
    by (subst printf_literal.simps) (simp add: f)
  obtain p' m' where r: "print_chars putch (decimal (sint w)) (?q, m) = (p', m')" by fastforce
  have p': "xputc_arg p' = \<lparr>buf_s = s, buf_idx = k, buf_n = n\<rparr>"
    and m': "m' = (\<lambda>a. if s \<le> a \<and> a < s + k then decimal (sint w) ! (a - s) else m a)"
    using print_chars_putch [OF r, of s 0 n] assms(3,4) by (simp_all add: k cong: if_cong)
  have "m' (fmt + 2) = 0" using f(3) assms(2,3) unfolding m' k by auto
  then have "printf_loop putch (fmt + 2) [] (p', m') = Some (p', m')"
    by (subst printf_loop.simps) simp
  then have "printf_loop putch fmt [Int_Arg w] (?p, m) = Some (p', m')"
    using printf_spec_decimal [of m "fmt + 1" putch w "[]" ?p] f(2) r
    by (subst printf_loop.simps) (simp add: f(1) nz lit)
  then show ?thesis
    using p' m' by (auto simp: vsnprintf_def printf_def fun_eq_iff)
qed

subsection \<open>Properties\<close>



end
