(* ===== verification/Lib_Strtol.thy ===== *)
theory Lib_Strtol
  imports Lib_Printf
begin

section \<open>Reading numbers\<close>

text \<open>
  Models \<open>strtol\<close> and \<open>atoi\<close> of \<open>kernel/lib\<close>; \<open>long\<close> has 32 bits.  \<open>None\<close> is a loop that runs out of
  the memory without finding its end.  The result is the value and the pointer stored through
  \<open>endptr\<close>.  Composed with \<open>vsnprintf\<close> of the printing theory: what \<open>%d\<close> prints is read back.
\<close>

definition tolower :: "u8 \<Rightarrow> u8" where
  "tolower c = (if c \<ge> chr CHR ''A'' \<and> c \<le> chr CHR ''Z'' then c - (chr CHR ''A'' - chr CHR ''a'') else c)"

definition symbols :: "u8 list" where
  "symbols = chrs ''0123456789abcdefghijklmnopqrstufvxyz''"

text \<open>\<open>memchr\<close> on the literal: the index of the first of its elements that is the byte looked for.\<close>

fun index_of :: "u8 \<Rightarrow> u8 list \<Rightarrow> nat option" where
  "index_of c [] = None"
| "index_of c (x # xs) = (if x = c then Some 0 else map_option Suc (index_of c xs))"

partial_function (option) strtol_space :: "nat \<Rightarrow> mem \<Rightarrow> nat option" where
  "strtol_space s m = (if in_literal [CHR '' '', CHR 0x09, CHR 0x0D, CHR 0x0A] (m s) then strtol_space (s + 1) m else Some s)"

definition strtol_sign :: "nat \<Rightarrow> mem \<Rightarrow> bool \<times> nat" where
  "strtol_sign s m =
     (if m s = chr CHR ''-'' \<or> m s = chr CHR ''+'' then (m s = chr CHR ''-'', s + 1) else (False, s))"

definition strtol_prefix :: "nat \<Rightarrow> nat \<Rightarrow> mem \<Rightarrow> nat \<times> nat" where
  "strtol_prefix b s m =
     (let x = (m (s + 1) = chr CHR ''x'' \<or> m (s + 1) = chr CHR ''X'') in
      if b = 0
      then if m s = chr CHR ''0'' then if x then (16, s + 2) else (8, s + 1) else (10, s)
      else if b = 16
      then if m s = chr CHR ''0'' then (16, if x then s + 2 else s + 1) else (16, s)
      else (b, s))"

partial_function (option) strtol_digits :: "nat \<Rightarrow> nat \<Rightarrow> u32 \<Rightarrow> bool \<Rightarrow> mem \<Rightarrow> (nat \<times> u32 \<times> bool) option" where
  "strtol_digits b s value overflow m =
     (case index_of (tolower (m s)) (take b symbols) of
        None \<Rightarrow> Some (s, value, overflow)
      | Some d \<Rightarrow>
          if overflow then strtol_digits b (s + 1) value overflow m
          else let v = value * of_nat b + of_nat d in strtol_digits b (s + 1) v (v < value) m)"

definition LONG_MAX :: int where "LONG_MAX = 2147483647"
definition LONG_MIN :: int where "LONG_MIN = - 2147483648"

definition strtol :: "nat \<Rightarrow> int \<Rightarrow> mem \<Rightarrow> (int \<times> nat) option" where
  "strtol nptr bas m =
     (if bas < 0 \<or> bas = 1 \<or> bas > 32 then Some (0, nptr)
      else do {
        s \<leftarrow> strtol_space nptr m;
        let (negate, s) = strtol_sign s m;
        let (b, s) = strtol_prefix (nat bas) s m;
        (s, value, overflow) \<leftarrow> strtol_digits b s 0 False m;
        let overflow = (overflow \<or> (if negate then uint value > - LONG_MIN else uint value > LONG_MAX));
        Some (if overflow then if negate then LONG_MIN else LONG_MAX
              else sint (if negate then - value else value), s)
      })"

definition atoi :: "nat \<Rightarrow> mem \<Rightarrow> int option" where
  "atoi nptr m = map_option fst (strtol nptr 10 m)"

declare strtol_space.simps [code] strtol_digits.simps [code]

subsection \<open>Reading digits\<close>

lemma index_of_digit:
  "d < 10 \<Longrightarrow> index_of (tolower (chrs ''0123456789abcdef'' ! d)) (take 10 symbols) = Some d"
proof -
  have "list_all (\<lambda>d. index_of (tolower (chrs ''0123456789abcdef'' ! d)) (take 10 symbols) = Some d) [0..<10]"
    by code_simp
  then show "d < 10 \<Longrightarrow> ?thesis" by (simp only: list_all_iff set_upt) simp
qed

lemma index_of_0: "index_of (tolower 0) (take 10 symbols) = None"
  by code_simp

lemma rev_digits:
  "rev (digits S 10 n) = (if n < 10 then [chrs S ! n] else rev (digits S 10 (n div 10)) @ [chrs S ! (n mod 10)])"
  by (subst digits.simps) (auto simp: div_eq_0_iff)

lemma length_digits_pos: "0 < length (digits S 10 n)"
  by (subst digits.simps) simp

lemma length_digits_le: "n < 10 ^ Suc k \<Longrightarrow> length (digits S 10 n) \<le> Suc k"
proof (induction k arbitrary: n)
  case (Suc k)
  then have "n div 10 < 10 ^ Suc k" by (simp add: less_mult_imp_div_less mult.commute)
  from Suc.IH [OF this] show ?case by (subst digits.simps) auto
qed (subst digits.simps, simp)

lemma strtol_digits_decimal:
  fixes m :: mem
  assumes "n < 2 ^ 32" "\<forall>i<length (digits ''0123456789abcdef'' 10 n). m (s + i) = rev (digits ''0123456789abcdef'' 10 n) ! i"
  shows "strtol_digits 10 s 0 False m
    = strtol_digits 10 (s + length (digits ''0123456789abcdef'' 10 n)) (of_nat n) False m"
  using assms
proof (induction n rule: less_induct)
  case (less n)
  let ?D = "digits ''0123456789abcdef'' 10"
  show ?case
  proof (cases "n < 10")
    case True
    then have "?D n = [chrs ''0123456789abcdef'' ! n]" by (subst digits.simps) simp
    then show ?thesis using less.prems(2) index_of_digit [OF True]
      by (subst strtol_digits.simps) (simp add: Let_def)
  next
    case False
    define l where "l = length (?D (n div 10))"
    have r: "rev (?D n) = rev (?D (n div 10)) @ [chrs ''0123456789abcdef'' ! (n mod 10)]"
      using False by (simp add: rev_digits)
    have len: "length (?D n) = Suc l" using arg_cong [OF r, of length] by (simp add: l_def)
    have "\<forall>i<l. m (s + i) = rev (?D (n div 10)) ! i"
      using less.prems(2) unfolding len r by (auto simp: nth_append l_def less_Suc_eq)
    then have IH: "strtol_digits 10 s 0 False m = strtol_digits 10 (s + l) (of_nat (n div 10)) False m"
      using less.IH [of "n div 10"] less.prems(1) False by (simp add: l_def)
    have last: "m (s + l) = chrs ''0123456789abcdef'' ! (n mod 10)"
      using less.prems(2) unfolding len r by (auto simp: nth_append l_def)
    have "of_nat (n div 10) * of_nat 10 + of_nat (n mod 10) = (of_nat (n div 10 * 10 + n mod 10) :: u32)"
      by (simp only: of_nat_add of_nat_mult)
    then have v: "of_nat (n div 10) * 10 + of_nat (n mod 10) = (of_nat n :: u32)" by simp
    have "\<not> (of_nat n :: u32) < of_nat (n div 10)"
      using less.prems(1) by (simp add: word_less_nat_alt unat_of_nat div_le_dividend le_less_trans not_less)
    then show ?thesis
      unfolding IH len by (subst strtol_digits.simps) (simp add: last index_of_digit v Let_def)
  qed
qed

subsection \<open>Properties\<close>

lemma set_digits: "set (digits ''0123456789abcdef'' 10 n) \<subseteq> set (chrs ''0123456789'')"
proof (induction n rule: less_induct)
  case (less n)
  have "list_all (\<lambda>d. chrs ''0123456789abcdef'' ! d \<in> set (chrs ''0123456789'')) [0..<10]" by code_simp
  then have "d < 10 \<Longrightarrow> chrs ''0123456789abcdef'' ! d \<in> set (chrs ''0123456789'')" for d
    by (simp only: list_all_iff set_upt) simp
  moreover have "n div 10 \<noteq> 0 \<Longrightarrow> set (digits ''0123456789abcdef'' 10 (n div 10)) \<subseteq> set (chrs ''0123456789'')"
    by (rule less.IH) (auto intro!: div_less_dividend Nat.gr0I)
  ultimately show ?case by (subst digits.simps) auto
qed

lemma digit_bytes: "c \<in> set (chrs ''0123456789'') \<Longrightarrow>
    c \<notin> {0, 9, 10, 13, 32} \<and> c \<noteq> chr CHR ''-'' \<and> c \<noteq> chr CHR ''+''"
  by (auto simp: chrs_def chr_def)

lemma decimal_nonzero: "0 \<notin> set (decimal k)"
  using set_digits [of "nat \<bar>k\<bar>"] digit_bytes [of 0] by (auto simp: decimal_def chrs_def)

lemma strtol_space_0: "m s \<notin> {0, 9, 10, 13, 32} \<Longrightarrow> strtol_space s m = Some s"
  by (subst strtol_space.simps) (auto simp: in_literal_def chrs_def)

lemma strtol_digits_cstr:
  assumes "cstr m s (rev (digits ''0123456789abcdef'' 10 n))" "n < 2 ^ 32"
  shows "strtol_digits 10 s 0 False m = Some (s + length (digits ''0123456789abcdef'' 10 n), of_nat n, False)"
proof -
  have "\<forall>i<length (digits ''0123456789abcdef'' 10 n). m (s + i) = rev (digits ''0123456789abcdef'' 10 n) ! i"
    using cstr_nth [OF assms(1)] by simp
  from strtol_digits_decimal [OF assms(2) this] cstr_end [OF assms(1)] index_of_0 show ?thesis
    by (subst (asm) (2) strtol_digits.simps) simp
qed

lemma strtol_decimal:
  assumes "cstr m s (decimal k)" "- 2147483648 \<le> k" "k < 2147483648"
  shows "strtol s 10 m = Some (k, s + length (decimal k))"
proof (cases "k < 0")
  case True
  let ?n = "nat (- k)"
  have d: "decimal k = 45 # rev (digits ''0123456789abcdef'' 10 ?n)" using True by (simp add: decimal_def chrs_def)
  then have c: "m s = 45" "cstr m (s + 1) (rev (digits ''0123456789abcdef'' 10 ?n))" using assms(1) by simp_all
  have "unat (of_nat n :: u32) = n" if "n < 2 ^ 32" for n using that by (simp add: unat_of_nat)
  from this [of ?n] have "uint (of_nat ?n :: u32) = int ?n" using True assms(2) by (simp only: uint_nat) simp
  then have v: "uint (of_nat ?n :: u32) = - k" using True by simp
  have "word_of_int k = - (of_nat ?n :: u32)" using True by simp
  moreover have "sint (word_of_int k :: u32) = k"
    using assms(2,3) by (simp add: sint_sbintrunc' signed_take_bit_int_eq_self)
  ultimately have "sint (- of_nat ?n :: u32) = k" by simp
  then show ?thesis using strtol_digits_cstr [OF c(2)] True assms(2) c(1) v d
    by (simp add: strtol_def strtol_space_0 strtol_sign_def chr_def strtol_prefix_def Let_def LONG_MIN_def)
next
  case False
  let ?n = "nat k"
  have d: "decimal k = rev (digits ''0123456789abcdef'' 10 ?n)" using False by (simp add: decimal_def)
  have c: "cstr m s (rev (digits ''0123456789abcdef'' 10 ?n))" using assms(1) d by simp
  have "m s = hd (rev (digits ''0123456789abcdef'' 10 ?n))"
    using c length_digits_pos [of "''0123456789abcdef''" ?n]
    by (cases "rev (digits ''0123456789abcdef'' 10 ?n)") auto
  moreover have "hd (rev (digits ''0123456789abcdef'' 10 ?n)) \<in> set (digits ''0123456789abcdef'' 10 ?n)"
    using length_digits_pos [of "''0123456789abcdef''" ?n] hd_in_set [of "rev (digits ''0123456789abcdef'' 10 ?n)"]
    by simp
  ultimately have "m s \<in> set (chrs ''0123456789'')" using set_digits [of ?n] by (simp only: subset_iff)
  from digit_bytes [OF this] have s: "m s \<notin> {0, 9, 10, 13, 32}" "m s \<noteq> chr CHR ''-''" "m s \<noteq> chr CHR ''+''"
    by simp_all
  have v: "uint (of_nat ?n :: u32) = k" "sint (of_nat ?n :: u32) = k"
    using False assms(3) by (simp_all add: uint_word_of_int sint_sbintrunc' signed_take_bit_int_eq_self)
  then show ?thesis using strtol_digits_cstr [OF c] False assms(3) s d
    by (simp add: strtol_def strtol_space_0 strtol_sign_def strtol_prefix_def Let_def LONG_MAX_def)
qed

lemma length_decimal: "- 2147483648 \<le> k \<Longrightarrow> k < 2147483648 \<Longrightarrow> length (decimal k) \<le> 11"
  using length_digits_le [of "nat \<bar>k\<bar>" 9 "''0123456789abcdef''"]
  by (cases "k < 0") (simp_all add: decimal_def chrs_def nat_less_iff)

text \<open>C25: a number printed with \<open>%d\<close> into a buffer of at least twelve bytes and read back with \<open>strtol\<close> is the
  number, and \<open>strtol\<close> stops at the end of the string.\<close>

theorem strtol_reads_back_decimal:
  assumes "cstr m fmt (chrs ''%d'')" "fmt + 2 < s \<or> s + n \<le> fmt" "12 \<le> n" "n < 2 ^ 32"
  shows "\<exists>r m'. vsnprintf s n fmt [Int_Arg w] m = Some (r, m') \<and> strtol s 10 m' = Some (sint w, s + nat r)"
proof -
  let ?d = "decimal (sint w)"
  have b: "- 2147483648 \<le> sint w" "sint w < 2147483648" using sint_greater_eq [of w] sint_less [of w] by simp_all
  have k: "length ?d = min (n - 1) (length ?d)" using length_decimal [OF b] assms(3) by simp
  define m' where "m' = (\<lambda>a. if s \<le> a \<and> a < s + length ?d then ?d ! (a - s) else if a = s + length ?d then 0 else m a)"
  have "vsnprintf s n fmt [Int_Arg w] m = Some (int (length ?d), m')"
    unfolding m'_def using assms by (intro vsnprintf_decimal k) simp_all
  moreover have "cstr m' s ?d"
    unfolding cstr_iff m'_def using decimal_nonzero [of "sint w"] by (auto simp: in_set_conv_nth)
  from strtol_decimal [OF this b] have "strtol s 10 m' = Some (sint w, s + length ?d)" .
  ultimately show ?thesis by auto
qed

text \<open>The smallest number.\<close>

theorem strtol_reads_back_decimal_witness:
  "let m = (\<lambda>a. if a = 50 then 37 else if a = 51 then 100 else 0) in
   \<exists>r m'. vsnprintf 10 12 50 [Int_Arg 0x80000000] m = Some (r, m') \<and>
     strtol 10 10 m' = Some (- 2147483648, 10 + nat r)"
proof -
  define m :: mem where "m = (\<lambda>a. if a = 50 then 37 else if a = 51 then 100 else 0)"
  have "cstr m 50 (chrs ''%d'')" by (simp add: m_def chrs_def)
  from strtol_reads_back_decimal [OF this, of 10 12 "0x80000000"]
  have "\<exists>r m'. vsnprintf 10 12 50 [Int_Arg 0x80000000] m = Some (r, m') \<and>
     strtol 10 10 m' = Some (- 2147483648, 10 + nat r)" by simp
  then show ?thesis unfolding m_def Let_def .
qed

text \<open>The overflow test only notices a wrapped value that is smaller than the one before.\<close>

lemma strtol_misses_overflow:
  "strtol 0 10 (\<lambda>a. if a < 10 then chrs ''5000000000'' ! a else 0) = Some (705032704, 10)"
  by code_simp

end
