(* ===== verification/Lib_Time.thy ===== *)
theory Lib_Time
  imports Kernel_Prelude "HOL-Library.Signed_Division"
begin

section \<open>Calendar time\<close>

text \<open>
  Models \<open>gmtime\<close> and \<open>mktime\<close> of \<open>kernel/lib\<close>: the conversion between seconds since the epoch and a
  broken-down time.  Division and remainder truncate towards zero, as in C.  The sums of \<open>mktime\<close> are of type
  \<open>int\<close>; \<open>None\<close> is an intermediate result that does not fit into 32 bits.
\<close>

record tm =
  tm_sec :: int
  tm_min :: int
  tm_hour :: int
  tm_mday :: int
  tm_mon :: int
  tm_year :: int
  tm_wday :: int
  tm_yday :: int
  tm_isdst :: int

definition daysto :: "bool \<Rightarrow> int list" where
  "daysto leap =
     (if leap then [0, 31, 60, 91, 121, 152, 182, 213, 244, 274, 305, 335]
      else [0, 31, 59, 90, 120, 151, 181, 212, 243, 273, 304, 334])"

definition is_leap :: "int \<Rightarrow> bool" where
  "is_leap year \<longleftrightarrow> year smod 4 = 0 \<and> year smod 100 \<noteq> 0 \<or> year smod 400 = 0"

function gmtime_years :: "int \<Rightarrow> int \<Rightarrow> bool \<Rightarrow> int \<times> int \<times> bool" where
  "gmtime_years days year leap =
     (if days \<ge> 365
      then gmtime_years (days - (if leap then 366 else 365)) (year + 1) (is_leap (year + 1))
      else (days, year, leap))"
  by pat_completeness auto
termination
  by (relation "measure (\<lambda>(days, year, leap). nat days)") auto

function gmtime_month :: "nat \<Rightarrow> int \<Rightarrow> bool \<Rightarrow> nat" where
  "gmtime_month mon days leap =
     (if mon < 11 \<and> days \<ge> daysto leap ! (mon + 1) then gmtime_month (mon + 1) days leap else mon)"
  by pat_completeness auto
termination
  by (relation "measure (\<lambda>(mon, days, leap). 11 - mon)") auto

declare gmtime_years.simps [simp del] gmtime_month.simps [simp del]

definition gmtime :: "int \<Rightarrow> tm" where
  "gmtime timer =
     (let days = timer sdiv 86400;
          secs = timer smod 86400;
          wday = (days + 4) smod 7;
          (days, year, leap) = gmtime_years days 1970 False;
          mon = gmtime_month 0 days leap
      in \<lparr>tm_sec = secs smod 60, tm_min = secs sdiv 60 smod 60, tm_hour = secs sdiv 3600,
          tm_mday = days - daysto leap ! mon + 1, tm_mon = int mon, tm_year = year - 1900,
          tm_wday = wday, tm_yday = days, tm_isdst = 0\<rparr>)"

definition int_val :: "int \<Rightarrow> int option" where
  "int_val x = (if - 2147483648 \<le> x \<and> x < 2147483648 then Some x else None)"

fun int_sum :: "int \<Rightarrow> int list \<Rightarrow> int option" where
  "int_sum x [] = Some x"
| "int_sum x (y # ys) = do { y \<leftarrow> int_val y; z \<leftarrow> int_val (x + y); int_sum z ys }"

definition mktime :: "tm \<Rightarrow> int option" where
  "mktime t =
     int_sum (tm_sec t)
       [tm_min t * 60, tm_hour t * 3600, tm_yday t * 86400, (tm_year t - 70) * 31536000,
        ((tm_year t - 69) sdiv 4) * 86400, - (((tm_year t - 1) sdiv 100) * 86400),
        ((tm_year t + 299) sdiv 400) * 86400]"

subsection \<open>The calendar\<close>

text \<open>The length of a year and of a month, and the days from the first of January 1970 to the first
  of January of a year.\<close>

definition year_length :: "int \<Rightarrow> int" where
  "year_length y = (if is_leap y then 366 else 365)"

definition month_length :: "int \<Rightarrow> int \<Rightarrow> int" where
  "month_length y mon =
     (if mon = 1 then if is_leap y then 29 else 28
      else if mon \<in> {3, 5, 8, 10} then 30 else 31)"

definition days_before_year :: "int \<Rightarrow> int" where
  "days_before_year y = (\<Sum>k\<in>{1970..<y}. year_length k)"

lemma sdiv_nonneg [simp]: "0 \<le> a \<Longrightarrow> 0 < b \<Longrightarrow> a sdiv b = a div (b :: int)"
  by (simp add: signed_divide_int_def sgn_if)

lemma smod_nonneg [simp]: "0 \<le> a \<Longrightarrow> 0 < b \<Longrightarrow> a smod b = a mod (b :: int)"
  by (cases "a = 0") (simp_all add: signed_modulo_int_def minus_div_mult_eq_mod)

lemma days_before_year_1970 [simp]: "days_before_year 1970 = 0"
  by (simp add: days_before_year_def)

lemma days_before_year_Suc: "1970 \<le> y \<Longrightarrow> days_before_year (y + 1) = days_before_year y + year_length y"
proof -
  assume "1970 \<le> y"
  then have "{1970..<y + 1} = insert y {1970..<y}" by auto
  then show ?thesis by (simp add: days_before_year_def)
qed

lemma div_step:
  assumes "0 < c"
  shows "(a + 1) div c = a div c + (if (a + 1) mod c = 0 then 1 else 0 :: int)"
proof -
  have a: "a = c * (a div c) + a mod c" "0 \<le> a mod c" "a mod c < c" using assms by auto
  show ?thesis
  proof (cases "a mod c + 1 = c")
    case True
    then have "a + 1 = c * (a div c) + c" using a(1) by linarith
    then have "a + 1 = c * (a div c + 1)" by (simp add: distrib_left)
    then show ?thesis using assms by simp
  next
    case False
    then have "a + 1 = c * (a div c) + (a mod c + 1)" "0 \<le> a mod c + 1" "a mod c + 1 < c"
      using a by linarith+
    then have "(a + 1) div c = a div c" "(a + 1) mod c = a mod c + 1"
      by (rule int_div_pos_eq, rule int_mod_pos_eq)
    then show ?thesis using a(2) by simp
  qed
qed

lemma div_leap:
  "0 < c \<Longrightarrow> (y + 1 - (c * j + 1)) div c = (y - (c * j + 1)) div c + (if y mod c = 0 then 1 else 0 :: int)"
proof -
  assume "0 < c"
  have "(y - c * j) mod c = y mod c" using mod_mult_self1 [of y "- j" c] by (simp add: mult.commute)
  moreover have "y - (c * j + 1) + 1 = y - c * j" "y + 1 - (c * j + 1) = y - c * j" by simp_all
  ultimately show ?thesis using div_step [OF \<open>0 < c\<close>, of "y - (c * j + 1)"] by simp
qed

definition leap_days :: "int \<Rightarrow> int" where
  "leap_days y = (y - 1969) div 4 - (y - 1901) div 100 + (y - 1601) div 400"

lemma leap_days_Suc: "0 \<le> y \<Longrightarrow> leap_days (y + 1) = leap_days y + (if is_leap y then 1 else 0)"
proof -
  assume "0 \<le> y"
  have "100 dvd (400 :: int)" "4 dvd (100 :: int)" by simp_all
  then have dvd: "y mod 400 = 0 \<Longrightarrow> y mod 100 = 0" "y mod 100 = 0 \<Longrightarrow> y mod 4 = 0"
    by (simp_all only: mod_eq_0_iff_dvd) (blast intro: dvd_trans)+
  have "4 * 492 + 1 = (1969 :: int)" "100 * 19 + 1 = (1901 :: int)" "400 * 4 + 1 = (1601 :: int)" by simp_all
  note shift = div_leap [of 4 y 492, unfolded this] div_leap [of 100 y 19, unfolded this]
    div_leap [of 400 y 4, unfolded this]
  have leap: "is_leap y \<longleftrightarrow> y mod 4 = 0 \<and> y mod 100 \<noteq> 0 \<or> y mod 400 = 0"
    using \<open>0 \<le> y\<close> by (simp add: is_leap_def)
  show ?thesis
    unfolding leap_days_def shift [OF zero_less_numeral] leap
    using dvd by (cases "y mod 4 = 0"; cases "y mod 100 = 0"; cases "y mod 400 = 0") simp_all
qed

lemma days_before_year_closed:
  "1970 \<le> y \<Longrightarrow> days_before_year y = (y - 1970) * 365 + leap_days y"
proof (induction y rule: int_ge_induct)
  case (step y)
  then show ?case by (simp add: days_before_year_Suc year_length_def leap_days_Suc)
qed (simp add: leap_days_def)

lemma year_length_bounds: "365 \<le> year_length y" "year_length y \<le> 366"
  by (simp_all add: year_length_def)
lemma days_before_year_mono:
  "1970 \<le> y \<Longrightarrow> y \<le> z \<Longrightarrow> days_before_year y + (z - y) * 365 \<le> days_before_year z"
proof (rule int_ge_induct [of y z], goal_cases)
  case (3 z)
  then show ?case using days_before_year_Suc [of z] year_length_bounds(1) [of z] by simp
qed simp_all

subsection \<open>The two loops\<close>

lemma gmtime_years_cases:
  "1970 \<le> year \<Longrightarrow> 0 \<le> days \<Longrightarrow> leap = is_leap year \<Longrightarrow>
   gmtime_years days year leap = (d, y, l) \<Longrightarrow>
   year \<le> y \<and> l = is_leap y \<and> days_before_year year + days = days_before_year y + d \<and> d < 365 \<and>
   (0 \<le> d \<or> d = - 1 \<and> year < y \<and> is_leap (y - 1))"
proof (induction days year leap rule: gmtime_years.induct)
  case (1 days year leap)
  show ?case
  proof (cases "365 \<le> days")
    case False
    with "1.prems" show ?thesis by (auto simp: gmtime_years.simps [of days])
  next
    case True
    define days' where "days' = days - year_length year"
    have res: "gmtime_years days' (year + 1) (is_leap (year + 1)) = (d, y, l)"
      using "1.prems" True by (simp add: gmtime_years.simps [of days] days'_def year_length_def)
    have sum: "days_before_year (year + 1) + days' = days_before_year year + days"
      using "1.prems"(1) by (simp add: days_before_year_Suc days'_def)
    show ?thesis
    proof (cases "0 \<le> days'")
      case True
      with "1.IH" [OF \<open>365 \<le> days\<close>] "1.prems" res sum show ?thesis
        by (auto simp: days'_def year_length_def)
    next
      case False
      then have "days' = - 1" "is_leap year" using \<open>365 \<le> days\<close>
        by (auto simp: days'_def year_length_def split: if_splits)
      with res sum show ?thesis by (auto simp: gmtime_years.simps [of "- 1"])
    qed
  qed
qed

lemma gmtime_month_cases:
  "mon \<le> 11 \<Longrightarrow> gmtime_month mon d l = m \<Longrightarrow>
   mon \<le> m \<and> m \<le> 11 \<and> (m = mon \<or> daysto l ! m \<le> d) \<and> (m = 11 \<or> d < daysto l ! (m + 1))"
proof (induction mon d l rule: gmtime_month.induct)
  case (1 mon d l)
  show ?case
  proof (cases "mon < 11 \<and> d \<ge> daysto l ! (mon + 1)")
    case True
    with 1 show ?thesis by (subst (asm) gmtime_month.simps [of mon]) (auto simp del: One_nat_def)
  next
    case False
    with "1.prems" show ?thesis
      by (subst (asm) gmtime_month.simps [of mon]) (auto simp: not_less)
  qed
qed

lemma month_cases: "m \<le> 11 \<Longrightarrow> m \<in> {0, 1, 2, 3, 4, 5, 6, 7, 8, 9, 10, 11 :: nat}"
  by simp presburger

lemma month_length_daysto:
  "m \<le> 11 \<Longrightarrow> month_length y (int m)
     = (if m = 11 then year_length y else daysto (is_leap y) ! (m + 1)) - daysto (is_leap y) ! m"
  by (drule month_cases, elim insertE emptyE) (simp_all add: month_length_def daysto_def year_length_def)

lemma daysto_nonneg: "m \<le> 11 \<Longrightarrow> 0 \<le> daysto l ! m"
  by (drule month_cases, elim insertE emptyE) (simp_all add: daysto_def)

lemma gmtime_month_day:
  assumes "d < year_length y" "gmtime_month 0 d (is_leap y) = m"
  shows "0 \<le> d \<Longrightarrow> 1 \<le> d - daysto (is_leap y) ! m + 1 \<and> d - daysto (is_leap y) ! m + 1 \<le> month_length y (int m)"
    and "d < 0 \<Longrightarrow> m = 0" and "m \<le> 11"
proof -
  have m: "m \<le> 11" "m = 0 \<or> daysto (is_leap y) ! m \<le> d" "m = 11 \<or> d < daysto (is_leap y) ! (m + 1)"
    using gmtime_month_cases [OF _ assms(2)] by simp_all
  then show "m \<le> 11" by simp
  show "d < 0 \<Longrightarrow> m = 0" using m(2) daysto_nonneg [OF m(1), of "is_leap y"] by linarith
  have "daysto (is_leap y) ! 0 = 0" by (simp add: daysto_def)
  then show "0 \<le> d \<Longrightarrow> 1 \<le> d - daysto (is_leap y) ! m + 1 \<and> d - daysto (is_leap y) ! m + 1 \<le> month_length y (int m)"
    using m month_length_daysto [OF m(1), of y] assms(1) by auto
qed

subsection \<open>Properties\<close>

text \<open>\<open>leap_year_end day\<close>: the day, counted from the epoch, is the last day of a leap year.\<close>

definition leap_year_end :: "int \<Rightarrow> bool" where
  "leap_year_end day \<longleftrightarrow> (\<exists>y\<ge>1970. is_leap y \<and> day + 1 = days_before_year (y + 1))"

lemma leap_year_end_iff:
  assumes "1970 \<le> y" "day = days_before_year y + d" "d < 365" "0 \<le> d \<or> d = - 1 \<and> 1970 < y \<and> is_leap (y - 1)"
  shows "leap_year_end day \<longleftrightarrow> d < 0"
proof
  assume "d < 0"
  with assms have "day + 1 = days_before_year (y - 1 + 1)" "is_leap (y - 1)" "1970 \<le> y - 1" by auto
  then show "leap_year_end day" unfolding leap_year_end_def by blast
next
  assume "leap_year_end day"
  then obtain z where z: "1970 \<le> z" "is_leap z" "day + 1 = days_before_year (z + 1)"
    unfolding leap_year_end_def by blast
  have len: "days_before_year (z + 1) = days_before_year z + 366"
    using z days_before_year_Suc [of z] by (simp add: year_length_def)
  consider "y < z" | "y = z" | "z + 1 \<le> y" by linarith
  then show "d < 0"
  proof cases
    case 1
    then show ?thesis using days_before_year_mono [of y z] assms(1-3) z(3) len by simp
  next
    case 2
    then show ?thesis using assms(2,3) z(3) len by simp
  next
    case 3
    then show ?thesis using days_before_year_mono [of "z + 1" y] z(1,3) assms(2) by simp
  qed
qed

lemma gmtime_fields:
  assumes "0 \<le> t"
  obtains d y m where "gmtime_years (t div 86400) 1970 False = (d, y, is_leap y)"
    "1970 \<le> y" "t div 86400 = days_before_year y + d" "d < 365" "0 \<le> d \<or> d = - 1 \<and> 1970 < y \<and> is_leap (y - 1)"
    "gmtime_month 0 d (is_leap y) = m"
    "gmtime t = \<lparr>tm_sec = t mod 86400 mod 60, tm_min = t mod 86400 div 60 mod 60, tm_hour = t mod 86400 div 3600,
       tm_mday = d - daysto (is_leap y) ! m + 1, tm_mon = int m, tm_year = y - 1900,
       tm_wday = (t div 86400 + 4) mod 7, tm_yday = d, tm_isdst = 0\<rparr>"
proof -
  obtain d y l where r: "gmtime_years (t div 86400) 1970 False = (d, y, l)" by (metis prod_cases3)
  have leap: "False = is_leap 1970" by (simp add: is_leap_def)
  have c: "1970 \<le> y" "l = is_leap y" "t div 86400 = days_before_year y + d" "d < 365"
    "0 \<le> d \<or> d = - 1 \<and> 1970 < y \<and> is_leap (y - 1)"
    using gmtime_years_cases [OF _ _ leap r] assms by (simp_all add: pos_imp_zdiv_nonneg_iff)
  show thesis
    using that [OF _ c(1,3-5) refl] r c(2) assms
    by (simp add: gmtime_def Let_def pos_imp_zdiv_nonneg_iff)
qed

lemma clock_split:
  fixes s :: int
  assumes "0 \<le> s" "s < 86400"
  obtains hh mm ss where "s div 3600 = hh" "s div 60 mod 60 = mm" "s mod 60 = ss"
    "s = hh * 3600 + mm * 60 + ss" "0 \<le> hh" "hh < 24" "0 \<le> mm" "mm < 60" "0 \<le> ss" "ss < 60"
proof -
  have "s div 3600 = s div 60 div 60" by (simp add: zdiv_zmult2_eq [symmetric])
  then have "s div 60 = s div 3600 * 60 + s div 60 mod 60" by simp
  moreover have "s = s div 60 * 60 + s mod 60" by simp
  ultimately have "s = s div 3600 * 3600 + s div 60 mod 60 * 60 + s mod 60" by linarith
  moreover have "0 \<le> s div 3600" "s div 3600 < 24" using assms by (simp_all add: pos_imp_zdiv_nonneg_iff)
  ultimately show thesis by (rule that [OF refl refl refl]) simp_all
qed

text \<open>All that \<open>gmtime\<close> returns, in terms of the day, the year and the time of the day.\<close>

lemma gmtime_parts:
  assumes "0 \<le> t"
  obtains day d y m hh mm ss where
    "t div 86400 = day" "t mod 86400 = hh * 3600 + mm * 60 + ss" "t = day * 86400 + hh * 3600 + mm * 60 + ss"
    "0 \<le> hh" "hh < 24" "0 \<le> mm" "mm < 60" "0 \<le> ss" "ss < 60"
    "1970 \<le> y" "day = days_before_year y + d" "d < 365" "0 \<le> d \<or> d = - 1 \<and> 1970 < y \<and> is_leap (y - 1)"
    "gmtime_month 0 d (is_leap y) = m"
    "gmtime t = \<lparr>tm_sec = ss, tm_min = mm, tm_hour = hh, tm_mday = d - daysto (is_leap y) ! m + 1,
       tm_mon = int m, tm_year = y - 1900, tm_wday = (day + 4) mod 7, tm_yday = d, tm_isdst = 0\<rparr>"
proof -
  have s: "0 \<le> t mod 86400" "t mod 86400 < 86400" by simp_all
  obtain hh mm ss where h: "t mod 86400 div 3600 = hh" "t mod 86400 div 60 mod 60 = mm" "t mod 86400 mod 60 = ss"
    "t mod 86400 = hh * 3600 + mm * 60 + ss" "0 \<le> hh" "hh < 24" "0 \<le> mm" "mm < 60" "0 \<le> ss" "ss < 60"
    by (rule clock_split [OF s])
  have t: "t = t div 86400 * 86400 + hh * 3600 + mm * 60 + ss"
    using div_mult_mod_eq [of t 86400] h(4) by linarith
  show thesis by (rule gmtime_fields [OF assms]) (rule that [OF refl h(4) t h(5-10)], simp_all only: h(1-3))
qed

text \<open>C22: for a time after the epoch \<open>gmtime\<close> returns the time of day and the date in the Gregorian calendar,
  except on the last day of a leap year, for which it returns day 0 of January of the following year.\<close>

theorem gmtime_date:
  assumes "0 \<le> t"
  shows "let r = gmtime t; y = tm_year r + 1900; day = t div 86400 in
    t mod 86400 = tm_hour r * 3600 + tm_min r * 60 + tm_sec r \<and>
    tm_hour r \<in> {0..<24} \<and> tm_min r \<in> {0..<60} \<and> tm_sec r \<in> {0..<60} \<and>
    day = days_before_year y + daysto (is_leap y) ! nat (tm_mon r) + tm_mday r - 1 \<and> tm_mon r \<in> {0..<12} \<and>
    (if leap_year_end day then tm_mon r = 0 \<and> tm_mday r = 0
     else 1 \<le> tm_mday r \<and> tm_mday r \<le> month_length y (tm_mon r))"
proof (rule gmtime_parts [OF assms], goal_cases)
  case (1 day d y m hh mm ss)
  have "d < year_length y" using 1(12) year_length_bounds(1) [of y] by linarith
  note mday = gmtime_month_day [OF this 1(14)] and last = leap_year_end_iff [OF 1(10-13)]
  have "daysto (is_leap y) ! 0 = 0" by (simp add: daysto_def)
  then show ?case
    unfolding 1(1,2,15) Let_def using mday last 1(4-9,11,13) by auto
qed

text \<open>New Year's Eve 1972.\<close>

theorem gmtime_date_witness:
  "tm_mday (gmtime 94694399) = 0 \<and> tm_mon (gmtime 94694399) = 0 \<and> tm_year (gmtime 94694399) = 73 \<and>
   leap_year_end (94694399 div 86400)"
proof -
  have g: "tm_mday (gmtime 94694399) = 0" "tm_mon (gmtime 94694399) = 0" "tm_year (gmtime 94694399) = 73"
    by code_simp+
  with gmtime_date [of 94694399] show ?thesis by (auto simp: Let_def split: if_splits)
qed

fun sums_fit :: "int \<Rightarrow> int list \<Rightarrow> bool" where
  "sums_fit x [] = True"
| "sums_fit x (y # ys) \<longleftrightarrow> y \<in> {- 2147483648..<2147483648} \<and> x + y \<in> {- 2147483648..<2147483648} \<and> sums_fit (x + y) ys"

lemma int_sum_Some: "sums_fit x ys \<Longrightarrow> int_sum x ys = Some (x + sum_list ys)"
  by (induction ys arbitrary: x) (simp_all add: int_val_def)

lemma leap_days_until_2038:
  fixes y :: int
  assumes "1970 \<le> y" "y \<le> 2038"
  obtains q1 q2 where "(y - 1969) div 4 = q1" "(y - 1901) div 100 = q2" "(y - 1601) div 400 = q2"
    "0 \<le> q1" "q1 \<le> 17" "0 \<le> q2" "q2 \<le> 1"
proof -
  have q1: "0 \<le> (y - 1969) div 4" "(y - 1969) div 4 \<le> 17" using assms by (simp_all add: pos_imp_zdiv_nonneg_iff)
  show thesis
  proof (cases "y \<le> 2000")
    case True
    with assms show thesis by (intro that [OF refl _ _ q1, of 0]) simp_all
  next
    case False
    with assms have "(y - 1901) div 100 = 1" "(y - 1601) div 400 = 1"
      by (auto intro: int_div_pos_eq [where r = "y - 2001"])
    then show thesis by (intro that [OF refl _ _ q1, of 1]) simp_all
  qed
qed

text \<open>C23: \<open>mktime\<close> is the inverse of \<open>gmtime\<close> for all times of the 32-bit range, on the days \<open>gmtime\<close> gets wrong
  as well, and none of its sums overflows.\<close>

theorem mktime_gmtime:
  assumes "0 \<le> t" "t < 2147483648"
  shows "mktime (gmtime t) = Some t"
proof (rule gmtime_parts [OF assms(1)], goal_cases)
  case (1 day d y m hh mm ss)
  have "day \<le> 24855" using assms(2) 1(3-9) by linarith
  then have y: "y \<le> 2038"
    using days_before_year_mono [of 2039 y] days_before_year_closed [of 2039] 1(11,13)
    by (cases "2039 \<le> y") (auto simp: leap_days_def)
  obtain q1 q2 where q: "(y - 1969) div 4 = q1" "(y - 1901) div 100 = q2" "(y - 1601) div 400 = q2"
    "0 \<le> q1" "q1 \<le> 17" "0 \<le> q2" "q2 \<le> 1"
    by (rule leap_days_until_2038 [OF 1(10) y])
  have day: "day = (y - 1970) * 365 + q1 + d"
    using 1(11) days_before_year_closed [OF 1(10)] by (simp add: leap_days_def q(1-3))
  have sdivs: "(y - 1900 - 69) sdiv 4 = q1" "(y - 1900 - 1) sdiv 100 = q2" "(y - 1900 + 299) sdiv 400 = q2"
    using 1(10) q(1-3) by simp_all
  have d: "- 1 \<le> d" using 1(13) by auto
  have "sums_fit ss [mm * 60, hh * 3600, d * 86400, (y - 1900 - 70) * 31536000, q1 * 86400, - (q2 * 86400), q2 * 86400]"
  proof -
    define k where "k = (y - 1900 - 70) * 31536000"
    have "0 \<le> k" "k \<le> 68 * 31536000" using 1(10) y by (simp_all add: k_def)
    moreover have "t = k + q1 * 86400 + d * 86400 + hh * 3600 + mm * 60 + ss"
      using 1(3) day by (simp add: k_def)
    ultimately show ?thesis
      unfolding sums_fit.simps atLeastLessThan_iff k_def [symmetric]
      by (intro conjI TrueI; use 1(4-9,12) d q(4-7) assms(2) in linarith)
  qed
  then show ?case
    unfolding 1(15) mktime_def tm.simps sdivs by (subst int_sum_Some) (simp_all add: 1(3) day)
qed

text \<open>The first of March 2000.\<close>

theorem mktime_gmtime_witness:
  "mktime (gmtime 951868800) = Some 951868800 \<and> tm_mon (gmtime 951868800) = 2 \<and> tm_mday (gmtime 951868800) = 1"
  using mktime_gmtime [of 951868800] by (auto, code_simp+)

end
