(* ===== verification/Screen.thy ===== *)
theory Screen
  imports Kernel_Prelude
begin

section \<open>The console screen\<close>

text \<open>
  Models \<open>kernel/drivers/console/screen.c\<close>: the cells of a screen, the cursor, and the parser for escape
  sequences.  Positions and parameters are unsigned 32-bit numbers; the wrap-around is written out.  The calls of the
  display operations (\<open>struct ScreenOps\<close>, part of the display drivers) are recorded in the field \<open>calls\<close>,
  the latest first.  \<open>current\<close> is the result of \<open>screen_is_current\<close>, \<open>signed_char\<close> tells whether the type \<open>char\<close> is signed
  (it is on i386 and is not on ARM).  \<open>None\<close> is an access outside of the array of cells or the
  endless loop of the source.
\<close>

unbundle bit_operations_syntax

definition w32 :: "int \<Rightarrow> nat" where
  "w32 x = nat (x mod 2 ^ 32)"

definition SCREEN_ESC_MAX :: nat where "SCREEN_ESC_MAX = 16"

definition COLOR_MASK :: int where "COLOR_MASK = 7"
definition COLOR_BLACK :: int where "COLOR_BLACK = 0"
definition COLOR_WHITE :: int where "COLOR_WHITE = 7"
definition COLOR_BRIGHT :: int where "COLOR_BRIGHT = 8"

datatype parser_state = PARSER_NORMAL | PARSER_ESC | PARSER_CSI

record cell =
  cell_ch :: u8
  cell_fg :: int
  cell_bg :: int

datatype screen_call =
    Update_Cursor nat
  | Erase nat nat
  | Scroll_Down nat
  | Draw_Char_At nat
  | Update

record screen =
  fg_color :: int
  bg_color :: int
  parser :: parser_state
  esc_params :: "nat list"
  esc_cur_param :: int
  esc_question :: bool
  buf :: "cell list"
  cols :: nat
  rows :: nat
  old_pos :: nat
  new_pos :: nat
  calls :: "screen_call list"

definition blank :: cell where
  "blank = \<lparr>cell_ch = 32, cell_fg = COLOR_WHITE, cell_bg = COLOR_BLACK\<rparr>"


definition call :: "screen_call \<Rightarrow> screen \<Rightarrow> screen" where
  "call e s = s\<lparr>calls := e # calls s\<rparr>"

fun draw_range :: "nat list \<Rightarrow> screen \<Rightarrow> screen" where
  "draw_range [] s = s"
| "draw_range (i # is) s = draw_range is (call (Draw_Char_At i) s)"

definition screen_flush :: "bool \<Rightarrow> screen \<Rightarrow> screen" where
  "screen_flush current s =
     (if current
      then let s = (if old_pos s < new_pos s then draw_range [old_pos s..<new_pos s] s
                    else draw_range (rev [new_pos s + 1..<old_pos s + 1]) s)
           in call (Update_Cursor (new_pos s)) (s\<lparr>old_pos := new_pos s\<rparr>)
      else s)"

definition set_cell :: "nat \<Rightarrow> cell \<Rightarrow> screen \<Rightarrow> screen option" where
  "set_cell i c s = (if i < length (buf s) then Some (s\<lparr>buf := (buf s)[i := c]\<rparr>) else None)"

fun set_cells :: "nat list \<Rightarrow> cell \<Rightarrow> screen \<Rightarrow> screen option" where
  "set_cells [] c s = Some s"
| "set_cells (i # is) c s = do { s \<leftarrow> set_cell i c s; set_cells is c s }"

text \<open>\<open>memmove\<close> between cells of the array.\<close>

definition move_cells :: "nat \<Rightarrow> nat \<Rightarrow> nat \<Rightarrow> screen \<Rightarrow> screen option" where
  "move_cells dst src n s =
     (if dst + n \<le> length (buf s) \<and> src + n \<le> length (buf s)
      then Some (s\<lparr>buf := take dst (buf s) @ take n (drop src (buf s)) @ drop (dst + n) (buf s)\<rparr>)
      else None)"

definition screen_erase :: "bool \<Rightarrow> nat \<Rightarrow> nat \<Rightarrow> screen \<Rightarrow> screen option" where
  "screen_erase current from to s = do {
     s \<leftarrow> set_cells [from..<to + 1] \<lparr>cell_ch = 32, cell_fg = fg_color s AND 15, cell_bg = bg_color s AND 15\<rparr> s;
     Some (if current then call (Erase from to) s else s)
   }"

definition screen_set_char :: "nat \<Rightarrow> u8 \<Rightarrow> screen \<Rightarrow> screen option" where
  "screen_set_char i c s = set_cell i \<lparr>cell_ch = c, cell_fg = fg_color s AND 15, cell_bg = bg_color s AND 15\<rparr> s"

text \<open>\<open>screen_set_char(screen, screen->new_pos++, c)\<close>\<close>

definition screen_put :: "u8 \<Rightarrow> screen \<Rightarrow> screen option" where
  "screen_put c s = do {
     s \<leftarrow> screen_set_char (new_pos s) c s;
     Some (s\<lparr>new_pos := w32 (int (new_pos s) + 1)\<rparr>)
   }"

definition screen_scroll_down :: "bool \<Rightarrow> nat \<Rightarrow> screen \<Rightarrow> screen option" where
  "screen_scroll_down current n s =
     (if n \<le> rows s then do {
        let s = screen_flush current s;
        s \<leftarrow> move_cells 0 (cols s * n) (cols s * (rows s - n)) s;
        s \<leftarrow> set_cells [cols s * (rows s - n)..<cols s * rows s] blank s;
        let s = s\<lparr>new_pos := w32 (int (new_pos s) - int (n * cols s))\<rparr>;
        Some (if current
              then draw_range [cols s * (rows s - n)..<cols s * rows s]
                     (call (Scroll_Down n) (s\<lparr>old_pos := new_pos s\<rparr>))
              else s)
      } else None)"

definition screen_insert_rows :: "bool \<Rightarrow> nat \<Rightarrow> screen \<Rightarrow> screen option" where
  "screen_insert_rows current n s = do {
     let max_rows = w32 (int (rows s) - int (new_pos s div cols s));
     let n = min max_rows n;
     let start_pos = new_pos s - new_pos s mod cols s;
     let end_pos = start_pos + n * cols s;
     let k = (max_rows - n) * cols s;
     let s = screen_flush current s;
     s \<leftarrow> set_cells [start_pos..<start_pos + n * cols s] blank s;
     s \<leftarrow> move_cells end_pos start_pos k s;
     Some (screen_flush current s)
   }"

definition screen_update_cursor :: "bool \<Rightarrow> screen \<Rightarrow> screen" where
  "screen_update_cursor current s =
     (if current then call (Update_Cursor (new_pos s)) (s\<lparr>old_pos := new_pos s\<rparr>) else s)"

text \<open>\<open>c < ' '\<close> for a value of type \<open>char\<close>.\<close>

definition below_space :: "bool \<Rightarrow> u8 \<Rightarrow> bool" where
  "below_space signed_char c \<longleftrightarrow> (if signed_char then sint c < 32 else uint c < 32)"

fun screen_spaces :: "nat \<Rightarrow> screen \<Rightarrow> screen option" where
  "screen_spaces 0 s = Some s"
| "screen_spaces (Suc n) s = do { s \<leftarrow> screen_put 32 s; screen_spaces n s }"

definition screen_print_char :: "bool \<Rightarrow> bool \<Rightarrow> u8 \<Rightarrow> screen \<Rightarrow> (nat \<times> screen) option" where
  "screen_print_char current signed_char c s = do {
     (ret, s) \<leftarrow>
       (if c = 10 then do {
          let s = screen_flush current s;
          let s = s\<lparr>new_pos := w32 (int (new_pos s) + int (cols s))\<rparr>;
          let s = s\<lparr>new_pos := new_pos s - new_pos s mod cols s\<rparr>;
          Some (0, screen_update_cursor current s)
        }
        else if c = 13 then do {
          let s = screen_flush current s;
          let s = s\<lparr>new_pos := new_pos s - new_pos s mod cols s\<rparr>;
          Some (0, screen_update_cursor current s)
        }
        else if c = 8 then
          Some (0, if new_pos s > 0
                   then let s = screen_flush current s
                        in screen_update_cursor current (s\<lparr>new_pos := new_pos s - 1\<rparr>)
                   else s)
        else if c = 9 then do {
          let n = 4 - new_pos s mod 4;
          s \<leftarrow> screen_spaces n s;
          Some (n, s)
        }
        else if c = 7 then Some (0, s)
        else if below_space signed_char c then do {
          s \<leftarrow> screen_put 94 s;
          s \<leftarrow> screen_put (64 + c) s;
          Some (2, s)
        }
        else do {
          s \<leftarrow> screen_put c s;
          Some (1, s)
        });
     if new_pos s \<ge> cols s * rows s then do {
       s \<leftarrow> screen_scroll_down current 1 s;
       Some (ret, s)
     }
     else Some (ret, s)
   }"

fun screen_print :: "bool \<Rightarrow> bool \<Rightarrow> u8 list \<Rightarrow> screen \<Rightarrow> screen option" where
  "screen_print current signed_char [] s = Some s"
| "screen_print current signed_char (c # cs) s = do {
     (_, s) \<leftarrow> screen_print_char current signed_char c s;
     screen_print current signed_char cs s
   }"

definition screen_dump :: "bool \<Rightarrow> bool \<Rightarrow> nat \<Rightarrow> screen \<Rightarrow> screen option" where
  "screen_dump current signed_char c =
     (let sym = map of_char ''0123456789ABCDEF''
      in screen_print current signed_char
           (map of_char ''~~~'' @ map (\<lambda>k. sym ! (c div 2 ^ k mod 16)) [28, 24, 20, 16, 12, 8, 4, 0] @ [10]))"

subsection \<open>Escape sequences\<close>

text \<open>Select graphic rendition: one parameter.\<close>

definition screen_sgr :: "nat \<Rightarrow> screen \<Rightarrow> screen" where
  "screen_sgr p s =
     (if p = 0 then s\<lparr>bg_color := COLOR_BLACK, fg_color := COLOR_WHITE\<rparr>
      else if p = 1 then s\<lparr>fg_color := fg_color s OR COLOR_BRIGHT\<rparr>
      else if p = 7 \<or> p = 27 then s\<lparr>bg_color := fg_color s, fg_color := bg_color s\<rparr>
      else if p = 22 then s\<lparr>fg_color := fg_color s AND NOT COLOR_BRIGHT\<rparr>
      else if p = 39 then s\<lparr>fg_color := (fg_color s AND NOT COLOR_MASK) OR COLOR_WHITE\<rparr>
      else if p = 49 then s\<lparr>bg_color := (bg_color s AND NOT COLOR_MASK) OR COLOR_BLACK\<rparr>
      else if 30 \<le> p \<and> p \<le> 37 then s\<lparr>fg_color := (fg_color s AND NOT COLOR_MASK) OR int (p - 30)\<rparr>
      else if 40 \<le> p \<and> p \<le> 47 then s\<lparr>bg_color := (bg_color s AND NOT COLOR_MASK) OR int (p - 40)\<rparr>
      else s)"

text \<open>The loop of \<open>@\<close>: the counter is unsigned, so that it wraps around when the cursor is in the first cell.\<close>

definition screen_insert_cell :: "bool \<Rightarrow> nat \<Rightarrow> nat \<Rightarrow> screen \<Rightarrow> screen option" where
  "screen_insert_cell current m n s = do {
     c \<leftarrow> (if m > new_pos s
          then if n \<le> m \<and> m - n < length (buf s) then Some (buf s ! (m - n)) else None
          else Some \<lparr>cell_ch = 32, cell_fg = fg_color s AND 15, cell_bg = bg_color s AND 15\<rparr>);
     s \<leftarrow> set_cell m c s;
     Some (if current then call (Draw_Char_At m) s else s)
   }"

fun screen_insert_loop :: "bool \<Rightarrow> nat \<Rightarrow> nat \<Rightarrow> screen \<Rightarrow> screen option" where
  "screen_insert_loop current 0 n s =
     (if 0 \<ge> new_pos s then do { s \<leftarrow> screen_insert_cell current 0 n s; None } else Some s)"
| "screen_insert_loop current (Suc m) n s =
     (if Suc m \<ge> new_pos s
      then do { s \<leftarrow> screen_insert_cell current (Suc m) n s; screen_insert_loop current m n s }
      else Some s)"

fun screen_repeat :: "bool \<Rightarrow> bool \<Rightarrow> nat \<Rightarrow> screen \<Rightarrow> screen option" where
  "screen_repeat current signed_char 0 s = Some s"
| "screen_repeat current signed_char (Suc n) s =
     (if 0 < new_pos s \<and> new_pos s - 1 < length (buf s) then do {
        (_, s) \<leftarrow> screen_print_char current signed_char (cell_ch (buf s ! (new_pos s - 1))) s;
        screen_repeat current signed_char n s
      } else None)"

text \<open>The parameter \<open>i\<close> or the default, if fewer parameters were given; the moves of the cursor treat only a missing
  list of parameters as the default.\<close>

definition esc_param :: "nat \<Rightarrow> nat \<Rightarrow> screen \<Rightarrow> nat" where
  "esc_param i dflt s = (if esc_cur_param s < int i + 1 then dflt else esc_params s ! i)"

definition esc_count :: "screen \<Rightarrow> nat" where
  "esc_count s = (if esc_cur_param s = 0 then 1 else esc_params s ! 0)"

text \<open>The target of the sequences that only move the cursor.\<close>

definition csi_move :: "char \<Rightarrow> screen \<Rightarrow> int" where
  "csi_move c s =
     (let pos = new_pos s; cs = cols s; rs = rows s in
      if c = CHR ''A'' then int pos - int (min (esc_count s) (pos div cs) * cs)
      else if c = CHR ''B'' then int pos + int (min (esc_count s) (w32 (int rs - int (pos div cs) - 1)) * cs)
      else if c = CHR ''C'' then int pos + int (min (esc_count s) (cs - pos mod cs - 1))
      else if c = CHR ''D'' then int pos - int (min (esc_count s) (pos mod cs))
      else if c = CHR ''G'' then int pos - int (pos mod cs) + int (min (esc_param 0 1 s) cs) - 1
      else if c = CHR ''H''
      then (int (min (esc_param 0 1 s) rs) - 1) * int cs + int (min (esc_param 1 1 s) cs) - 1
      else (int (min (esc_param 0 1 s) rs) - 1) * int cs + int (pos mod cs))"

definition screen_handle_csi :: "bool \<Rightarrow> bool \<Rightarrow> char \<Rightarrow> screen \<Rightarrow> screen option" where
  "screen_handle_csi current signed_char c s =
     (let pos = new_pos s; cs = cols s; rs = rows s in
      if c \<in> set ''ABCDGHd'' then Some (s\<lparr>new_pos := w32 (csi_move c s)\<rparr>)
      else if c = CHR ''J'' then
        (let n = esc_param 0 0 s in
         if n = 0 then screen_erase current pos (cs * rs - 1) s
         else if n = 1 then screen_erase current 0 pos s
         else if n = 2 then screen_erase current 0 (cs * rs - 1) s
         else Some s)
      else if c = CHR ''K'' then
        (let n = esc_param 0 0 s; row = pos - pos mod cs in
         if n = 0 then screen_erase current pos (row + cs - 1) s
         else if n = 1 then screen_erase current row pos s
         else if n = 2 then screen_erase current row (row + cs - 1) s
         else Some s)
      else if c = CHR ''L'' then screen_insert_rows current (esc_param 0 1 s) s
      else if c = CHR ''@'' then
        screen_insert_loop current (pos - pos mod cs + cs - 1) (min (esc_param 0 1 s) (cs - pos mod cs)) s
      else if c = CHR ''m'' then
        (if esc_cur_param s = 0 then Some (s\<lparr>bg_color := COLOR_BLACK, fg_color := COLOR_WHITE\<rparr>)
         else Some (fold screen_sgr (take (min (nat (esc_cur_param s)) SCREEN_ESC_MAX) (esc_params s)) s))
      else if c = CHR ''b'' then screen_repeat current signed_char (esc_params s ! 0) s
      else if c \<in> {CHR ''n'', CHR ''%'', CHR ''r'', CHR ''h'', CHR ''l''} then Some s
      else do {
        s \<leftarrow> screen_dump current signed_char (of_char c) s;
        s \<leftarrow> screen_dump current signed_char (esc_params s ! 0) s;
        None
      })"

definition screen_handle_esc :: "bool \<Rightarrow> bool \<Rightarrow> u8 \<Rightarrow> screen \<Rightarrow> screen option" where
  "screen_handle_esc current signed_char c s = do {
     s \<leftarrow> screen_handle_csi current signed_char (char_of (unat c)) (screen_flush current s);
     Some (screen_flush current s)
   }"

definition screen_out_char :: "bool \<Rightarrow> bool \<Rightarrow> u8 \<Rightarrow> screen \<Rightarrow> screen option" where
  "screen_out_char current signed_char c s =
     (case parser s of
        PARSER_NORMAL \<Rightarrow>
          if c = 27 then Some (s\<lparr>parser := PARSER_ESC\<rparr>)
          else do { (_, s) \<leftarrow> screen_print_char current signed_char c s; Some s }
      | PARSER_ESC \<Rightarrow>
          if c = 91
          then Some (s\<lparr>parser := PARSER_CSI, esc_cur_param := - 1, esc_question := False,
                       esc_params := replicate SCREEN_ESC_MAX 0\<rparr>)
          else Some (s\<lparr>parser := PARSER_NORMAL\<rparr>)
      | PARSER_CSI \<Rightarrow>
          if c = 63
          then if esc_cur_param s = - 1 then Some (s\<lparr>esc_question := True\<rparr>) else Some (s\<lparr>parser := PARSER_NORMAL\<rparr>)
          else if 48 \<le> c \<and> c \<le> 57 then
            let s = (if esc_cur_param s = - 1 then s\<lparr>esc_cur_param := 0\<rparr> else s);
                i = nat (esc_cur_param s)
            in Some (if i < SCREEN_ESC_MAX
                     then s\<lparr>esc_params := (esc_params s)[i := w32 (int (esc_params s ! i) * 10 + (uint c - 48))]\<rparr>
                     else s)
          else
            let s = (if esc_cur_param s < int SCREEN_ESC_MAX then s\<lparr>esc_cur_param := esc_cur_param s + 1\<rparr> else s)
            in if c = 59 then Some s
               else do {
                 s \<leftarrow> screen_handle_esc current signed_char c s;
                 Some (s\<lparr>parser := PARSER_NORMAL\<rparr>)
               })"


definition screen_backspace :: "bool \<Rightarrow> bool \<Rightarrow> screen \<Rightarrow> screen option" where
  "screen_backspace current signed_char s = do {
     s \<leftarrow> (if new_pos s > 0 then screen_set_char (new_pos s - 1) 32 (s\<lparr>new_pos := new_pos s - 1\<rparr>) else Some s);
     s \<leftarrow> screen_out_char current signed_char 8 s;
     Some (screen_flush current s)
   }"

definition screen_switch :: "screen \<Rightarrow> screen" where
  "screen_switch s = call Update (s\<lparr>old_pos := new_pos s\<rparr>)"

subsection \<open>The cursor stays on the screen\<close>


lemma w32_nat [simp]: "0 \<le> x \<Longrightarrow> x < 4294967296 \<Longrightarrow> w32 x = nat x"
  by (simp add: w32_def)

lemma call_fields [simp]:
  "cols (call e s) = cols s" "rows (call e s) = rows s" "buf (call e s) = buf s" "new_pos (call e s) = new_pos s"
  "old_pos (call e s) = old_pos s" "esc_params (call e s) = esc_params s" "esc_cur_param (call e s) = esc_cur_param s"
  "fg_color (call e s) = fg_color s" "bg_color (call e s) = bg_color s" "parser (call e s) = parser s"
  by (simp_all add: call_def)

lemma draw_range_fields [simp]:
  "cols (draw_range is s) = cols s" "rows (draw_range is s) = rows s" "buf (draw_range is s) = buf s"
  "new_pos (draw_range is s) = new_pos s" "old_pos (draw_range is s) = old_pos s"
  "esc_params (draw_range is s) = esc_params s" "esc_cur_param (draw_range is s) = esc_cur_param s"
  "fg_color (draw_range is s) = fg_color s" "bg_color (draw_range is s) = bg_color s"
  "parser (draw_range is s) = parser s"
  by (induction "is" arbitrary: s) simp_all

lemma screen_flush_fields [simp]:
  "cols (screen_flush cur s) = cols s" "rows (screen_flush cur s) = rows s" "buf (screen_flush cur s) = buf s"
  "new_pos (screen_flush cur s) = new_pos s" "esc_params (screen_flush cur s) = esc_params s"
  "esc_cur_param (screen_flush cur s) = esc_cur_param s" "fg_color (screen_flush cur s) = fg_color s"
  "bg_color (screen_flush cur s) = bg_color s" "parser (screen_flush cur s) = parser s"
  by (simp_all add: screen_flush_def Let_def)

lemma screen_update_cursor_fields [simp]:
  "cols (screen_update_cursor cur s) = cols s" "rows (screen_update_cursor cur s) = rows s"
  "buf (screen_update_cursor cur s) = buf s" "new_pos (screen_update_cursor cur s) = new_pos s"
  "esc_params (screen_update_cursor cur s) = esc_params s"
  "esc_cur_param (screen_update_cursor cur s) = esc_cur_param s"
  by (simp_all add: screen_update_cursor_def)























subsection \<open>Properties\<close>









end
