(* ===== verification/Page.thy ===== *)
theory Page
  imports Lib_String
begin

section \<open>The physical page allocator\<close>

text \<open>
  Models \<open>kernel/mm/page.c\<close>, the binary buddy allocator.  A page is its index in the array \<open>pages\<close>.  Every order has a
  list of the free blocks and a bitmap of 32-bit words, indexed by the number of the block.  The
  physical memory is a byte memory; a page covers \<open>PAGE_SIZE\<close> bytes of it.  \<open>None\<close> is a panic (out of memory, or a
  failed assertion).  The boot-time allocator and the detection of the memory size are not modelled: the allocator starts
  with empty lists and clear bitmaps, and regions are added to it.
\<close>

unbundle bit_operations_syntax

definition PAGE_ORDER_MAX :: nat where "PAGE_ORDER_MAX = 10"
definition PAGE_SIZE :: nat where "PAGE_SIZE = 4096"
definition BITS_PER_WORD :: nat where "BITS_PER_WORD = 32"

record page_state =
  ref_count :: "nat \<Rightarrow> int"
  debug_tag :: "nat \<Rightarrow> nat"
  free_list :: "nat \<Rightarrow> nat list"
  bitmap :: "nat \<Rightarrow> nat \<Rightarrow> u32"
  page_free_count :: int
  phys :: mem

definition page_init :: "mem \<Rightarrow> page_state" where
  "page_init m = \<lparr>ref_count = (\<lambda>_. 0), debug_tag = (\<lambda>_. 0), free_list = (\<lambda>_. []), bitmap = (\<lambda>_ _. 0),
     page_free_count = 0, phys = m\<rparr>"

definition bitmap_mask :: "nat \<Rightarrow> u32" where
  "bitmap_mask n = push_bit (n mod BITS_PER_WORD) 1"

definition page_buddy :: "nat \<Rightarrow> nat \<Rightarrow> nat" where
  "page_buddy page order = page XOR 2 ^ order"

definition page_list_contains :: "nat \<Rightarrow> nat \<Rightarrow> page_state \<Rightarrow> bool" where
  "page_list_contains page order s =
     (let idx = page div 2 ^ order
      in bitmap s order (idx div BITS_PER_WORD) AND bitmap_mask idx \<noteq> 0)"

definition page_list_add :: "nat \<Rightarrow> nat \<Rightarrow> page_state \<Rightarrow> page_state option" where
  "page_list_add page order s = do {
     k_assert (page mod 2 ^ order = 0);
     k_assert (\<not> page_list_contains page order s);
     let idx = page div 2 ^ order;
     let w = idx div BITS_PER_WORD;
     Some (s\<lparr>free_list := (free_list s)(order := page # free_list s order),
             bitmap := (bitmap s)(order := (bitmap s order)(w := bitmap s order w OR bitmap_mask idx))\<rparr>)
   }"

definition page_k_list_remove :: "nat \<Rightarrow> nat \<Rightarrow> page_state \<Rightarrow> page_state option" where
  "page_k_list_remove page order s = do {
     k_assert (page mod 2 ^ order = 0);
     k_assert (page_list_contains page order s);
     let idx = page div 2 ^ order;
     let w = idx div BITS_PER_WORD;
     Some (s\<lparr>free_list := (free_list s)(order := remove1 page (free_list s order)),
             bitmap := (bitmap s)(order := (bitmap s order)(w := bitmap s order w AND NOT (bitmap_mask idx)))\<rparr>)
   }"

fun page_split :: "nat \<Rightarrow> nat \<Rightarrow> nat \<Rightarrow> page_state \<Rightarrow> (nat \<times> page_state) option" where
  "page_split ord order page s =
     (if ord > order then do {
        s \<leftarrow> page_list_add page (ord - 1) s;
        page_split (ord - 1) order (page + 2 ^ (ord - 1)) s
      } else Some (page, s))"

declare page_split.simps [simp del]

fun page_set_tags :: "nat list \<Rightarrow> nat \<Rightarrow> page_state \<Rightarrow> page_state option" where
  "page_set_tags [] tag s = Some s"
| "page_set_tags (p # ps) tag s = do {
     k_assert (debug_tag s p = 0);
     page_set_tags ps tag (s\<lparr>debug_tag := (debug_tag s)(p := tag)\<rparr>)
   }"

definition page_alloc_block :: "nat \<Rightarrow> bool \<Rightarrow> nat \<Rightarrow> page_state \<Rightarrow> (nat \<times> page_state) option" where
  "page_alloc_block order zero tag s = do {
     ord \<leftarrow> List.find (\<lambda>ord. free_list s ord \<noteq> []) [order..<PAGE_ORDER_MAX + 1];
     let page = hd (free_list s ord);
     s \<leftarrow> page_k_list_remove page ord s;
     let s = s\<lparr>page_free_count := page_free_count s - 2 ^ order\<rparr>;
     (page, s) \<leftarrow> page_split ord order page s;
     k_assert (ref_count s page = 0);
     k_assert (\<not> page_list_contains page order s);
     let s = (if zero then s\<lparr>phys := memset (page * PAGE_SIZE) 0 (PAGE_SIZE * 2 ^ order) (phys s)\<rparr> else s);
     s \<leftarrow> page_set_tags [page..<page + 2 ^ order] tag s;
     Some (page, s)
   }"

function page_merge :: "nat \<Rightarrow> nat \<Rightarrow> page_state \<Rightarrow> (nat \<times> nat \<times> page_state) option" where
  "page_merge ord page s =
     (if ord < PAGE_ORDER_MAX
      then let buddy = page_buddy page ord
           in if page_list_contains buddy ord s
              then do {
                s \<leftarrow> page_k_list_remove buddy ord s;
                page_merge (ord + 1) (if buddy < page then buddy else page) s
              }
              else Some (ord, page, s)
      else Some (ord, page, s))"
  by pat_completeness auto
termination
  by (relation "measure (\<lambda>(ord, page, s). PAGE_ORDER_MAX - ord)") auto

declare page_merge.simps [simp del]

definition page_free_block :: "nat \<Rightarrow> nat \<Rightarrow> page_state \<Rightarrow> page_state option" where
  "page_free_block page order s = do {
     k_assert (ref_count s page = 0);
     let s = s\<lparr>debug_tag := (\<lambda>p. if page \<le> p \<and> p < page + 2 ^ order then 0 else debug_tag s p)\<rparr>;
     (ord, page, s) \<leftarrow> page_merge order page s;
     s \<leftarrow> page_list_add page ord s;
     Some (s\<lparr>page_free_count := page_free_count s + 2 ^ order\<rparr>)
   }"

text \<open>The largest order of a block that starts at the page and does not exceed the region.\<close>

fun region_order :: "nat \<Rightarrow> nat \<Rightarrow> nat \<Rightarrow> nat" where
  "region_order 0 page limit = 0"
| "region_order (Suc ord) page limit =
     (if page mod 2 ^ Suc ord = 0 \<and> page + 2 ^ Suc ord \<le> limit then Suc ord else region_order ord page limit)"

function page_free_pages :: "nat \<Rightarrow> nat \<Rightarrow> page_state \<Rightarrow> page_state option" where
  "page_free_pages page limit s =
     (if page < limit then do {
        let ord = region_order PAGE_ORDER_MAX page limit;
        s \<leftarrow> page_free_block page ord s;
        page_free_pages (page + 2 ^ ord) limit s
      } else Some s)"
  by pat_completeness auto
termination
  by (relation "measure (\<lambda>(page, limit, s). limit - page)") (auto intro!: diff_less_mono2)

declare page_free_pages.simps [simp del]

definition page_free_region :: "nat \<Rightarrow> nat \<Rightarrow> page_state \<Rightarrow> page_state option" where
  "page_free_region start end_addr s =
     page_free_pages ((start + PAGE_SIZE - 1) div PAGE_SIZE) (end_addr div PAGE_SIZE) s"

definition page_inc_ref :: "nat \<Rightarrow> page_state \<Rightarrow> page_state" where
  "page_inc_ref page s = s\<lparr>ref_count := (ref_count s)(page := ref_count s page + 1)\<rparr>"

definition page_dec_ref :: "nat \<Rightarrow> nat \<Rightarrow> page_state \<Rightarrow> page_state option" where
  "page_dec_ref page order s =
     (let s = s\<lparr>ref_count := (ref_count s)(page := ref_count s page - 1)\<rparr>
      in if ref_count s page = 0 then page_free_block page order s else Some s)"

fun page_assert :: "nat \<Rightarrow> nat \<Rightarrow> nat \<Rightarrow> page_state \<Rightarrow> unit option" where
  "page_assert page order tag s = do {
     k_assert (\<forall>p\<in>set [page..<page + 2 ^ order]. debug_tag s p = tag);
     k_assert (ref_count s page \<noteq> 0)
   }"

definition page2pa :: "nat \<Rightarrow> nat \<Rightarrow> nat option" where
  "page2pa page_count p = (if p < page_count then Some (p * PAGE_SIZE) else None)"

definition pa2page :: "nat \<Rightarrow> nat \<Rightarrow> nat option" where
  "pa2page page_count pa = (if pa div PAGE_SIZE < page_count then Some (pa div PAGE_SIZE) else None)"

text \<open>The smallest order whose block holds the given number of bytes.\<close>

partial_function (option) page_estimate_order_loop :: "nat \<Rightarrow> nat \<Rightarrow> nat option" where
  "page_estimate_order_loop ord sz =
     (if PAGE_SIZE * 2 ^ ord < sz then page_estimate_order_loop (ord + 1) sz else Some ord)"

definition page_estimate_order :: "nat \<Rightarrow> nat option" where
  "page_estimate_order sz = page_estimate_order_loop 0 sz"

subsection \<open>Blocks\<close>

lemma page_estimate_order_loop_returns:
  "(\<forall>k<ord. PAGE_SIZE * 2 ^ k < sz) \<Longrightarrow>
   \<exists>r. page_estimate_order_loop ord sz = Some r \<and> sz \<le> PAGE_SIZE * 2 ^ r \<and> (\<forall>k<r. PAGE_SIZE * 2 ^ k < sz)"
proof (induction "sz - ord" arbitrary: ord rule: less_induct)
  case less
  show ?case
  proof (cases "PAGE_SIZE * 2 ^ ord < sz")
    case True
    have "ord < 2 ^ ord" by (rule less_exp)
    also have "\<dots> \<le> PAGE_SIZE * 2 ^ ord" by (simp add: PAGE_SIZE_def)
    finally have "sz - (ord + 1) < sz - ord" using True by linarith
    moreover have "\<forall>k<ord + 1. PAGE_SIZE * 2 ^ k < sz" using less.prems True by (auto simp: less_Suc_eq)
    ultimately show ?thesis using less.hyps [of "ord + 1"] True by (subst page_estimate_order_loop.simps) simp
  next
    case False
    with less.prems show ?thesis by (subst page_estimate_order_loop.simps) auto
  qed
qed

definition block :: "nat \<Rightarrow> nat \<Rightarrow> nat set" where
  "block ord p = {p..<p + 2 ^ ord}"

definition free_pages :: "page_state \<Rightarrow> nat set" where
  "free_pages s = (\<Union>ord\<in>{..PAGE_ORDER_MAX}. \<Union>p\<in>set (free_list s ord). block ord p)"

definition free_total :: "page_state \<Rightarrow> int" where
  "free_total s = (\<Sum>ord\<le>PAGE_ORDER_MAX. 2 ^ ord * int (length (free_list s ord)))"

lemma bitmap_mask_bit: "bit (bitmap_mask n) k \<longleftrightarrow> k = n mod BITS_PER_WORD"
  unfolding bitmap_mask_def BITS_PER_WORD_def bit_push_bit_iff bit_1_iff by auto

lemma and_mask_neq_0: "w AND bitmap_mask n \<noteq> 0 \<longleftrightarrow> bit w (n mod BITS_PER_WORD)"
proof
  assume "w AND bitmap_mask n \<noteq> 0"
  then obtain k where "bit (w AND bitmap_mask n) k" by (metis bit_0_eq bot_apply bit_eqI bot_bool_def)
  then show "bit w (n mod BITS_PER_WORD)" by (auto simp: bit_and_iff bitmap_mask_bit)
next
  assume "bit w (n mod BITS_PER_WORD)"
  then have "bit (w AND bitmap_mask n) (n mod BITS_PER_WORD)" by (simp add: bit_and_iff bitmap_mask_bit)
  then show "w AND bitmap_mask n \<noteq> 0" by auto
qed

definition map_bit :: "page_state \<Rightarrow> nat \<Rightarrow> nat \<Rightarrow> bool" where
  "map_bit s ord k \<longleftrightarrow> bit (bitmap s ord (k div BITS_PER_WORD)) (k mod BITS_PER_WORD)"

lemma page_list_contains_iff: "page_list_contains page ord s \<longleftrightarrow> map_bit s ord (page div 2 ^ ord)"
  by (simp add: page_list_contains_def map_bit_def and_mask_neq_0 Let_def)

lemma same_slot: "k div BITS_PER_WORD = n div BITS_PER_WORD \<Longrightarrow> k mod BITS_PER_WORD = n mod BITS_PER_WORD \<longleftrightarrow> k = n"
  by (metis div_mult_mod_eq)

lemma map_bit_set:
  "map_bit (s\<lparr>free_list := l, bitmap := (bitmap s)(ord := (bitmap s ord)(n div BITS_PER_WORD :=
      bitmap s ord (n div BITS_PER_WORD) OR bitmap_mask n))\<rparr>) ord' k \<longleftrightarrow> ord' = ord \<and> k = n \<or> map_bit s ord' k"
  using same_slot [of k n] by (auto simp: map_bit_def bit_or_iff bitmap_mask_bit)

lemma map_bit_clear:
  "map_bit (s\<lparr>free_list := l, bitmap := (bitmap s)(ord := (bitmap s ord)(n div BITS_PER_WORD :=
      bitmap s ord (n div BITS_PER_WORD) AND NOT (bitmap_mask n)))\<rparr>) ord' k \<longleftrightarrow>
   \<not> (ord' = ord \<and> k = n) \<and> map_bit s ord' k"
  using same_slot [of k n] by (auto simp: map_bit_def bit_and_iff bit_not_iff bitmap_mask_bit BITS_PER_WORD_def)

subsection \<open>The invariant\<close>

text \<open>The free lists hold aligned blocks inside the memory of \<open>N\<close> pages, no two of which overlap; the bitmaps agree with
  the lists; the pages of free blocks are neither referenced nor tagged; and no two free blocks are buddies.\<close>

definition lists_ok :: "nat \<Rightarrow> page_state \<Rightarrow> bool" where
  "lists_ok N s \<longleftrightarrow>
     (\<forall>ord\<le>PAGE_ORDER_MAX. distinct (free_list s ord) \<and> (\<forall>p\<in>set (free_list s ord). 2 ^ ord dvd p \<and> p + 2 ^ ord \<le> N)) \<and>
     (\<forall>ord\<le>PAGE_ORDER_MAX. \<forall>k. map_bit s ord k \<longleftrightarrow> k * 2 ^ ord \<in> set (free_list s ord))"

definition blocks_disjoint :: "page_state \<Rightarrow> bool" where
  "blocks_disjoint s \<longleftrightarrow>
     (\<forall>ord\<le>PAGE_ORDER_MAX. \<forall>p\<in>set (free_list s ord). \<forall>ord'\<le>PAGE_ORDER_MAX. \<forall>q\<in>set (free_list s ord').
        (ord, p) \<noteq> (ord', q) \<longrightarrow> block ord p \<inter> block ord' q = {})"

definition coalesced :: "page_state \<Rightarrow> bool" where
  "coalesced s \<longleftrightarrow>
     (\<forall>ord<PAGE_ORDER_MAX. \<forall>p\<in>set (free_list s ord). page_buddy p ord \<notin> set (free_list s ord))"

definition unused :: "page_state \<Rightarrow> nat set \<Rightarrow> bool" where
  "unused s A \<longleftrightarrow> (\<forall>p\<in>A. ref_count s p = 0 \<and> debug_tag s p = 0)"

definition page_inv :: "nat \<Rightarrow> page_state \<Rightarrow> bool" where
  "page_inv N s \<longleftrightarrow> lists_ok N s \<and> blocks_disjoint s \<and> coalesced s \<and> unused s (free_pages s)"

lemma page_buddy_buddy [simp]: "page_buddy (page_buddy p ord) ord = p"
  by (simp add: page_buddy_def xor.assoc)

lemma page_buddy_cases:
  assumes "2 ^ ord dvd p"
  shows "page_buddy p ord = (if bit p ord then p - 2 ^ ord else p + 2 ^ ord)" "bit p ord \<Longrightarrow> 2 ^ ord \<le> p"
proof -
  have "page_buddy p ord = flip_bit ord p" by (simp add: page_buddy_def flip_bit_eq_xor xor.commute)
  moreover have "unset_bit ord p + 2 ^ ord = p" if "bit p ord"
  proof -
    have "set_bit ord (unset_bit ord p) = p"
      using that by (intro bit_eqI) (auto simp: bit_set_bit_iff bit_unset_bit_iff)
    then show ?thesis by (simp add: set_bit_eq bit_unset_bit_iff)
  qed
  then have "unset_bit ord p = p - 2 ^ ord" if "bit p ord" using that by (metis diff_add_inverse2)
  ultimately show "page_buddy p ord = (if bit p ord then p - 2 ^ ord else p + 2 ^ ord)"
    by (simp add: flip_bit_eq_if set_bit_eq)
  assume "bit p ord"
  then have "odd (p div 2 ^ ord)" by (simp add: bit_iff_odd)
  then have "1 \<le> p div 2 ^ ord" by (cases "p div 2 ^ ord") auto
  then show "2 ^ ord \<le> p" by (metis One_nat_def Suc_le_eq div_greater_zero_iff)
qed

lemma bit_aligned: "2 ^ ord dvd p \<Longrightarrow> bit p ord \<longleftrightarrow> \<not> 2 ^ (ord + 1) dvd (p :: nat)"
  by (auto elim!: dvdE simp: bit_iff_odd mult.commute)

text \<open>A block and its buddy make up an aligned block of the next order.\<close>

lemma block_merge:
  assumes "2 ^ ord dvd p"
  defines "b \<equiv> page_buddy p ord"
  defines "q \<equiv> if b < p then b else p"
  shows "2 ^ ord dvd b" "b \<noteq> p" "page_buddy b ord = p" "2 ^ (ord + 1) dvd q"
    "block (ord + 1) q = block ord p \<union> block ord b" "block ord p \<inter> block ord b = {}"
proof -
  note c = page_buddy_cases [OF assms(1)]
  show "page_buddy b ord = p" by (simp add: b_def)
  have "(0 :: nat) < 2 ^ ord" by simp
  then have "p - 2 ^ ord \<noteq> p" if "2 ^ ord \<le> p" using that by linarith
  then show "b \<noteq> p" unfolding b_def c(1) using c(2) by (cases "bit p ord") simp_all
  show "2 ^ ord dvd b" using c assms(1) by (simp add: b_def dvd_diff_nat)
  consider (odd) "bit p ord" "b + 2 ^ ord = p" | (even) "\<not> bit p ord" "b = p + 2 ^ ord"
    using c by (cases "bit p ord") (auto simp: b_def)
  then have "2 ^ (ord + 1) dvd q \<and> block (ord + 1) q = block ord p \<union> block ord b \<and> block ord p \<inter> block ord b = {}"
  proof cases
    case odd
    have "odd (p div 2 ^ ord)" using odd(1) by (simp add: bit_iff_odd)
    moreover have "p = p div 2 ^ ord * 2 ^ ord" using assms(1) by simp
    ultimately obtain k where "p = (2 * k + 1) * 2 ^ ord" by (metis oddE)
    then have "b = k * 2 ^ (ord + 1)" using odd(2) by (simp add: algebra_simps)
    moreover have "q = b" using odd(2) by (simp add: q_def)
    ultimately show ?thesis using odd(2) by (auto simp: block_def)
  next
    case even
    have "q = p" using even(2) by (simp add: q_def)
    moreover have "2 ^ (ord + 1) dvd p" using even(1) bit_aligned [OF assms(1)] by simp
    ultimately show ?thesis using even(2) by (auto simp: block_def)
  qed
  then show "2 ^ (ord + 1) dvd q" "block (ord + 1) q = block ord p \<union> block ord b" "block ord p \<inter> block ord b = {}"
    by blast+
qed

lemma free_pages_split:
  "ord \<le> PAGE_ORDER_MAX \<Longrightarrow> free_pages s =
     \<Union> (block ord ` set (free_list s ord)) \<union> (\<Union>ord'\<in>{..PAGE_ORDER_MAX} - {ord}. \<Union> (block ord' ` set (free_list s ord')))"
  by (auto simp: free_pages_def)

lemma free_pages_upd:
  "ord \<le> PAGE_ORDER_MAX \<Longrightarrow> free_list s' = (free_list s)(ord := l) \<Longrightarrow> free_pages s' =
     \<Union> (block ord ` set l) \<union> (\<Union>ord'\<in>{..PAGE_ORDER_MAX} - {ord}. \<Union> (block ord' ` set (free_list s ord')))"
  by (simp add: free_pages_split [of ord s'])

lemma block_free: "ord \<le> PAGE_ORDER_MAX \<Longrightarrow> p \<in> set (free_list s ord) \<Longrightarrow> block ord p \<subseteq> free_pages s"
  by (auto simp: free_pages_def)

lemma free_total_upd:
  "ord \<le> PAGE_ORDER_MAX \<Longrightarrow> free_list s' = (free_list s)(ord := l) \<Longrightarrow>
   free_total s' = free_total s + 2 ^ ord * (int (length l) - int (length (free_list s ord)))"
  by (simp add: free_total_def sum.remove [of "{..PAGE_ORDER_MAX}" ord] algebra_simps)

lemma page_list_add_ok:
  assumes inv: "page_inv N s" and ord: "ord \<le> PAGE_ORDER_MAX" and p: "2 ^ ord dvd p" "p + 2 ^ ord \<le> N"
    and fresh: "block ord p \<inter> free_pages s = {}" and un: "unused s (block ord p)"
    and buddy: "ord < PAGE_ORDER_MAX \<Longrightarrow> page_buddy p ord \<notin> set (free_list s ord)"
  obtains s' where "page_list_add p ord s = Some s'" "page_inv N s'" "free_pages s' = free_pages s \<union> block ord p"
    "free_total s' = free_total s + 2 ^ ord" "ref_count s' = ref_count s" "debug_tag s' = debug_tag s"
    "phys s' = phys s" "page_free_count s' = page_free_count s"
proof -
  have l: "lists_ok N s" "blocks_disjoint s" "coalesced s" "unused s (free_pages s)" using inv by (simp_all add: page_inv_def)
  have pb: "p \<in> block ord p" by (simp add: block_def)
  have np: "p \<notin> set (free_list s ord)" using block_free [OF ord] fresh pb by blast
  have idx: "p div 2 ^ ord * 2 ^ ord = p" using p(1) by simp
  have nb: "\<not> page_list_contains p ord s"
    using l(1) np ord idx by (simp add: page_list_contains_iff lists_ok_def)
  define s' where "s' = s\<lparr>free_list := (free_list s)(ord := p # free_list s ord),
      bitmap := (bitmap s)(ord := (bitmap s ord)(p div 2 ^ ord div BITS_PER_WORD :=
        bitmap s ord (p div 2 ^ ord div BITS_PER_WORD) OR bitmap_mask (p div 2 ^ ord)))\<rparr>"
  have fl: "free_list s' = (free_list s)(ord := p # free_list s ord)" by (simp add: s'_def)
  have bits: "map_bit s' ord' k \<longleftrightarrow> ord' = ord \<and> k = p div 2 ^ ord \<or> map_bit s ord' k" for ord' k
    unfolding s'_def by (rule map_bit_set)
  have res: "page_list_add p ord s = Some s'"
    using nb p(1) by (simp add: page_list_add_def s'_def Let_def dvd_imp_mod_0)
  have fp: "free_pages s' = free_pages s \<union> block ord p"
    unfolding free_pages_upd [OF ord fl] free_pages_split [OF ord, of s] by auto
  have "k * 2 ^ ord = p \<longleftrightarrow> k = p div 2 ^ ord" for k using idx by auto
  then have "lists_ok N s'" using l(1) np p by (auto simp: lists_ok_def fl bits)
  moreover have "blocks_disjoint s'"
    unfolding blocks_disjoint_def
  proof (intro allI impI ballI)
    fix o1 p1 o2 p2
    assume a: "o1 \<le> PAGE_ORDER_MAX" "p1 \<in> set (free_list s' o1)" "o2 \<le> PAGE_ORDER_MAX"
      "p2 \<in> set (free_list s' o2)" "(o1, p1) \<noteq> (o2, p2)"
    have m: "x \<in> set (free_list s' ox) \<longleftrightarrow> ox = ord \<and> x = p \<or> x \<in> set (free_list s ox)" for ox x
      by (simp add: fl)
    show "block o1 p1 \<inter> block o2 p2 = {}"
    proof (cases "p1 \<in> set (free_list s o1) \<and> p2 \<in> set (free_list s o2)")
      case True
      with a l(2) show ?thesis unfolding blocks_disjoint_def by blast
    next
      case False
      with a(2,4,5) have "o1 = ord \<and> p1 = p \<and> p2 \<in> set (free_list s o2) \<or> o2 = ord \<and> p2 = p \<and> p1 \<in> set (free_list s o1)"
        unfolding m by blast
      with a block_free fresh show ?thesis by blast
    qed
  qed
  moreover have "coalesced s'"
    using l(3) buddy np block_merge(2,3) [OF p(1)] unfolding coalesced_def fl by (auto split: if_splits)
  moreover have "unused s' (free_pages s')" using l(4) un unfolding fp by (auto simp: unused_def s'_def)
  ultimately show thesis
    using that [OF res _ fp] free_total_upd [OF ord fl] by (simp add: page_inv_def s'_def)
qed

lemma page_k_list_remove_ok:
  assumes inv: "page_inv N s" and ord: "ord \<le> PAGE_ORDER_MAX" and p: "p \<in> set (free_list s ord)"
  obtains s' where "page_k_list_remove p ord s = Some s'" "page_inv N s'" "free_pages s' = free_pages s - block ord p"
    "free_total s' = free_total s - 2 ^ ord" "ref_count s' = ref_count s" "debug_tag s' = debug_tag s"
    "phys s' = phys s" "page_free_count s' = page_free_count s"
proof -
  have l: "lists_ok N s" "blocks_disjoint s" "coalesced s" "unused s (free_pages s)" using inv by (simp_all add: page_inv_def)
  have al: "2 ^ ord dvd p" and di: "distinct (free_list s ord)" using l(1) ord p by (simp_all add: lists_ok_def)
  have idx: "p div 2 ^ ord * 2 ^ ord = p" using al by simp
  have pb: "page_list_contains p ord s"
    using l(1) p ord idx by (simp add: page_list_contains_iff lists_ok_def)
  define s' where "s' = s\<lparr>free_list := (free_list s)(ord := remove1 p (free_list s ord)),
      bitmap := (bitmap s)(ord := (bitmap s ord)(p div 2 ^ ord div BITS_PER_WORD :=
        bitmap s ord (p div 2 ^ ord div BITS_PER_WORD) AND NOT (bitmap_mask (p div 2 ^ ord))))\<rparr>"
  have fl: "free_list s' = (free_list s)(ord := remove1 p (free_list s ord))" by (simp add: s'_def)
  have set_fl: "set (free_list s' ord') = (if ord' = ord then set (free_list s ord) - {p} else set (free_list s ord'))" for ord'
    using di by (simp add: fl)
  have bits: "map_bit s' ord' k \<longleftrightarrow> \<not> (ord' = ord \<and> k = p div 2 ^ ord) \<and> map_bit s ord' k" for ord' k
    unfolding s'_def by (rule map_bit_clear)
  have res: "page_k_list_remove p ord s = Some s'"
    using pb al by (simp add: page_k_list_remove_def s'_def Let_def dvd_imp_mod_0)
  have dis: "block ord p \<inter> block ord' q = {}" if "ord' \<le> PAGE_ORDER_MAX" "q \<in> set (free_list s ord')" "(ord, p) \<noteq> (ord', q)" for ord' q
    using l(2) ord p that unfolding blocks_disjoint_def by blast
  have fp: "free_pages s' = free_pages s - block ord p"
  proof -
    define R where "R = (\<Union>ord'\<in>{..PAGE_ORDER_MAX} - {ord}. \<Union> (block ord' ` set (free_list s ord')))"
    define A where "A = \<Union> (block ord ` (set (free_list s ord) - {p}))"
    have "\<Union> (block ord ` set (free_list s ord)) = block ord p \<union> A" using p unfolding A_def by blast
    moreover have "A \<inter> block ord p = {}" using dis [OF ord] unfolding A_def by blast
    moreover have "R \<inter> block ord p = {}" using dis unfolding R_def by blast
    moreover have "set (remove1 p (free_list s ord)) = set (free_list s ord) - {p}" using di by simp
    ultimately show ?thesis
      unfolding free_pages_upd [OF ord fl] free_pages_split [OF ord, of s] R_def [symmetric] by (auto simp: A_def)
  qed
  have k: "k * 2 ^ ord = p \<longleftrightarrow> k = p div 2 ^ ord" for k using idx by auto
  have "distinct (free_list s' ord')" if "ord' \<le> PAGE_ORDER_MAX" for ord'
    using l(1) that by (simp add: fl lists_ok_def)
  then have "lists_ok N s'" using l(1) k unfolding lists_ok_def bits set_fl by auto
  moreover have "blocks_disjoint s'"
    using l(2) unfolding blocks_disjoint_def set_fl by (auto split: if_splits)
  moreover have "coalesced s'" using l(3) unfolding coalesced_def set_fl by (auto split: if_splits)
  moreover have "unused s' (free_pages s')" using l(4) unfolding fp by (auto simp: unused_def s'_def)
  moreover have "int (length (remove1 p (free_list s ord))) - int (length (free_list s ord)) = - 1"
    using p length_pos_if_in_set [OF p] by (simp add: length_remove1 of_nat_diff del: length_greater_0_conv)
  then have "free_total s' = free_total s - 2 ^ ord" using free_total_upd [OF ord fl] by simp
  ultimately show thesis using that [OF res _ fp] by (simp add: page_inv_def s'_def)
qed

text \<open>What an operation on the lists may change.\<close>

definition same_pages :: "page_state \<Rightarrow> page_state \<Rightarrow> bool" where
  "same_pages s s' \<longleftrightarrow> ref_count s' = ref_count s \<and> debug_tag s' = debug_tag s \<and> phys s' = phys s \<and>
     page_free_count s' = page_free_count s"

lemma unused_same: "same_pages s s' \<Longrightarrow> unused s' A = unused s A"
  by (simp add: same_pages_def unused_def)

lemma block_halves: "block (Suc ord) p = block ord p \<union> block ord (p + 2 ^ ord)" "block ord p \<inter> block ord (p + 2 ^ ord) = {}"
  by (auto simp: block_def)

lemma page_split_ok:
  "page_inv N s \<Longrightarrow> order \<le> ord \<Longrightarrow> ord \<le> PAGE_ORDER_MAX \<Longrightarrow> 2 ^ ord dvd p \<Longrightarrow> p + 2 ^ ord \<le> N \<Longrightarrow>
   block ord p \<inter> free_pages s = {} \<Longrightarrow> unused s (block ord p) \<Longrightarrow>
   \<exists>q s'. page_split ord order p s = Some (q, s') \<and> page_inv N s' \<and> same_pages s s' \<and> 2 ^ order dvd q \<and>
     block order q \<subseteq> block ord p \<and> free_pages s' = free_pages s \<union> (block ord p - block order q) \<and>
     free_total s' = free_total s + 2 ^ ord - 2 ^ order"
proof (induction ord arbitrary: p s)
  case 0
  then show ?case by (subst page_split.simps) (simp add: same_pages_def)
next
  case (Suc ord)
  show ?case
  proof (cases "order = Suc ord")
    case True
    with Suc.prems show ?thesis by (subst page_split.simps) (simp add: same_pages_def)
  next
    case False
    then have le: "order \<le> ord" "ord \<le> PAGE_ORDER_MAX" using Suc.prems(2,3) by auto
    have al: "2 ^ ord dvd p" "2 ^ ord dvd p + 2 ^ ord" using Suc.prems(4) by (auto elim: dvd_trans [rotated])
    have lim: "p + 2 ^ ord \<le> N" "p + 2 ^ ord + 2 ^ ord \<le> N" using Suc.prems(5) by auto
    have "\<not> bit p ord" using Suc.prems(4) bit_aligned [OF al(1)] by simp
    then have b: "page_buddy p ord = p + 2 ^ ord" using page_buddy_cases(1) [OF al(1)] by simp
    note h = block_halves [of ord p]
    have "p + 2 ^ ord \<in> block ord (p + 2 ^ ord)" by (simp add: block_def)
    then have nb: "page_buddy p ord \<notin> set (free_list s ord)"
      unfolding b using Suc.prems(6) h(1) block_free [OF le(2)] by blast
    obtain s1 where s1: "page_list_add p ord s = Some s1" "page_inv N s1" "free_pages s1 = free_pages s \<union> block ord p"
        "free_total s1 = free_total s + 2 ^ ord" "same_pages s s1"
    proof (rule page_list_add_ok [OF Suc.prems(1) le(2) al(1) lim(1)])
      show "block ord p \<inter> free_pages s = {}" "unused s (block ord p)"
        using Suc.prems(6,7) h(1) by (auto simp: unused_def)
      show "page_buddy p ord \<notin> set (free_list s ord)" by (rule nb)
    qed (simp add: same_pages_def)
    have "block ord (p + 2 ^ ord) \<inter> free_pages s1 = {}" using Suc.prems(6) h s1(3) by auto
    moreover have "unused s1 (block ord (p + 2 ^ ord))"
      using Suc.prems(7) h(1) unused_same [OF s1(5)] by (auto simp: unused_def)
    ultimately obtain q s' where s': "page_split ord order (p + 2 ^ ord) s1 = Some (q, s')" "page_inv N s'"
        "same_pages s1 s'" "2 ^ order dvd q" "block order q \<subseteq> block ord (p + 2 ^ ord)"
        "free_pages s' = free_pages s1 \<union> (block ord (p + 2 ^ ord) - block order q)"
        "free_total s' = free_total s1 + 2 ^ ord - 2 ^ order"
      using Suc.IH [OF s1(2) le al(2) lim(2)] by blast
    have "page_split (Suc ord) order p s = Some (q, s')"
      using le s1(1) s'(1) by (subst page_split.simps) simp
    moreover have "free_pages s' = free_pages s \<union> (block (Suc ord) p - block order q)"
      using s'(5,6) s1(3) h by auto
    ultimately show ?thesis using s' s1 h(1) by (auto simp: same_pages_def)
  qed
qed

lemma page_merge_ok:
  "page_inv N s \<Longrightarrow> ord \<le> PAGE_ORDER_MAX \<Longrightarrow> 2 ^ ord dvd p \<Longrightarrow> p + 2 ^ ord \<le> N \<Longrightarrow>
   block ord p \<inter> free_pages s = {} \<Longrightarrow> unused s (block ord p) \<Longrightarrow>
   \<exists>ord' q s' s''. page_merge ord p s = Some (ord', q, s') \<and> page_list_add q ord' s' = Some s'' \<and> page_inv N s'' \<and>
     same_pages s s'' \<and> free_pages s'' = free_pages s \<union> block ord p \<and> free_total s'' = free_total s + 2 ^ ord"
proof (induction "PAGE_ORDER_MAX - ord" arbitrary: ord p s)
  case 0
  then have "ord = PAGE_ORDER_MAX" by simp
  obtain s'' where "page_list_add p ord s = Some s''" "page_inv N s''" "free_pages s'' = free_pages s \<union> block ord p"
      "free_total s'' = free_total s + 2 ^ ord" "same_pages s s''"
    by (rule page_list_add_ok [OF "0.prems"]) (simp_all add: \<open>ord = PAGE_ORDER_MAX\<close> same_pages_def)
  with \<open>ord = PAGE_ORDER_MAX\<close> show ?case by (subst page_merge.simps) auto
next
  case (Suc n)
  then have lt: "ord < PAGE_ORDER_MAX" and n: "n = PAGE_ORDER_MAX - (ord + 1)" by simp_all
  let ?b = "page_buddy p ord"
  note m = block_merge [OF Suc.prems(3)]
  have cont: "page_list_contains ?b ord s \<longleftrightarrow> ?b \<in> set (free_list s ord)"
    using Suc.prems(1,2) m(1) by (simp add: page_list_contains_iff page_inv_def lists_ok_def)
  show ?case
  proof (cases "?b \<in> set (free_list s ord)")
    case False
    obtain s'' where "page_list_add p ord s = Some s''" "page_inv N s''" "free_pages s'' = free_pages s \<union> block ord p"
        "free_total s'' = free_total s + 2 ^ ord" "same_pages s s''"
      by (rule page_list_add_ok [OF Suc.prems]) (simp_all add: False same_pages_def)
    with False cont show ?thesis by (subst page_merge.simps) (auto simp: Let_def)
  next
    case True
    define q where "q = (if ?b < p then ?b else p)"
    obtain s1 where s1: "page_k_list_remove ?b ord s = Some s1" "page_inv N s1" "free_pages s1 = free_pages s - block ord ?b"
        "free_total s1 = free_total s - 2 ^ ord" "same_pages s s1"
      by (rule page_k_list_remove_ok [OF Suc.prems(1,2) True]) (simp add: same_pages_def)
    have bf: "block ord ?b \<subseteq> free_pages s" using block_free [OF Suc.prems(2) True] .
    have "?b + 2 ^ ord \<le> N" using Suc.prems(1,2) True by (auto simp: page_inv_def lists_ok_def)
    have q: "2 ^ (ord + 1) dvd q" "block (ord + 1) q = block ord p \<union> block ord ?b"
      using m(4,5) by (simp_all add: q_def)
    have "(1 :: nat) \<le> 2 ^ (ord + 1)" by (rule one_le_power) simp
    then have "q + 2 ^ (ord + 1) - 1 \<in> block (ord + 1) q" unfolding block_def atLeastLessThan_iff by linarith
    then have "q + 2 ^ (ord + 1) - 1 < N" unfolding q(2) using Suc.prems(4) \<open>?b + 2 ^ ord \<le> N\<close> by (auto simp: block_def)
    then have "q + 2 ^ (ord + 1) \<le> N" by simp
    moreover have "block (ord + 1) q \<inter> free_pages s1 = {}" using Suc.prems(5) s1(3) unfolding q(2) by blast
    moreover have "unused s1 (block (ord + 1) q)"
      using Suc.prems(1,6) bf unused_same [OF s1(5)] unfolding q(2) by (auto simp: unused_def page_inv_def)
    ultimately obtain ord' q' s' s'' where IH: "page_merge (ord + 1) q s1 = Some (ord', q', s')"
        "page_list_add q' ord' s' = Some s''" "page_inv N s''" "same_pages s1 s''"
        "free_pages s'' = free_pages s1 \<union> block (ord + 1) q" "free_total s'' = free_total s1 + 2 ^ (ord + 1)"
      using Suc.hyps(1) [OF n s1(2) _ q(1)] lt by auto
    have "page_merge ord p s = Some (ord', q', s')"
      using lt cont True s1(1) IH(1) by (subst page_merge.simps) (simp add: Let_def q_def)
    moreover have "free_pages s'' = free_pages s \<union> block ord p" using IH(5) s1(3) bf unfolding q(2) by blast
    ultimately show ?thesis using IH s1 by (auto simp: same_pages_def)
  qed
qed

lemma page_set_tags_ok:
  "distinct ps \<Longrightarrow> \<forall>p\<in>set ps. debug_tag s p = 0 \<Longrightarrow>
   page_set_tags ps tag s = Some (s\<lparr>debug_tag := (\<lambda>p. if p \<in> set ps then tag else debug_tag s p)\<rparr>)"
proof (induction ps arbitrary: s)
  case (Cons p ps)
  then have "page_set_tags ps tag (s\<lparr>debug_tag := (debug_tag s)(p := tag)\<rparr>)
      = Some (s\<lparr>debug_tag := (\<lambda>x. if x \<in> set ps then tag else ((debug_tag s)(p := tag)) x)\<rparr>)"
    using Cons.IH [of "s\<lparr>debug_tag := (debug_tag s)(p := tag)\<rparr>"] by (simp cong: if_cong)
  moreover have "(\<lambda>x. if x \<in> set ps then tag else ((debug_tag s)(p := tag)) x)
      = (\<lambda>x. if x \<in> set (p # ps) then tag else debug_tag s x)" by auto
  ultimately show ?case using Cons.prems by simp
qed simp

lemma find_upt_Some:
  "List.find P [a..<b] = Some x \<Longrightarrow> P x \<and> a \<le> x \<and> x < b"
  by (auto simp: find_Some_iff)

lemma block_bytes: "a div PAGE_SIZE \<in> block ord q \<longleftrightarrow> q * PAGE_SIZE \<le> a \<and> a < q * PAGE_SIZE + PAGE_SIZE * 2 ^ ord"
  by (simp add: block_def PAGE_SIZE_def less_eq_div_iff_mult_less_eq div_less_iff_less_mult add_mult_distrib mult.commute)

lemma page_inv_tags:
  assumes "page_inv N s" "\<forall>p\<in>free_pages s. t p = 0"
  shows "page_inv N (s\<lparr>debug_tag := t\<rparr>)" "free_pages (s\<lparr>debug_tag := t\<rparr>) = free_pages s"
    "free_total (s\<lparr>debug_tag := t\<rparr>) = free_total s"
  using assms by (auto simp: page_inv_def lists_ok_def blocks_disjoint_def coalesced_def free_pages_def map_bit_def
      unused_def free_total_def)

lemma page_inv_count: "page_inv N (s\<lparr>page_free_count := c\<rparr>) = page_inv N s"
  "free_pages (s\<lparr>page_free_count := c\<rparr>) = free_pages s" "free_total (s\<lparr>page_free_count := c\<rparr>) = free_total s"
  by (simp_all add: page_inv_def lists_ok_def blocks_disjoint_def coalesced_def free_pages_def map_bit_def
      unused_def free_total_def)

lemma page_inv_phys: "page_inv N (s\<lparr>phys := m\<rparr>) = page_inv N s" "free_pages (s\<lparr>phys := m\<rparr>) = free_pages s"
  "free_total (s\<lparr>phys := m\<rparr>) = free_total s"
  by (simp_all add: page_inv_def lists_ok_def blocks_disjoint_def coalesced_def free_pages_def map_bit_def
      unused_def free_total_def)

subsection \<open>Properties\<close>

lemma page_alloc_block_ok:
  assumes inv: "page_inv N s"
  shows "if \<exists>ord\<in>{order..PAGE_ORDER_MAX}. free_list s ord \<noteq> [] then
      \<exists>p s'. page_alloc_block order zero tag s = Some (p, s') \<and> page_inv N s' \<and>
        free_total s' - page_free_count s' = free_total s - page_free_count s \<and>
        2 ^ order dvd p \<and> block order p \<subseteq> free_pages s \<and> free_pages s' = free_pages s - block order p \<and>
        debug_tag s' = (\<lambda>q. if q \<in> block order p then tag else debug_tag s q) \<and> ref_count s' = ref_count s \<and>
        phys s' = (\<lambda>a. if zero \<and> a div PAGE_SIZE \<in> block order p then 0 else phys s a)
    else page_alloc_block order zero tag s = None"
proof (cases "List.find (\<lambda>ord. free_list s ord \<noteq> []) [order..<PAGE_ORDER_MAX + 1]")
  case None
  then have "\<forall>ord\<in>{order..PAGE_ORDER_MAX}. free_list s ord = []" by (auto simp: find_None_iff)
  with None show ?thesis by (simp add: page_alloc_block_def)
next
  case (Some ord)
  from find_upt_Some [OF this] have ord: "free_list s ord \<noteq> []" "order \<le> ord" "ord \<le> PAGE_ORDER_MAX" by auto
  define p0 where "p0 = hd (free_list s ord)"
  have p0: "p0 \<in> set (free_list s ord)" using ord(1) by (simp add: p0_def)
  then have al: "2 ^ ord dvd p0" "p0 + 2 ^ ord \<le> N" using inv ord(3) by (auto simp: page_inv_def lists_ok_def)
  have bf: "block ord p0 \<subseteq> free_pages s" using ord(3) p0 by (rule block_free)
  obtain s1 where s1: "page_k_list_remove p0 ord s = Some s1" "page_inv N s1" "free_pages s1 = free_pages s - block ord p0"
      "free_total s1 = free_total s - 2 ^ ord" "same_pages s s1"
    by (rule page_k_list_remove_ok [OF inv ord(3) p0]) (simp add: same_pages_def)
  define s2 where "s2 = s1\<lparr>page_free_count := page_free_count s1 - 2 ^ order\<rparr>"
  have s2: "page_inv N s2" "free_pages s2 = free_pages s1" "free_total s2 = free_total s1" "unused s2 A = unused s A" for A
    using s1(2,5) by (simp_all add: s2_def page_inv_def lists_ok_def blocks_disjoint_def coalesced_def free_pages_def
        free_total_def map_bit_def unused_def same_pages_def)
  have "unused s2 (block ord p0)" unfolding s2(4) using inv bf by (auto simp: page_inv_def unused_def)
  moreover have "block ord p0 \<inter> free_pages s2 = {}" using s1(3) s2(2) by blast
  ultimately obtain q s3 where s3: "page_split ord order p0 s2 = Some (q, s3)" "page_inv N s3" "same_pages s2 s3"
      "2 ^ order dvd q" "block order q \<subseteq> block ord p0" "free_pages s3 = free_pages s2 \<union> (block ord p0 - block order q)"
      "free_total s3 = free_total s2 + 2 ^ ord - 2 ^ order"
    using page_split_ok [OF s2(1) ord(2,3) al] by blast
  have fp: "free_pages s3 = free_pages s - block order q" using s3(5,6) s2(2) s1(3) bf by blast
  have q: "q \<in> block order q" by (simp add: block_def)
  have un: "unused s3 (block order q)"
    using s3(5) \<open>unused s2 (block ord p0)\<close> unused_same [OF s3(3)] by (auto simp: unused_def)
  have "q \<notin> set (free_list s3 order)" using fp q block_free [of order q s3] ord(2,3) by auto
  then have nc: "\<not> page_list_contains q order s3"
    using s3(2,4) ord(2,3) by (simp add: page_list_contains_iff page_inv_def lists_ok_def)
  define s4 where "s4 = (if zero then s3\<lparr>phys := memset (q * PAGE_SIZE) 0 (PAGE_SIZE * 2 ^ order) (phys s3)\<rparr> else s3)"
  define s' where "s' = s4\<lparr>debug_tag := (\<lambda>p. if p \<in> set [q..<q + 2 ^ order] then tag else debug_tag s4 p)\<rparr>"
  have "page_set_tags [q..<q + 2 ^ order] tag s4 = Some s'"
    unfolding s'_def using un by (intro page_set_tags_ok) (auto simp: unused_def block_def s4_def)
  then have res: "page_alloc_block order zero tag s = Some (q, s')"
    using Some s1(1) s3(1) nc un q
    by (simp add: page_alloc_block_def p0_def [symmetric] s2_def [symmetric] s4_def [symmetric] unused_def)
  have s4: "page_inv N s4" "free_pages s4 = free_pages s3" "free_total s4 = free_total s3"
    using s3(2) by (simp_all add: s4_def page_inv_phys)
  then have "\<forall>p\<in>free_pages s4. (if p \<in> set [q..<q + 2 ^ order] then tag else debug_tag s4 p) = 0"
    using fp by (auto simp: page_inv_def unused_def block_def)
  from page_inv_tags [OF s4(1) this]
  have "page_inv N s'" "free_pages s' = free_pages s - block order q" "free_total s' = free_total s3"
    using fp s4(2,3) by (simp_all add: s'_def)
  moreover have "free_total s3 - page_free_count s' = free_total s - page_free_count s"
    using s1(4,5) s2(3) s3(3,7) by (simp add: s'_def s4_def same_pages_def s2_def)
  moreover have "phys s' = (\<lambda>a. if zero \<and> a div PAGE_SIZE \<in> block order q then 0 else phys s a)"
  proof -
    have "phys s3 = phys s" using s1(5) s3(3) by (simp add: same_pages_def s2_def)
    then show ?thesis by (auto simp: s'_def s4_def memset_apply block_bytes)
  qed
  moreover have "ref_count s' = ref_count s" "debug_tag s' = (\<lambda>p. if p \<in> block order q then tag else debug_tag s p)"
    using s1(5) s3(3) by (auto simp: s'_def s4_def same_pages_def s2_def block_def)
  ultimately show ?thesis using ord res s3(4,5) bf by auto
qed

text \<open>C28: in a state that satisfies the invariant an allocation succeeds if and only if there is a free block of at least the
  requested order; it returns an aligned block of free pages, removes exactly these from the free pages, tags them,
  clears their bytes and no others when asked to, and keeps the invariant, in particular that no page is in two
  blocks.\<close>

theorem page_alloc_block_correct:
  assumes "page_inv N s" "page_free_count s = free_total s"
  shows "if \<exists>ord\<in>{order..PAGE_ORDER_MAX}. free_list s ord \<noteq> [] then
      \<exists>p s'. page_alloc_block order zero tag s = Some (p, s') \<and> page_inv N s' \<and> page_free_count s' = free_total s' \<and>
        2 ^ order dvd p \<and> block order p \<subseteq> free_pages s \<and> free_pages s' = free_pages s - block order p \<and>
        (\<forall>q\<in>block order p. debug_tag s' q = tag) \<and> ref_count s' = ref_count s \<and>
        phys s' = (\<lambda>a. if zero \<and> a div PAGE_SIZE \<in> block order p then 0 else phys s a)
    else page_alloc_block order zero tag s = None"
  using page_alloc_block_ok [OF assms(1), of order zero tag] assms(2) by (auto split: if_splits)

lemma page_free_block_ok:
  assumes inv: "page_inv N s" and order: "order \<le> PAGE_ORDER_MAX" and p: "2 ^ order dvd p" "p + 2 ^ order \<le> N"
    and fresh: "block order p \<inter> free_pages s = {}" and ref: "\<forall>q\<in>block order p. ref_count s q = 0"
  shows "\<exists>s'. page_free_block p order s = Some s' \<and> page_inv N s' \<and> free_pages s' = free_pages s \<union> block order p \<and>
     free_total s' - page_free_count s' = free_total s - page_free_count s \<and> ref_count s' = ref_count s \<and> phys s' = phys s \<and>
     debug_tag s' = (\<lambda>q. if q \<in> block order p then 0 else debug_tag s q)"
proof -
  define t where "t = (\<lambda>q. if p \<le> q \<and> q < p + 2 ^ order then 0 else debug_tag s q)"
  have t: "t = (\<lambda>q. if q \<in> block order p then 0 else debug_tag s q)" by (auto simp: t_def block_def)
  have "\<forall>q\<in>free_pages s. t q = 0" using inv by (auto simp: t page_inv_def unused_def)
  note i = page_inv_tags [OF inv this]
  have "unused (s\<lparr>debug_tag := t\<rparr>) (block order p)" using ref by (auto simp: unused_def t)
  moreover have "block order p \<inter> free_pages (s\<lparr>debug_tag := t\<rparr>) = {}" using fresh i(2) by simp
  ultimately obtain ord q s1 s2 where m: "page_merge order p (s\<lparr>debug_tag := t\<rparr>) = Some (ord, q, s1)"
      "page_list_add q ord s1 = Some s2" "page_inv N s2" "same_pages (s\<lparr>debug_tag := t\<rparr>) s2"
      "free_pages s2 = free_pages s \<union> block order p" "free_total s2 = free_total s + 2 ^ order"
    using page_merge_ok [OF i(1) order p] i(2,3) by auto
  have "p \<in> block order p" by (simp add: block_def)
  then have "ref_count s p = 0" using ref by blast
  then have "page_free_block p order s = Some (s2\<lparr>page_free_count := page_free_count s2 + 2 ^ order\<rparr>)"
    using m(1,2) by (simp add: page_free_block_def t_def [symmetric])
  then show ?thesis using m(3-6) by (auto simp: page_inv_count same_pages_def t)
qed

text \<open>C29: freeing an aligned, unreferenced block whose pages are not free makes exactly its pages free, keeps the count of free
  pages right, and leaves no two free buddies unmerged.\<close>

theorem page_free_block_correct:
  assumes "page_inv N s" "page_free_count s = free_total s" "order \<le> PAGE_ORDER_MAX" "2 ^ order dvd p" "p + 2 ^ order \<le> N"
    "block order p \<inter> free_pages s = {}" "\<forall>q\<in>block order p. ref_count s q = 0"
  shows "\<exists>s'. page_free_block p order s = Some s' \<and> page_inv N s' \<and> page_free_count s' = free_total s' \<and>
     free_pages s' = free_pages s \<union> block order p"
  using page_free_block_ok [OF assms(1,3-7)] assms(2) by auto

text \<open>Adding a region makes all its pages free.\<close>

lemma region_order_ok:
  "region_order ord page limit \<le> ord \<and> 2 ^ region_order ord page limit dvd page \<and>
   (page < limit \<longrightarrow> page + 2 ^ region_order ord page limit \<le> limit)"
  by (induction ord) (auto simp: mod_eq_0_iff_dvd)

lemma page_free_pages_ok:
  "page_inv N s \<Longrightarrow> limit \<le> N \<Longrightarrow> {page..<limit} \<inter> free_pages s = {} \<Longrightarrow> \<forall>q\<in>{page..<limit}. ref_count s q = 0 \<Longrightarrow>
   \<exists>s'. page_free_pages page limit s = Some s' \<and> page_inv N s' \<and> free_pages s' = free_pages s \<union> {page..<limit} \<and>
     free_total s' - page_free_count s' = free_total s - page_free_count s"
proof (induction page limit s rule: page_free_pages.induct)
  case (1 page limit s)
  show ?case
  proof (cases "page < limit")
    case True
    define ord where "ord = region_order PAGE_ORDER_MAX page limit"
    have o: "ord \<le> PAGE_ORDER_MAX" "2 ^ ord dvd page" "page + 2 ^ ord \<le> limit"
      using region_order_ok [of PAGE_ORDER_MAX page limit] True by (simp_all add: ord_def)
    have sub: "block ord page \<subseteq> {page..<limit}" using o(3) by (auto simp: block_def)
    obtain s1 where s1: "page_free_block page ord s = Some s1" "page_inv N s1" "free_pages s1 = free_pages s \<union> block ord page"
        "free_total s1 - page_free_count s1 = free_total s - page_free_count s" "ref_count s1 = ref_count s"
      using page_free_block_ok [OF "1.prems"(1) o(1,2)] o(3) "1.prems"(2-4) sub by (meson disjoint_iff le_trans subsetD)
    have "{page + 2 ^ ord..<limit} \<inter> free_pages s1 = {}" "\<forall>q\<in>{page + 2 ^ ord..<limit}. ref_count s1 q = 0"
    proof -
      have "{page + 2 ^ ord..<limit} \<subseteq> {page..<limit}" "{page + 2 ^ ord..<limit} \<inter> block ord page = {}"
        by (auto simp: block_def)
      then show "{page + 2 ^ ord..<limit} \<inter> free_pages s1 = {}" "\<forall>q\<in>{page + 2 ^ ord..<limit}. ref_count s1 q = 0"
        using "1.prems"(3,4) unfolding s1(3,5) by blast+
    qed
    with "1.IH" [OF True ord_def s1(1)] s1(2) "1.prems"(2) obtain s' where
      "page_free_pages (page + 2 ^ ord) limit s1 = Some s'" "page_inv N s'"
      "free_pages s' = free_pages s1 \<union> {page + 2 ^ ord..<limit}"
      "free_total s' - page_free_count s' = free_total s1 - page_free_count s1" by auto
    moreover have "{page..<limit} = block ord page \<union> {page + 2 ^ ord..<limit}" using o(3) by (auto simp: block_def)
    ultimately show ?thesis using True s1 by (subst page_free_pages.simps) (simp add: ord_def [symmetric] Un_assoc)
  next
    case False
    with 1 show ?thesis by (subst page_free_pages.simps) simp
  qed
qed

lemma page_inv_init: "page_inv N (page_init m)" "free_pages (page_init m) = {}" "free_total (page_init m) = 0"
  by (simp_all add: page_init_def page_inv_def lists_ok_def blocks_disjoint_def coalesced_def free_pages_def map_bit_def
      unused_def free_total_def)

text \<open>A memory of eight pages.\<close>

theorem page_free_block_correct_witness:
  "\<exists>s'. page_free_block 2 1 (page_init (\<lambda>_. 7)) = Some s' \<and> page_inv 8 s' \<and> free_pages s' = {2, 3}"
proof -
  have "block 1 2 = {2, 3}" by (auto simp: block_def)
  moreover have "page_free_count (page_init (\<lambda>_. 7)) = 0" "ref_count (page_init (\<lambda>_. 7)) q = 0" for q
    by (simp_all add: page_init_def)
  ultimately show ?thesis
    using page_free_block_correct [of 8 "page_init (\<lambda>_. 7)" 1 2] by (auto simp: page_inv_init PAGE_ORDER_MAX_def)
qed

theorem page_alloc_block_correct_witness:
  "let s = the (page_free_pages 0 8 (page_init (\<lambda>_. 7))) in
   \<exists>p s'. page_alloc_block 1 True 5 s = Some (p, s') \<and> block 1 p \<subseteq> free_pages s \<and> free_pages s' = free_pages s - block 1 p"
proof -
  have "ref_count (page_init (\<lambda>_. 7)) q = 0" for q by (simp add: page_init_def)
  then obtain s where s: "page_free_pages 0 8 (page_init (\<lambda>_. 7)) = Some s" "page_inv 8 s"
      "free_total s - page_free_count s = free_total (page_init (\<lambda>_. 7)) - page_free_count (page_init (\<lambda>_. 7))"
    using page_free_pages_ok [OF page_inv_init(1), of 8 8 0 "\<lambda>_. 7"] page_inv_init(2) by auto
  then have c: "page_free_count s = free_total s" by (simp add: page_inv_init(3)) (simp add: page_init_def)
  have "free_list (the (page_free_pages 0 8 (page_init (\<lambda>_. 7)))) 3 = [0]" by code_simp
  then have "\<exists>ord\<in>{1..PAGE_ORDER_MAX}. free_list s ord \<noteq> []"
    using s(1) by (intro bexI [of _ 3]) (simp_all add: PAGE_ORDER_MAX_def)
  with page_alloc_block_correct [OF s(2) c, of 1 True 5] s(1) show ?thesis by auto
qed

end
