(* ===== verification/Byte_Order.thy ===== *)
theory Byte_Order
  imports Lib_String
begin

section \<open>Words in memory\<close>

text \<open>
  The little-endian representation of 16-bit and 32-bit words in byte memory, as page tables and the
  structures of a disk have it, and the transfer of byte sequences.
\<close>

unbundle bit_operations_syntax

definition load32 :: "mem \<Rightarrow> nat \<Rightarrow> u32" where
  "load32 m a = ucast (m a) OR push_bit 8 (ucast (m (a + 1))) OR push_bit 16 (ucast (m (a + 2)))
     OR push_bit 24 (ucast (m (a + 3)))"

definition store32 :: "nat \<Rightarrow> u32 \<Rightarrow> mem \<Rightarrow> mem" where
  "store32 a w m = m(a := ucast w, a + 1 := ucast (drop_bit 8 w), a + 2 := ucast (drop_bit 16 w),
     a + 3 := ucast (drop_bit 24 w))"

lemma bit_load32:
  "bit (load32 m a) n \<longleftrightarrow> n < 32 \<and> bit (m (a + n div 8)) (n mod 8)"
proof -
  have b: "bit (v :: u8) k \<Longrightarrow> k < 8" for v k using bit_imp_le_length [of v k] by simp
  define q r where "q = n div 8" and "r = n mod 8"
  then have n: "n = 8 * q + r" "r < 8" by simp_all
  have *: "bit (load32 m a) n \<longleftrightarrow> n < 32 \<and> (bit (m a) n \<or> 8 \<le> n \<and> bit (m (a + 1)) (n - 8) \<or>
      16 \<le> n \<and> bit (m (a + 2)) (n - 16) \<or> 24 \<le> n \<and> bit (m (a + 3)) (n - 24))"
    unfolding load32_def bit_or_iff bit_push_bit_iff bit_ucast_iff by auto
  show ?thesis
  proof (cases "n < 32")
    case True
    then have "q = 0 \<or> q = 1 \<or> q = 2 \<or> q = 3" using n by linarith
    then show ?thesis unfolding * q_def [symmetric] r_def [symmetric] using n by (auto dest: b)
  qed (simp add: *)
qed

lemma load32_cong: "(\<And>i. i < 4 \<Longrightarrow> m (a + i) = m' (a + i)) \<Longrightarrow> load32 m a = load32 m' a"
  using bit_eqI [of "load32 m a" "load32 m' a"] by (simp add: bit_load32)

lemma load32_store32 [simp]: "load32 (store32 a w m) a = w"
proof (rule bit_word_eqI)
  fix n assume "n < LENGTH(32)"
  then have "n < 32" by simp
  define q r where "q = n div 8" and "r = n mod 8"
  then have n: "n = 8 * q + r" "r < 8" by simp_all
  then have "q = 0 \<or> q = 1 \<or> q = 2 \<or> q = 3" using \<open>n < 32\<close> by linarith
  moreover have "bit (load32 (store32 a w m) a) n \<longleftrightarrow> bit (store32 a w m (a + q)) r"
    using \<open>n < 32\<close> by (simp add: bit_load32 q_def r_def)
  ultimately show "bit (load32 (store32 a w m) a) n = bit w n"
    using n by (auto simp: store32_def bit_ucast_iff bit_drop_bit_eq)
qed

lemma store32_other: "b < a \<or> a + 4 \<le> b \<Longrightarrow> store32 a w m b = m b"
  by (auto simp: store32_def)

lemma load32_store32_other: "b + 4 \<le> a \<or> a + 4 \<le> b \<Longrightarrow> load32 (store32 a w m) b = load32 m b"
  by (rule load32_cong) (auto simp: store32_other)

lemma load32_zero: "(\<And>i. i < 4 \<Longrightarrow> m (a + i) = 0) \<Longrightarrow> load32 m a = 0"
  by (rule bit_eqI) (simp add: bit_load32)

text \<open>Single bits.\<close>

lemma and_push_bit_neq_0: "x AND push_bit k 1 \<noteq> 0 \<longleftrightarrow> bit (x :: u32) k"
proof
  assume "x AND push_bit k 1 \<noteq> 0"
  then obtain n where "bit (x AND push_bit k 1) n" by (metis bit_0_eq bit_eqI bot_apply bot_bool_def)
  then show "bit x k" by (auto simp: bit_and_iff bit_exp_iff)
next
  assume "bit x k"
  then have "bit (x AND push_bit k 1) k"
    using bit_imp_le_length [of x k] by (simp add: bit_and_iff bit_exp_iff)
  then show "x AND push_bit k 1 \<noteq> 0" by auto
qed

lemma bit_push_bit_1: "bit (push_bit k 1 :: u32) n \<longleftrightarrow> n = k \<and> k < 32"
  by (auto simp: bit_exp_iff)

text \<open>Halfwords.\<close>

definition load16 :: "mem \<Rightarrow> nat \<Rightarrow> u16" where
  "load16 m a = ucast (m a) OR push_bit 8 (ucast (m (a + 1)))"

definition store16 :: "nat \<Rightarrow> u16 \<Rightarrow> mem \<Rightarrow> mem" where
  "store16 a w m = m(a := ucast w, a + 1 := ucast (drop_bit 8 w))"

lemma load16_cong: "m a = m' a \<Longrightarrow> m (a + 1) = m' (a + 1) \<Longrightarrow> load16 m a = load16 m' a"
  by (simp add: load16_def)

lemma load16_store16 [simp]: "load16 (store16 a w m) a = w"
proof (rule bit_word_eqI)
  fix n assume "n < LENGTH(16)"
  then have n: "n < 16" by simp
  show "bit (load16 (store16 a w m) a) n = bit w n"
    unfolding load16_def store16_def using n
    by (cases "n < 8") (auto simp: bit_or_iff bit_push_bit_iff bit_ucast_iff bit_drop_bit_eq)
qed

lemma store16_other: "b < a \<or> a + 2 \<le> b \<Longrightarrow> store16 a w m b = m b"
  by (auto simp: store16_def)

text \<open>Unsigned arithmetic.\<close>

definition wrap32 :: "nat \<Rightarrow> nat" where "wrap32 x = x mod 2 ^ 32"

text \<open>Writing the bytes of a buffer to memory, and reading bytes from it.\<close>

definition put_bytes :: "nat \<Rightarrow> u8 list \<Rightarrow> mem \<Rightarrow> mem" where
  "put_bytes a bs m = (\<lambda>x. if a \<le> x \<and> x < a + length bs then bs ! (x - a) else m x)"

definition get_bytes :: "nat \<Rightarrow> nat \<Rightarrow> mem \<Rightarrow> u8 list" where
  "get_bytes a n m = map m [a..<a + n]"

lemma put_bytes_apply: "put_bytes a bs m x = (if a \<le> x \<and> x < a + length bs then bs ! (x - a) else m x)"
  by (simp add: put_bytes_def)

lemma length_get_bytes [simp]: "length (get_bytes a n m) = n"
  by (simp add: get_bytes_def)

end
