(* ===== verification/Page_Table.thy ===== *)
theory Page_Table
  imports Page Byte_Order
begin

section \<open>Page tables of the i386\<close>

text \<open>
  Models \<open>kernel/arch/i386/mm/arch_vm.c\<close>: two-level page tables in physical memory.  A page
  directory and a page table are pages of 1024 little-endian 32-bit entries in the byte memory of
  the page allocator, so a table that is overwritten or freed too early is visible in the model.  A
  page table is named by the number of its page (\<open>KVA2PA\<close> of the pointer divided by the page size),
  a pointer to an entry by its physical address; \<open>kernel_pgdir\<close> is a parameter.  \<open>None\<close> is a panic.
  Loading the page directory register, segments and the invalidation of the TLB are not modelled.
\<close>

unbundle bit_operations_syntax

subsection \<open>Entries\<close>

definition PHYS_LIMIT :: nat where "PHYS_LIMIT = 0x10000000"
definition VIRT_KERNEL_BASE :: nat where "VIRT_KERNEL_BASE = 0x80000000"

definition PAGE_TAG_ANON :: nat where "PAGE_TAG_ANON = 0xABCD0007"
definition PAGE_TAG_PGTAB :: nat where "PAGE_TAG_PGTAB = 0xABCD0008"
definition PAGE_TAG_VM :: nat where "PAGE_TAG_VM = 0xABCD0009"
definition PAGE_TAG_KERNEL_VM :: nat where "PAGE_TAG_KERNEL_VM = 0xABCD000A"

lemmas page_tag_defs = PAGE_TAG_ANON_def PAGE_TAG_PGTAB_def PAGE_TAG_VM_def PAGE_TAG_KERNEL_VM_def

definition VM_READ :: u32 where "VM_READ = push_bit 0 1"
definition VM_WRITE :: u32 where "VM_WRITE = push_bit 1 1"
definition VM_EXEC :: u32 where "VM_EXEC = push_bit 2 1"
definition VM_NOCACHE :: u32 where "VM_NOCACHE = push_bit 3 1"
definition VM_USER :: u32 where "VM_USER = push_bit 4 1"
definition VM_COW :: u32 where "VM_COW = push_bit 5 1"
definition VM_PAGE :: u32 where "VM_PAGE = push_bit 6 1"

definition PTE_P :: u32 where "PTE_P = push_bit 0 1"
definition PTE_W :: u32 where "PTE_W = push_bit 1 1"
definition PTE_U :: u32 where "PTE_U = push_bit 2 1"
definition PTE_PCD :: u32 where "PTE_PCD = push_bit 4 1"
definition PDE_PS :: u32 where "PDE_PS = push_bit 7 1"
definition PTE_AVAIL_COW :: u32 where "PTE_AVAIL_COW = push_bit 9 1"
definition PTE_AVAIL_PAGE :: u32 where "PTE_AVAIL_PAGE = push_bit 10 1"

lemmas vm_flag_defs = VM_READ_def VM_WRITE_def VM_EXEC_def VM_NOCACHE_def VM_USER_def VM_COW_def VM_PAGE_def
lemmas pte_bit_defs = PTE_P_def PTE_W_def PTE_U_def PTE_PCD_def PDE_PS_def PTE_AVAIL_COW_def PTE_AVAIL_PAGE_def

definition PGDIR_NR_ENTRIES :: nat where "PGDIR_NR_ENTRIES = 1024"
definition PGTAB_NR_ENTRIES :: nat where "PGTAB_NR_ENTRIES = 1024"

definition PTE_FLAGS :: "u32 \<Rightarrow> u32" where "PTE_FLAGS x = x AND 0xFFF"
definition PTE_BASE :: "u32 \<Rightarrow> u32" where "PTE_BASE x = x AND NOT 0xFFF"

definition PGDIR_IDX :: "nat \<Rightarrow> nat" where "PGDIR_IDX va = va div 2 ^ 22 mod 1024"
definition PGTAB_IDX :: "nat \<Rightarrow> nat" where "PGTAB_IDX va = va div 2 ^ 12 mod 1024"

definition arch_vm_pte_valid :: "nat \<Rightarrow> page_state \<Rightarrow> bool" where
  "arch_vm_pte_valid pte s \<longleftrightarrow> load32 (phys s) pte AND PTE_P \<noteq> 0"

definition arch_vm_pte_addr :: "nat \<Rightarrow> page_state \<Rightarrow> nat" where
  "arch_vm_pte_addr pte s = unat (PTE_BASE (load32 (phys s) pte))"

definition flags_of_bits :: "u32 \<Rightarrow> u32" where
  "flags_of_bits bits =
     (if bits AND PTE_P \<noteq> 0 then VM_EXEC OR VM_READ else 0) OR
     (if bits AND PTE_W \<noteq> 0 then VM_WRITE else 0) OR
     (if bits AND PTE_U \<noteq> 0 then VM_USER else 0) OR
     (if bits AND PTE_PCD \<noteq> 0 then VM_NOCACHE else 0) OR
     (if bits AND PTE_AVAIL_COW \<noteq> 0 then VM_COW else 0) OR
     (if bits AND PTE_AVAIL_PAGE \<noteq> 0 then VM_PAGE else 0)"

definition arch_vm_pte_flags :: "nat \<Rightarrow> page_state \<Rightarrow> u32" where
  "arch_vm_pte_flags pte s = flags_of_bits (PTE_FLAGS (load32 (phys s) pte))"

definition bits_of_flags :: "u32 \<Rightarrow> u32" where
  "bits_of_flags flags =
     PTE_P OR
     (if flags AND VM_WRITE \<noteq> 0 then PTE_W else 0) OR
     (if flags AND VM_USER \<noteq> 0 then PTE_U else 0) OR
     (if flags AND VM_NOCACHE \<noteq> 0 then PTE_PCD else 0) OR
     (if flags AND VM_COW \<noteq> 0 then PTE_AVAIL_COW else 0) OR
     (if flags AND VM_PAGE \<noteq> 0 then PTE_AVAIL_PAGE else 0)"

definition arch_vm_pte_set :: "nat \<Rightarrow> nat \<Rightarrow> u32 \<Rightarrow> page_state \<Rightarrow> page_state" where
  "arch_vm_pte_set pte pa flags s =
     s\<lparr>phys := store32 pte (of_nat pa OR bits_of_flags flags) (phys s)\<rparr>"

definition arch_vm_pte_clear :: "nat \<Rightarrow> page_state \<Rightarrow> page_state" where
  "arch_vm_pte_clear pte s = s\<lparr>phys := store32 pte 0 (phys s)\<rparr>"

subsection \<open>Operations\<close>

definition page_alloc_one :: "bool \<Rightarrow> nat \<Rightarrow> page_state \<Rightarrow> (nat \<times> page_state) option" where
  "page_alloc_one zero tag s = page_alloc_block 0 zero tag s"

definition page_free_one :: "nat \<Rightarrow> page_state \<Rightarrow> page_state option" where
  "page_free_one page s = page_free_block page 0 s"

text \<open>The global variables, and the conversions of addresses with the panics they contain.  A pointer into
  the linear mapping of the physical memory is named by the physical address.\<close>

record vm_globals =
  kernel_pgdir :: nat
  page_count :: nat

definition pa2kva :: "nat \<Rightarrow> nat option" where
  "pa2kva pa = (if pa \<ge> VIRT_KERNEL_BASE then None else Some pa)"

definition page2kva :: "vm_globals \<Rightarrow> nat \<Rightarrow> nat option" where
  "page2kva g page = do { pa \<leftarrow> page2pa (page_count g) page; pa2kva pa }"

text \<open>The allocator panics when it is out of memory and never returns a null pointer, so the branch
  for it is not there.  The result is the address of the entry, \<open>None\<close> when there is no page table.\<close>

definition arch_vm_lookup :: "vm_globals \<Rightarrow> nat \<Rightarrow> nat \<Rightarrow> bool \<Rightarrow> page_state \<Rightarrow> (nat option \<times> page_state) option" where
  "arch_vm_lookup g pgtab va alloc s = do {
     k_assert (\<not> (va \<ge> VIRT_KERNEL_BASE \<and> pgtab \<noteq> kernel_pgdir g));
     k_assert (\<not> (va < VIRT_KERNEL_BASE \<and> pgtab = kernel_pgdir g));
     let pde = pgtab * PAGE_SIZE + 4 * PGDIR_IDX va;
     if load32 (phys s) pde AND PTE_P = 0
     then if \<not> alloc then Some (None, s)
          else do {
            (page, s) \<leftarrow> page_alloc_one True PAGE_TAG_PGTAB s;
            let s = page_inc_ref page s;
            pa \<leftarrow> page2pa (page_count g) page;
            let s = s\<lparr>phys := store32 pde (of_nat pa OR PTE_U OR PTE_W OR PTE_P) (phys s)\<rparr>;
            pte \<leftarrow> pa2kva (unat (PTE_BASE (load32 (phys s) pde)));
            Some (Some (pte + 4 * PGTAB_IDX va), s)
          }
     else do {
       k_assert (load32 (phys s) pde AND PDE_PS = 0);
       pte \<leftarrow> pa2kva (unat (PTE_BASE (load32 (phys s) pde)));
       Some (Some (pte + 4 * PGTAB_IDX va), s)
     }
   }"

fun copy_pdes :: "nat list \<Rightarrow> nat \<Rightarrow> nat \<Rightarrow> mem \<Rightarrow> mem" where
  "copy_pdes [] src dst m = m"
| "copy_pdes (idx # is) src dst m =
     copy_pdes is src dst (store32 (dst * PAGE_SIZE + 4 * idx) (load32 m (src * PAGE_SIZE + 4 * idx)) m)"

definition arch_vm_create :: "vm_globals \<Rightarrow> page_state \<Rightarrow> (nat \<times> page_state) option" where
  "arch_vm_create g s = do {
     (page, s) \<leftarrow> page_alloc_one True PAGE_TAG_VM s;
     pgdir \<leftarrow> page2kva g page;
     let s = page_inc_ref page s;
     let s = s\<lparr>phys := copy_pdes [PGDIR_IDX VIRT_KERNEL_BASE..<PGDIR_NR_ENTRIES] (kernel_pgdir g) page (phys s)\<rparr>;
     Some (page, s)
   }"

fun destroy_tables :: "vm_globals \<Rightarrow> nat list \<Rightarrow> nat \<Rightarrow> page_state \<Rightarrow> page_state option" where
  "destroy_tables g [] pgdir s = Some s"
| "destroy_tables g (i # is) pgdir s =
     (let pde = load32 (phys s) (pgdir * PAGE_SIZE + 4 * i)
      in if pde = 0 then destroy_tables g is pgdir s
         else do {
           page \<leftarrow> pa2page (page_count g) (unat (PTE_BASE pde));
           page_assert page 0 PAGE_TAG_PGTAB s;
           pte \<leftarrow> page2kva g page;
           k_assert (\<forall>j\<in>set [0..<PGTAB_NR_ENTRIES]. \<not> arch_vm_pte_valid (pte + 4 * j) s);
           s \<leftarrow> page_dec_ref page 0 s;
           destroy_tables g is pgdir s
         })"

definition arch_vm_destroy :: "vm_globals \<Rightarrow> nat \<Rightarrow> page_state \<Rightarrow> page_state option" where
  "arch_vm_destroy g pgtab s = do {
     s \<leftarrow> destroy_tables g [0..<PGDIR_IDX VIRT_KERNEL_BASE] pgtab s;
     page \<leftarrow> pa2page (page_count g) (pgtab * PAGE_SIZE);
     page_assert page 0 PAGE_TAG_VM s;
     let s = s\<lparr>ref_count := (ref_count s)(page := ref_count s page - 1)\<rparr>;
     page_free_one page s
   }"

subsection \<open>Reading entries back\<close>

lemmas flag_simps = vm_flag_defs pte_bit_defs and_push_bit_neq_0 bit_push_bit_1 bit_or_iff

lemma if_bit: "bit ((if P then x else 0) OR y :: u32) k \<longleftrightarrow> P \<and> bit x k \<or> bit y k"
  "bit ((if P then x else 0) :: u32) k \<longleftrightarrow> P \<and> bit x k"
  by (auto simp: bit_or_iff)

lemma bit_flags_of_bits:
  "bit (flags_of_bits b) k \<longleftrightarrow> k = 0 \<and> bit b 0 \<or> k = 2 \<and> bit b 0 \<or> k = 1 \<and> bit b 1 \<or> k = 4 \<and> bit b 2 \<or>
     k = 3 \<and> bit b 4 \<or> k = 5 \<and> bit b 9 \<or> k = 6 \<and> bit b 10"
  unfolding flags_of_bits_def if_bit flag_simps by auto

lemma bit_bits_of_flags:
  "bit (bits_of_flags fl) k \<longleftrightarrow> k = 0 \<or> k = 1 \<and> bit fl 1 \<or> k = 2 \<and> bit fl 4 \<or> k = 4 \<and> bit fl 3 \<or>
     k = 9 \<and> bit fl 5 \<or> k = 10 \<and> bit fl 6"
  unfolding bits_of_flags_def if_bit flag_simps by auto

lemma mask12: "(0xFFF :: u32) = mask 12"
  by (simp add: mask_eq_exp_minus_1)

lemma bit_PTE_FLAGS: "bit (PTE_FLAGS x) k \<longleftrightarrow> k < 12 \<and> bit x k"
  unfolding PTE_FLAGS_def mask12 by (auto simp: bit_and_iff bit_mask_iff)

lemma bit_PTE_BASE: "bit (PTE_BASE x) k \<longleftrightarrow> 12 \<le> k \<and> bit x k"
  unfolding PTE_BASE_def mask12 using bit_imp_le_length [of x k] by (auto simp: bit_and_iff bit_not_iff bit_mask_iff)

lemma bit_page_addr: "bit (of_nat (f * PAGE_SIZE) :: u32) k \<Longrightarrow> 12 \<le> k"
proof (rule ccontr)
  assume "bit (of_nat (f * PAGE_SIZE) :: u32) k" "\<not> 12 \<le> k"
  moreover have "f * PAGE_SIZE = push_bit 12 f" by (simp add: PAGE_SIZE_def push_bit_eq_mult)
  ultimately show False by (simp add: bit_of_nat_iff bit_push_bit_iff)
qed

lemma PTE_BASE_entry:
  assumes "\<And>k. bit b k \<Longrightarrow> k < 12" and "f < 2 ^ 20"
  shows "unat (PTE_BASE (of_nat (f * PAGE_SIZE) OR b)) = f * PAGE_SIZE"
proof -
  have "PTE_BASE (of_nat (f * PAGE_SIZE) OR b) = of_nat (f * PAGE_SIZE)"
  proof (rule bit_word_eqI)
    fix k assume "k < LENGTH(32)"
    show "bit (PTE_BASE (of_nat (f * PAGE_SIZE) OR b)) k = bit (of_nat (f * PAGE_SIZE) :: u32) k"
      using bit_page_addr [of f k] assms(1) [of k] by (auto simp: bit_PTE_BASE bit_or_iff)
  qed
  moreover have "f * PAGE_SIZE < 2 ^ LENGTH(32)" using assms(2) by (simp add: PAGE_SIZE_def)
  ultimately show ?thesis by (simp add: unat_of_nat take_bit_nat_eq_self del: of_nat_mult)
qed

definition mk_pte :: "nat \<Rightarrow> u32 \<Rightarrow> u32" where
  "mk_pte f fl = of_nat (f * PAGE_SIZE) OR bits_of_flags fl"

definition mk_pde :: "nat \<Rightarrow> u32" where
  "mk_pde q = of_nat (q * PAGE_SIZE) OR PTE_U OR PTE_W OR PTE_P"

text \<open>What \<open>arch_vm_pte_flags\<close> returns for an entry that was set with the given flags: every present page
  can be read and executed.\<close>

definition canon :: "u32 \<Rightarrow> u32" where
  "canon fl = flags_of_bits (bits_of_flags fl)"

lemma bit_canon:
  "bit (canon fl) k \<longleftrightarrow> k = 0 \<or> k = 2 \<or> k \<in> {1, 3, 4, 5, 6} \<and> bit fl k"
  unfolding canon_def bit_flags_of_bits bit_bits_of_flags by auto

lemma mk_pte_simps:
  assumes "f < 2 ^ 20"
  shows "unat (PTE_BASE (mk_pte f fl)) = f * PAGE_SIZE" "flags_of_bits (PTE_FLAGS (mk_pte f fl)) = canon fl"
    "bit (mk_pte f fl) 0" "bit (mk_pte f fl) 10 = bit fl 6"
proof -
  have b: "bit (bits_of_flags fl) k \<Longrightarrow> k < 12" for k by (auto simp: bit_bits_of_flags)
  show "unat (PTE_BASE (mk_pte f fl)) = f * PAGE_SIZE"
    unfolding mk_pte_def by (rule PTE_BASE_entry [OF b assms])
  have c: "bit (mk_pte f fl) k = bit (bits_of_flags fl) k" if "k < 12" for k
    using bit_page_addr [of f k] that by (auto simp: mk_pte_def bit_or_iff)
  show "flags_of_bits (PTE_FLAGS (mk_pte f fl)) = canon fl"
    unfolding canon_def by (rule bit_word_eqI) (simp add: bit_flags_of_bits bit_PTE_FLAGS c)
  show "bit (mk_pte f fl) 0" "bit (mk_pte f fl) 10 = bit fl 6" by (simp_all add: c bit_bits_of_flags)
qed

lemma mk_pde_simps:
  assumes "q < 2 ^ 20"
  shows "unat (PTE_BASE (mk_pde q)) = q * PAGE_SIZE" "bit (mk_pde q) 0" "\<not> bit (mk_pde q) 7" "mk_pde q \<noteq> 0"
proof -
  have b: "bit (PTE_U OR PTE_W OR PTE_P) k \<longleftrightarrow> k = 0 \<or> k = 1 \<or> k = 2" for k unfolding flag_simps by auto
  show "unat (PTE_BASE (mk_pde q)) = q * PAGE_SIZE"
    unfolding mk_pde_def or.assoc by (rule PTE_BASE_entry [OF _ assms]) (auto simp: b)
  have c: "bit (mk_pde q) k \<longleftrightarrow> k = 0 \<or> k = 1 \<or> k = 2" if "k < 12" for k
    using bit_page_addr [of q k] that b by (auto simp: mk_pde_def bit_or_iff)
  show "bit (mk_pde q) 0" "\<not> bit (mk_pde q) 7" by (simp_all add: c)
  then show "mk_pde q \<noteq> 0" by auto
qed

subsection \<open>The mappings and the invariant\<close>

text \<open>The number of user pages and of directory entries for them.\<close>

definition USER_PAGES :: nat where "USER_PAGES = 2 ^ 19"
definition USER_PDES :: nat where "USER_PDES = 512"

definition pde_at :: "page_state \<Rightarrow> nat \<Rightarrow> nat \<Rightarrow> u32" where
  "pde_at s pd i = load32 (phys s) (pd * PAGE_SIZE + 4 * i)"

definition table :: "page_state \<Rightarrow> nat \<Rightarrow> nat \<Rightarrow> nat option" where
  "table s pd i = (if bit (pde_at s pd i) 0 then Some (unat (PTE_BASE (pde_at s pd i)) div PAGE_SIZE) else None)"

definition entry :: "page_state \<Rightarrow> nat \<times> nat \<Rightarrow> u32" where
  "entry s = (\<lambda>(pd, vpn). case table s pd (vpn div 1024) of None \<Rightarrow> 0
     | Some q \<Rightarrow> load32 (phys s) (q * PAGE_SIZE + 4 * (vpn mod 1024)))"

definition ukeys :: "page_state \<Rightarrow> (nat \<times> nat) set" where
  "ukeys s = {pd. debug_tag s pd = PAGE_TAG_VM} \<times> {..<USER_PAGES}"

text \<open>The page and the flags that a directory maps at a virtual page.\<close>

definition umap :: "page_state \<Rightarrow> nat \<times> nat \<Rightarrow> (nat \<times> u32) option" where
  "umap s k = (if k \<in> ukeys s \<and> bit (entry s k) 0 \<and> bit (entry s k) 10
     then Some (unat (PTE_BASE (entry s k)) div PAGE_SIZE, flags_of_bits (PTE_FLAGS (entry s k))) else None)"

definition maps_to :: "nat \<Rightarrow> (nat \<times> u32) option \<Rightarrow> bool" where
  "maps_to f e \<longleftrightarrow> (\<exists>fl. e = Some (f, fl))"

definition uses :: "page_state \<Rightarrow> nat \<Rightarrow> int" where
  "uses s f = int (card {k. maps_to f (umap s k)})"

definition dirs_ok :: "nat \<Rightarrow> page_state \<Rightarrow> bool" where
  "dirs_ok N s \<longleftrightarrow> (\<forall>pd i. debug_tag s pd = PAGE_TAG_VM \<longrightarrow> pd < N \<and> ref_count s pd = 1 \<and>
     (i < USER_PDES \<longrightarrow> pde_at s pd i = 0 \<or>
        (\<exists>q<N. pde_at s pd i = mk_pde q \<and> debug_tag s q = PAGE_TAG_PGTAB \<and> ref_count s q = 1)))"

definition tables_distinct :: "page_state \<Rightarrow> bool" where
  "tables_distinct s \<longleftrightarrow> (\<forall>pd i pd' i' q. debug_tag s pd = PAGE_TAG_VM \<and> debug_tag s pd' = PAGE_TAG_VM \<and>
     i < USER_PDES \<and> i' < USER_PDES \<and> table s pd i = Some q \<and> table s pd' i' = Some q \<longrightarrow> pd = pd' \<and> i = i')"

definition entries_ok :: "nat \<Rightarrow> page_state \<Rightarrow> bool" where
  "entries_ok N s \<longleftrightarrow> (\<forall>k\<in>ukeys s. entry s k = 0 \<or>
     (\<exists>f<N. \<exists>fl. entry s k = mk_pte f fl \<and> bit fl 6 \<and> debug_tag s f = PAGE_TAG_ANON))"

text \<open>A page in use by address spaces is referenced once for each mapping, and \<open>x\<close> times by others.\<close>

definition refs_ok :: "nat \<Rightarrow> (nat \<Rightarrow> int) \<Rightarrow> page_state \<Rightarrow> bool" where
  "refs_ok N x s \<longleftrightarrow> (\<forall>f. debug_tag s f = PAGE_TAG_ANON \<longrightarrow> f < N \<and> 0 \<le> x f \<and> ref_count s f = uses s f + x f)"

definition vm_inv :: "vm_globals \<Rightarrow> (nat \<Rightarrow> int) \<Rightarrow> page_state \<Rightarrow> bool" where
  "vm_inv g x s \<longleftrightarrow> page_inv (page_count g) s \<and> page_count g * PAGE_SIZE \<le> PHYS_LIMIT \<and>
     debug_tag s (kernel_pgdir g) = PAGE_TAG_KERNEL_VM \<and>
     dirs_ok (page_count g) s \<and> tables_distinct s \<and> entries_ok (page_count g) s \<and> refs_ok (page_count g) x s"

lemma vm_inv_N: "vm_inv g x s \<Longrightarrow> q < page_count g \<Longrightarrow> q < 2 ^ 20"
  by (auto simp: vm_inv_def PHYS_LIMIT_def PAGE_SIZE_def)

lemma vm_inv_free:
  assumes "vm_inv g x s" and "p \<in> free_pages s"
  shows "debug_tag s p = 0" "ref_count s p = 0"
  using assms by (auto simp: vm_inv_def page_inv_def unused_def)

text \<open>Frames.\<close>

lemma frame_div: "i < 1024 \<Longrightarrow> d < 4 \<Longrightarrow> (p * PAGE_SIZE + 4 * i + d) div PAGE_SIZE = p"
  by (simp add: PAGE_SIZE_def div_nat_eqI)

lemma load32_frame:
  assumes "\<And>a. a div PAGE_SIZE = p \<Longrightarrow> m a = m' a" and "i < 1024"
  shows "load32 m (p * PAGE_SIZE + 4 * i) = load32 m' (p * PAGE_SIZE + 4 * i)"
  by (rule load32_cong) (use assms frame_div in auto)

lemma store32_frame: "i < 1024 \<Longrightarrow> a div PAGE_SIZE \<noteq> p \<Longrightarrow> store32 (p * PAGE_SIZE + 4 * i) w m a = m a"
proof (rule store32_other, rule ccontr)
  assume "i < 1024" "a div PAGE_SIZE \<noteq> p" and c: "\<not> (a < p * PAGE_SIZE + 4 * i \<or> p * PAGE_SIZE + 4 * i + 4 \<le> a)"
  then have "a = p * PAGE_SIZE + 4 * i + (a - (p * PAGE_SIZE + 4 * i))" "a - (p * PAGE_SIZE + 4 * i) < 4" by linarith+
  with frame_div [OF \<open>i < 1024\<close>, of "a - (p * PAGE_SIZE + 4 * i)" p] \<open>a div PAGE_SIZE \<noteq> p\<close> show False by simp
qed

lemma load32_store32_frame:
  assumes "i < 1024" "j < 1024"
  shows "load32 (store32 (p * PAGE_SIZE + 4 * i) w m) (q * PAGE_SIZE + 4 * j) =
    (if p = q \<and> i = j then w else load32 m (q * PAGE_SIZE + 4 * j))"
proof (cases "p = q")
  case True
  then show ?thesis by (cases "i = j") (auto intro!: load32_store32_other)
next
  case False
  then show ?thesis using assms store32_frame by (auto intro!: load32_frame)
qed

lemma table_Some:
  assumes "vm_inv g x s" "debug_tag s pd = PAGE_TAG_VM" "i < USER_PDES" "table s pd i = Some q"
  shows "q < page_count g" "pde_at s pd i = mk_pde q" "debug_tag s q = PAGE_TAG_PGTAB" "ref_count s q = 1"
proof -
  have "pde_at s pd i \<noteq> 0" using assms(4) by (auto simp: table_def)
  then obtain q' where q': "q' < page_count g" "pde_at s pd i = mk_pde q'" "debug_tag s q' = PAGE_TAG_PGTAB" "ref_count s q' = 1"
    using assms(1-3) by (auto simp: vm_inv_def dirs_ok_def)
  moreover have "q' = q"
    using assms(4) mk_pde_simps(1) [OF vm_inv_N [OF assms(1) q'(1)]] q'(2) by (auto simp: table_def PAGE_SIZE_def split: if_splits)
  ultimately show "q < page_count g" "pde_at s pd i = mk_pde q" "debug_tag s q = PAGE_TAG_PGTAB" "ref_count s q = 1" by simp_all
qed

lemma table_None:
  assumes "vm_inv g x s" "debug_tag s pd = PAGE_TAG_VM" "i < USER_PDES" "table s pd i = None"
  shows "pde_at s pd i = 0"
proof (rule ccontr)
  assume "pde_at s pd i \<noteq> 0"
  then obtain q' where "q' < page_count g" "pde_at s pd i = mk_pde q'"
    using assms(1-3) by (auto simp: vm_inv_def dirs_ok_def)
  with mk_pde_simps(2) [of q'] vm_inv_N [OF assms(1)] assms(4) show False by (auto simp: table_def)
qed

lemma finite_maps: "vm_inv g x s \<Longrightarrow> finite {k. maps_to f (umap s k)}"
  by (rule finite_subset [of _ "{..<page_count g} \<times> {..<USER_PAGES}"])
    (auto simp: maps_to_def umap_def ukeys_def vm_inv_def dirs_ok_def split: if_splits)

lemma umap_Some:
  assumes "vm_inv g x s" "umap s k = Some (f, fl)"
  obtains fl' where "k \<in> ukeys s" "f < page_count g" "entry s k = mk_pte f fl'" "bit fl' 6" "fl = canon fl'"
    "debug_tag s f = PAGE_TAG_ANON" "0 < ref_count s f"
proof -
  have k: "k \<in> ukeys s" "bit (entry s k) 0" "f = unat (PTE_BASE (entry s k)) div PAGE_SIZE"
      "fl = flags_of_bits (PTE_FLAGS (entry s k))"
    using assms(2) by (auto simp: umap_def split: if_splits)
  then obtain f' fl' where e: "f' < page_count g" "entry s k = mk_pte f' fl'" "bit fl' 6" "debug_tag s f' = PAGE_TAG_ANON"
    using assms(1) by (fastforce simp: vm_inv_def entries_ok_def)
  note m = mk_pte_simps [OF vm_inv_N [OF assms(1) e(1)], of fl']
  have "f' = f" "fl = canon fl'" using k(3,4) e(2) m by (simp_all add: PAGE_SIZE_def)
  moreover have "0 < ref_count s f"
  proof -
    have "k \<in> {k. maps_to f (umap s k)}" using assms(2) by (simp add: maps_to_def)
    then have "0 < uses s f" unfolding uses_def using finite_maps [OF assms(1)] by (metis card_gt_0_iff empty_iff of_nat_0_less_iff)
    then show ?thesis using assms(1) e(4) \<open>f' = f\<close> by (auto simp: vm_inv_def refs_ok_def add_pos_nonneg)
  qed
  ultimately show thesis using that k(1) e by blast
qed

subsection \<open>Changes of the memory\<close>

lemma ukeys_idx: "(pd, vpn) \<in> ukeys s \<Longrightarrow> debug_tag s pd = PAGE_TAG_VM \<and> vpn < USER_PAGES \<and> vpn div 1024 < USER_PDES"
  by (auto simp: ukeys_def USER_PAGES_def USER_PDES_def)

text \<open>The pages that hold the directories and tables.\<close>

definition tframes :: "page_state \<Rightarrow> nat set" where
  "tframes s = {p. debug_tag s p = PAGE_TAG_VM \<or>
     (\<exists>pd i. debug_tag s pd = PAGE_TAG_VM \<and> i < USER_PDES \<and> table s pd i = Some p)}"

lemma tframes_tag: "vm_inv g x s \<Longrightarrow> p \<in> tframes s \<Longrightarrow> debug_tag s p \<in> {PAGE_TAG_VM, PAGE_TAG_PGTAB}"
  using table_Some(3) by (auto simp: tframes_def)

text \<open>What is outside of the tables does not matter for the mappings.\<close>

lemma tables_cong:
  assumes inv: "vm_inv g x s" and tags: "\<forall>p. debug_tag s' p = PAGE_TAG_VM \<longleftrightarrow> debug_tag s p = PAGE_TAG_VM"
    and mem: "\<forall>a. a div PAGE_SIZE \<in> tframes s \<longrightarrow> phys s' a = phys s a"
  shows "ukeys s' = ukeys s" "debug_tag s pd = PAGE_TAG_VM \<Longrightarrow> i < USER_PDES \<Longrightarrow> pde_at s' pd i = pde_at s pd i"
    "debug_tag s pd = PAGE_TAG_VM \<Longrightarrow> i < USER_PDES \<Longrightarrow> table s' pd i = table s pd i"
    "k \<in> ukeys s \<Longrightarrow> entry s' k = entry s k" "umap s' = umap s"
proof -
  show u: "ukeys s' = ukeys s" by (simp add: ukeys_def tags)
  show p: "pde_at s' pd i = pde_at s pd i" if "debug_tag s pd = PAGE_TAG_VM" "i < USER_PDES" for pd i
    unfolding pde_at_def using that by (intro load32_frame mem [rule_format]) (auto simp: USER_PDES_def tframes_def)
  then show t: "table s' pd i = table s pd i" if "debug_tag s pd = PAGE_TAG_VM" "i < USER_PDES" for pd i
    using that by (simp add: table_def)
  show e: "entry s' k = entry s k" if k: "k \<in> ukeys s" for k
  proof (cases k)
    case (Pair pd vpn)
    with k have i: "debug_tag s pd = PAGE_TAG_VM" "vpn div 1024 < USER_PDES" using ukeys_idx by auto
    have "load32 (phys s') (q * PAGE_SIZE + 4 * (vpn mod 1024)) = load32 (phys s) (q * PAGE_SIZE + 4 * (vpn mod 1024))"
      if "table s pd (vpn div 1024) = Some q" for q
      using i that by (intro load32_frame mem [rule_format]) (auto simp: tframes_def)
    then show ?thesis using t [OF i] Pair by (auto simp: entry_def split: option.splits)
  qed
  show "umap s' = umap s"
    by (rule ext) (simp add: umap_def u e cong: conj_cong if_cong)
qed

lemma vm_inv_cong:
  assumes inv: "vm_inv g x s" and p: "page_inv (page_count g) s'" "debug_tag s' (kernel_pgdir g) = PAGE_TAG_KERNEL_VM"
    and tags: "\<forall>p. debug_tag s' p = PAGE_TAG_VM \<longleftrightarrow> debug_tag s p = PAGE_TAG_VM"
    and mem: "\<forall>a. a div PAGE_SIZE \<in> tframes s \<longrightarrow> phys s' a = phys s a"
    and keep: "\<forall>p. p \<in> tframes s \<longrightarrow>
      debug_tag s' p = debug_tag s p \<and> ref_count s' p = ref_count s p"
    and mapped: "\<forall>k f fl. umap s k = Some (f, fl) \<longrightarrow> debug_tag s' f = PAGE_TAG_ANON"
    and refs: "\<forall>f. debug_tag s' f = PAGE_TAG_ANON \<longrightarrow> f < page_count g \<and> 0 \<le> x' f \<and> ref_count s' f = uses s f + x' f"
  shows "vm_inv g x' s' \<and> umap s' = umap s"
proof -
  note c = tables_cong [OF inv tags mem]
  have "dirs_ok (page_count g) s'"
    unfolding dirs_ok_def
  proof (intro allI impI)
    fix pd i assume "debug_tag s' pd = PAGE_TAG_VM"
    then have "debug_tag s pd = PAGE_TAG_VM" using tags by simp
    then have d: "pd < page_count g \<and> ref_count s pd = 1 \<and> (i < USER_PDES \<longrightarrow> pde_at s pd i = 0 \<or> table s pd i \<noteq> None)"
      "pd \<in> tframes s"
      using inv table_None [OF inv, of pd i] by (auto simp: vm_inv_def dirs_ok_def tframes_def)
    have "\<exists>q<page_count g. pde_at s' pd i = mk_pde q \<and> debug_tag s' q = PAGE_TAG_PGTAB \<and> ref_count s' q = 1"
      if "table s pd i = Some q" "i < USER_PDES" for q
    proof -
      note t = table_Some [OF inv \<open>debug_tag s pd = PAGE_TAG_VM\<close> that(2,1)]
      have "q \<in> tframes s" using that \<open>debug_tag s pd = PAGE_TAG_VM\<close> by (auto simp: tframes_def)
      with t keep c(2) [OF \<open>debug_tag s pd = PAGE_TAG_VM\<close> that(2)] show ?thesis by auto
    qed
    then show "pd < page_count g \<and> ref_count s' pd = 1 \<and> (i < USER_PDES \<longrightarrow> pde_at s' pd i = 0 \<or>
        (\<exists>q<page_count g. pde_at s' pd i = mk_pde q \<and> debug_tag s' q = PAGE_TAG_PGTAB \<and> ref_count s' q = 1))"
      using d keep c(2) [OF \<open>debug_tag s pd = PAGE_TAG_VM\<close>, of i] by (cases "table s pd i") auto
  qed
  moreover have "tables_distinct s'"
    using inv c(3) tags unfolding vm_inv_def tables_distinct_def by metis
  moreover have "entries_ok (page_count g) s'"
    unfolding entries_ok_def c(1)
  proof
    fix k assume k: "k \<in> ukeys s"
    show "entry s' k = 0 \<or> (\<exists>f<page_count g. \<exists>fl. entry s' k = mk_pte f fl \<and> bit fl 6 \<and> debug_tag s' f = PAGE_TAG_ANON)"
    proof (cases "entry s k = 0")
      case False
      then obtain f fl where f: "f < page_count g" "entry s k = mk_pte f fl" "bit fl 6"
        using inv k by (auto simp: vm_inv_def entries_ok_def)
      note m = mk_pte_simps [OF vm_inv_N [OF inv f(1)], of fl]
      have "umap s k = Some (f, canon fl)" using k f(2,3) m by (simp add: umap_def PAGE_SIZE_def)
      then have "debug_tag s' f = PAGE_TAG_ANON" using mapped by blast
      with f c(4) [OF k] show ?thesis by auto
    qed (simp add: c(4) [OF k])
  qed
  moreover have "refs_ok (page_count g) x' s'"
    using refs by (simp add: refs_ok_def uses_def c(5))
  ultimately show ?thesis using inv p c(5) by (simp add: vm_inv_def)
qed

lemma card_upd:
  assumes "finite {k. P (m k)}"
  shows "int (card {k. P ((m(k0 := v)) k)}) = int (card {k. P (m k)}) - of_bool (P (m k0)) + of_bool (P v)"
proof -
  let ?A = "{k. P (m k)} - {k0}"
  have "{k. P (m k)} = (if P (m k0) then insert k0 ?A else ?A)"
    "{k. P ((m(k0 := v)) k)} = (if P v then insert k0 ?A else ?A)" by auto
  moreover have "finite ?A" "k0 \<notin> ?A" using assms by auto
  ultimately show ?thesis by (smt (verit) card_insert_disjoint of_bool_eq of_nat_Suc)
qed

text \<open>Setting and clearing an entry.\<close>

lemma pte_store:
  assumes inv: "vm_inv g x s" and k: "(pd, vpn) \<in> ukeys s" and q: "table s pd (vpn div 1024) = Some q"
    and w: "w = 0 \<and> v = None \<or>
      (\<exists>f<page_count g. \<exists>fl. w = mk_pte f fl \<and> bit fl 6 \<and> debug_tag s f = PAGE_TAG_ANON \<and> v = Some (f, canon fl))"
    and x': "\<forall>f. debug_tag s f = PAGE_TAG_ANON \<longrightarrow>
      x' f = x f + of_bool (maps_to f (umap s (pd, vpn))) - of_bool (maps_to f v) \<and> 0 \<le> x' f"
  defines "s' \<equiv> s\<lparr>phys := store32 (q * PAGE_SIZE + 4 * (vpn mod 1024)) w (phys s)\<rparr>"
  shows "vm_inv g x' s'" "umap s' = (umap s)((pd, vpn) := v)"
    "\<And>p i. debug_tag s p = PAGE_TAG_VM \<Longrightarrow> i < USER_PDES \<Longrightarrow> table s' p i = table s p i"
    "\<And>a. debug_tag s (a div PAGE_SIZE) \<noteq> PAGE_TAG_PGTAB \<Longrightarrow> phys s' a = phys s a"
proof -
  have i: "debug_tag s pd = PAGE_TAG_VM" "vpn div 1024 < USER_PDES" using ukeys_idx [OF k] by auto
  note tq = table_Some [OF inv i q]
  show ph: "\<And>a. debug_tag s (a div PAGE_SIZE) \<noteq> PAGE_TAG_PGTAB \<Longrightarrow> phys s' a = phys s a"
    using tq(3) by (auto simp: s'_def intro: store32_frame)
  have pde: "pde_at s' p i = pde_at s p i" if "debug_tag s p = PAGE_TAG_VM" "i < USER_PDES" for p i
    unfolding pde_at_def using that by (intro load32_frame ph) (auto simp: USER_PDES_def page_tag_defs)
  then show tab: "\<And>p i. debug_tag s p = PAGE_TAG_VM \<Longrightarrow> i < USER_PDES \<Longrightarrow> table s' p i = table s p i"
    by (simp add: table_def)
  have u: "ukeys s' = ukeys s" by (simp add: ukeys_def s'_def)
  have ent: "entry s' k' = (if k' = (pd, vpn) then w else entry s k')" if k': "k' \<in> ukeys s" for k'
  proof (cases k')
    case (Pair pd' vpn')
    with k' have i': "debug_tag s pd' = PAGE_TAG_VM" "vpn' div 1024 < USER_PDES" using ukeys_idx by auto
    show ?thesis
    proof (cases "table s pd' (vpn' div 1024)")
      case None
      then have "k' \<noteq> (pd, vpn)" using q Pair by auto
      moreover have "entry s' k' = entry s k'" using None tab [OF i'] Pair by (simp add: entry_def)
      ultimately show ?thesis by simp
    next
      case (Some q')
      have "q = q' \<and> vpn mod 1024 = vpn' mod 1024 \<longleftrightarrow> pd = pd' \<and> vpn = vpn'"
      proof
        assume a: "q = q' \<and> vpn mod 1024 = vpn' mod 1024"
        then have "pd = pd' \<and> vpn div 1024 = vpn' div 1024"
          using inv i i' q Some unfolding vm_inv_def tables_distinct_def by blast
        with a show "pd = pd' \<and> vpn = vpn'" by (metis div_mult_mod_eq)
      qed (use q Some in auto)
      then show ?thesis using Some tab [OF i'] Pair
        by (auto simp: entry_def s'_def load32_store32_frame)
    qed
  qed
  have val: "(if bit w 0 \<and> bit w 10 then Some (unat (PTE_BASE w) div PAGE_SIZE, flags_of_bits (PTE_FLAGS w)) else None) = v"
    using w mk_pte_simps vm_inv_N [OF inv] by (auto simp: PAGE_SIZE_def)
  show um: "umap s' = (umap s)((pd, vpn) := v)"
  proof
    fix k' show "umap s' k' = ((umap s)((pd, vpn) := v)) k'"
      using k val ent [of k'] by (cases "k' \<in> ukeys s") (auto simp: umap_def u)
  qed
  have uses: "uses s' f = uses s f - of_bool (maps_to f (umap s (pd, vpn))) + of_bool (maps_to f v)" for f
    unfolding uses_def um using card_upd [where P = "maps_to f" and m = "umap s", OF finite_maps [OF inv]] by simp
  have st: "ref_count s' = ref_count s" "debug_tag s' = debug_tag s" by (simp_all add: s'_def)
  have "dirs_ok (page_count g) s'" using inv pde by (simp add: vm_inv_def dirs_ok_def st)
  moreover have "tables_distinct s'"
    using inv tab unfolding vm_inv_def tables_distinct_def st by metis
  moreover have "entries_ok (page_count g) s'"
    using inv w by (auto simp: vm_inv_def entries_ok_def u st ent)
  moreover have "refs_ok (page_count g) x' s'"
    using inv x' by (auto simp: vm_inv_def refs_ok_def st uses)
  ultimately show "vm_inv g x' s'" using inv by (simp add: vm_inv_def st) (simp add: s'_def page_inv_phys)
qed

subsection \<open>Allocating and freeing single pages\<close>

lemma block_0 [simp]: "block 0 p = {p}"
  by (auto simp: block_def)

lemma page_alloc_one_ok:
  assumes inv: "page_inv N s" and free: "free_pages s \<noteq> {}"
  obtains p s' where "page_alloc_one zero tag s = Some (p, s')" "page_inv N s'" "p \<in> free_pages s" "p < N"
    "free_pages s' = free_pages s - {p}" "debug_tag s' = (debug_tag s)(p := tag)" "ref_count s' = ref_count s"
    "phys s' = (\<lambda>a. if zero \<and> a div PAGE_SIZE = p then 0 else phys s a)"
proof -
  have "\<exists>ord\<in>{0..PAGE_ORDER_MAX}. free_list s ord \<noteq> []" using free by (auto simp: free_pages_def)
  with page_alloc_block_ok [OF inv, of 0 zero tag] obtain p s' where
    r: "page_alloc_block 0 zero tag s = Some (p, s')" "page_inv N s'" "p \<in> free_pages s" "free_pages s' = free_pages s - {p}"
      "debug_tag s' = (\<lambda>q. if q \<in> block 0 p then tag else debug_tag s q)" "ref_count s' = ref_count s"
      "phys s' = (\<lambda>a. if zero \<and> a div PAGE_SIZE \<in> block 0 p then 0 else phys s a)" by auto
  from r(3) obtain ord q where "ord \<le> PAGE_ORDER_MAX" "q \<in> set (free_list s ord)" "p \<in> block ord q"
    by (auto simp: free_pages_def)
  then have "p < N" using inv by (fastforce simp: page_inv_def lists_ok_def block_def)
  moreover have "debug_tag s' = (debug_tag s)(p := tag)" using r(5) by auto
  ultimately show thesis using that r by (simp add: page_alloc_one_def)
qed

lemma page_free_one_ok:
  assumes "page_inv N s" "p < N" "p \<notin> free_pages s" "ref_count s p = 0"
  obtains s' where "page_free_one p s = Some s'" "page_inv N s'" "free_pages s' = free_pages s \<union> {p}"
    "ref_count s' = ref_count s" "phys s' = phys s" "debug_tag s' = (debug_tag s)(p := 0)"
proof -
  from page_free_block_ok [of N s 0 p] assms obtain s' where
    r: "page_free_block p 0 s = Some s'" "page_inv N s'" "free_pages s' = free_pages s \<union> {p}"
      "ref_count s' = ref_count s" "phys s' = phys s" "debug_tag s' = (\<lambda>q. if q \<in> block 0 p then 0 else debug_tag s q)"
    by auto
  moreover have "debug_tag s' = (debug_tag s)(p := 0)" using r(6) by auto
  ultimately show thesis using that by (simp add: page_free_one_def)
qed

lemma page_inv_ref:
  assumes "page_inv N s" "\<forall>p\<in>free_pages s. r p = 0"
  shows "page_inv N (s\<lparr>ref_count := r\<rparr>)" "free_pages (s\<lparr>ref_count := r\<rparr>) = free_pages s"
  using assms by (auto simp: page_inv_def lists_ok_def blocks_disjoint_def coalesced_def free_pages_def map_bit_def unused_def)

text \<open>A page with a tag is not free.\<close>

lemma page_inv_tagged: "page_inv N s \<Longrightarrow> debug_tag s p \<noteq> 0 \<Longrightarrow> p \<notin> free_pages s"
  by (auto simp: page_inv_def unused_def)

text \<open>A fresh page changes no mapping.\<close>

lemma vm_inv_fresh:
  assumes inv: "vm_inv g x s" and p: "p \<in> free_pages s" "p < page_count g"
    and s': "page_inv (page_count g) s'" "debug_tag s' = (debug_tag s)(p := tag)" "tag \<in> {PAGE_TAG_ANON, PAGE_TAG_PGTAB}"
      "ref_count s' = (ref_count s)(p := r)" "\<forall>a. a div PAGE_SIZE \<noteq> p \<longrightarrow> phys s' a = phys s a" "0 \<le> r"
  shows "vm_inv g (x(p := r)) s'" "umap s' = umap s" "p \<notin> tframes s" "\<not> maps_to p (umap s k)"
proof -
  note f = vm_inv_free [OF inv p(1)]
  show np: "p \<notin> tframes s" using tframes_tag [OF inv, of p] f(1) by (auto simp: page_tag_defs)
  have nm: "\<not> maps_to p (umap s k)" for k
    using umap_Some [OF inv, of k p] f(1) by (auto simp: maps_to_def page_tag_defs)
  then show "\<not> maps_to p (umap s k)" .
  have "uses s p = 0" using nm by (simp add: uses_def)
  have "vm_inv g (x(p := r)) s' \<and> umap s' = umap s"
  proof (rule vm_inv_cong [OF inv s'(1)])
    show "debug_tag s' (kernel_pgdir g) = PAGE_TAG_KERNEL_VM"
      using inv f(1) by (auto simp: s'(2) vm_inv_def page_tag_defs)
    show "\<forall>p. (debug_tag s' p = PAGE_TAG_VM) = (debug_tag s p = PAGE_TAG_VM)"
      using s'(2,3) f(1) by (auto simp: page_tag_defs)
    show "\<forall>a. a div PAGE_SIZE \<in> tframes s \<longrightarrow> phys s' a = phys s a" using s'(5) np by auto
    show "\<forall>p. p \<in> tframes s \<longrightarrow> debug_tag s' p = debug_tag s p \<and> ref_count s' p = ref_count s p"
      using np by (auto simp: s'(2,4))
    show "\<forall>k f fl. umap s k = Some (f, fl) \<longrightarrow> debug_tag s' f = PAGE_TAG_ANON"
      using nm umap_Some [OF inv] by (metis fun_upd_other maps_to_def s'(2))
    show "\<forall>f. debug_tag s' f = PAGE_TAG_ANON \<longrightarrow>
        f < page_count g \<and> 0 \<le> (x(p := r)) f \<and> ref_count s' f = uses s f + (x(p := r)) f"
      using inv p(2) s'(6) \<open>uses s p = 0\<close> by (auto simp: s'(2,4) vm_inv_def refs_ok_def)
  qed
  then show "vm_inv g (x(p := r)) s'" "umap s' = umap s" by blast+
qed

lemma vm_inv_x: "vm_inv g x s \<Longrightarrow> \<forall>f. debug_tag s f = PAGE_TAG_ANON \<longrightarrow> x' f = x f \<Longrightarrow> vm_inv g x' s"
  by (simp add: vm_inv_def refs_ok_def)

subsection \<open>Finding entries\<close>

lemma user_idx:
  assumes "va < VIRT_KERNEL_BASE"
  shows "PGDIR_IDX va = va div PAGE_SIZE div 1024" "PGTAB_IDX va = va div PAGE_SIZE mod 1024"
    "va div PAGE_SIZE div 1024 < USER_PDES" "va div PAGE_SIZE < USER_PAGES"
proof -
  have "va div 4194304 < 512" using assms by (simp add: VIRT_KERNEL_BASE_def div_less_iff_less_mult)
  then show "PGDIR_IDX va = va div PAGE_SIZE div 1024" "va div PAGE_SIZE div 1024 < USER_PDES"
    by (simp_all add: PGDIR_IDX_def PAGE_SIZE_def USER_PDES_def div_mult2_eq [symmetric])
  show "PGTAB_IDX va = va div PAGE_SIZE mod 1024" by (simp add: PGTAB_IDX_def PAGE_SIZE_def)
  show "va div PAGE_SIZE < USER_PAGES"
    using assms by (simp add: VIRT_KERNEL_BASE_def PAGE_SIZE_def USER_PAGES_def div_less_iff_less_mult)
qed

definition pte_ptr :: "nat \<Rightarrow> nat \<Rightarrow> nat" where
  "pte_ptr q vpn = q * PAGE_SIZE + 4 * (vpn mod 1024)"

lemma pa2kva_page: "vm_inv g x s \<Longrightarrow> q < page_count g \<Longrightarrow> pa2kva (q * PAGE_SIZE) = Some (q * PAGE_SIZE)"
  by (auto simp: vm_inv_def pa2kva_def VIRT_KERNEL_BASE_def PHYS_LIMIT_def PAGE_SIZE_def)

lemma pte_bit_tests: "w AND PTE_P = 0 \<longleftrightarrow> \<not> bit w 0" "w AND PDE_PS = 0 \<longleftrightarrow> \<not> bit w 7"
  using and_push_bit_neq_0 [of w 0] and_push_bit_neq_0 [of w 7] unfolding PTE_P_def PDE_PS_def by blast+

lemma arch_vm_lookup_present:
  assumes inv: "vm_inv g x s" and pd: "debug_tag s pd = PAGE_TAG_VM" and va: "va < VIRT_KERNEL_BASE"
    and q: "table s pd (va div PAGE_SIZE div 1024) = Some q"
  shows "arch_vm_lookup g pd va alloc s = Some (Some (pte_ptr q (va div PAGE_SIZE)), s)"
proof -
  note t = table_Some [OF inv pd user_idx(3) [OF va] q]
  note m = mk_pde_simps [OF vm_inv_N [OF inv t(1)]]
  have "load32 (phys s) (pd * PAGE_SIZE + 4 * (va div PAGE_SIZE div 1024)) = mk_pde q" using t(2) by (simp add: pde_at_def)
  moreover have "pd \<noteq> kernel_pgdir g" using inv pd by (auto simp: vm_inv_def page_tag_defs)
  ultimately show ?thesis
    using va m pa2kva_page [OF inv t(1)]
    by (simp add: arch_vm_lookup_def user_idx [OF va] pte_bit_tests pte_ptr_def Let_def)
qed

lemma arch_vm_lookup_absent:
  assumes inv: "vm_inv g x s" and pd: "debug_tag s pd = PAGE_TAG_VM" and va: "va < VIRT_KERNEL_BASE"
    and q: "table s pd (va div PAGE_SIZE div 1024) = None"
  shows "arch_vm_lookup g pd va False s = Some (None, s)"
proof -
  have "load32 (phys s) (pd * PAGE_SIZE + 4 * (va div PAGE_SIZE div 1024)) = 0"
    using table_None [OF inv pd user_idx(3) [OF va] q] by (simp add: pde_at_def)
  moreover have "pd \<noteq> kernel_pgdir g" using inv pd by (auto simp: vm_inv_def page_tag_defs)
  ultimately show ?thesis using va by (simp add: arch_vm_lookup_def user_idx [OF va])
qed

text \<open>Entering a cleared table into a directory.\<close>

lemma pde_store:
  assumes inv: "vm_inv g x s" and pd: "debug_tag s pd = PAGE_TAG_VM" and i: "i < USER_PDES" and none: "table s pd i = None"
    and q: "q < page_count g" "debug_tag s q = PAGE_TAG_PGTAB" "ref_count s q = 1" "q \<notin> tframes s"
    and zero: "\<forall>a. a div PAGE_SIZE = q \<longrightarrow> phys s a = 0"
  defines "s' \<equiv> s\<lparr>phys := store32 (pd * PAGE_SIZE + 4 * i) (mk_pde q) (phys s)\<rparr>"
  shows "vm_inv g x s'" "umap s' = umap s" "table s' pd i = Some q"
    "\<And>p j. j < USER_PDES \<Longrightarrow> table s p j \<noteq> None \<Longrightarrow> table s' p j = table s p j"
proof -
  have st: "ref_count s' = ref_count s" "debug_tag s' = debug_tag s" "ukeys s' = ukeys s" by (simp_all add: s'_def ukeys_def)
  have i1024: "i < 1024" using i by (simp add: USER_PDES_def)
  note m = mk_pde_simps [OF vm_inv_N [OF inv q(1)]]
  have pde: "pde_at s' p j = (if p = pd \<and> j = i then mk_pde q else pde_at s p j)" if "j < USER_PDES" for p j
    unfolding pde_at_def using that i1024 by (simp add: s'_def load32_store32_frame USER_PDES_def)
  have tab: "table s' p j = (if p = pd \<and> j = i then Some q else table s p j)" if "j < USER_PDES" for p j
    unfolding table_def pde [OF that, of p] using m by (simp add: PAGE_SIZE_def)
  then show "table s' pd i = Some q" "\<And>p j. j < USER_PDES \<Longrightarrow> table s p j \<noteq> None \<Longrightarrow> table s' p j = table s p j"
    using i none by auto
  have ent: "entry s' k = entry s k" if k: "k \<in> ukeys s" for k
  proof (cases k)
    case (Pair p vpn)
    with k have j: "debug_tag s p = PAGE_TAG_VM" "vpn div 1024 < USER_PDES" using ukeys_idx by auto
    have ph: "load32 (phys s') (q' * PAGE_SIZE + 4 * (vpn mod 1024)) = load32 (phys s) (q' * PAGE_SIZE + 4 * (vpn mod 1024))"
      if "debug_tag s q' = PAGE_TAG_PGTAB" for q'
      using that pd i1024 by (auto simp: s'_def load32_store32_frame page_tag_defs)
    show ?thesis
    proof (cases "p = pd \<and> vpn div 1024 = i")
      case True
      have "load32 (phys s) (q * PAGE_SIZE + 4 * (vpn mod 1024)) = 0"
        using zero frame_div by (intro load32_zero) auto
      with True none tab [OF j(2)] ph [OF q(2)] Pair show ?thesis by (simp add: entry_def)
    next
      case False
      with tab [OF j(2)] ph table_Some(3) [OF inv j] Pair show ?thesis by (auto simp: entry_def split: option.splits)
    qed
  qed
  show um: "umap s' = umap s" by (rule ext) (simp add: umap_def st ent cong: conj_cong if_cong)
  have "dirs_ok (page_count g) s'"
    unfolding dirs_ok_def st
  proof (intro allI impI)
    fix p j assume "debug_tag s p = PAGE_TAG_VM"
    then have "p < page_count g \<and> ref_count s p = 1 \<and> (j < USER_PDES \<longrightarrow> pde_at s p j = 0 \<or>
        (\<exists>q<page_count g. pde_at s p j = mk_pde q \<and> debug_tag s q = PAGE_TAG_PGTAB \<and> ref_count s q = 1))"
      using inv by (simp add: vm_inv_def dirs_ok_def)
    then show "p < page_count g \<and> ref_count s p = 1 \<and> (j < USER_PDES \<longrightarrow> pde_at s' p j = 0 \<or>
        (\<exists>q<page_count g. pde_at s' p j = mk_pde q \<and> debug_tag s q = PAGE_TAG_PGTAB \<and> ref_count s q = 1))"
      using q(1-3) pde [of j p] by (cases "p = pd \<and> j = i") auto
  qed
  moreover have "tables_distinct s'"
    unfolding tables_distinct_def st
  proof (intro allI impI, elim conjE)
    fix p j p' j' r assume a: "debug_tag s p = PAGE_TAG_VM" "debug_tag s p' = PAGE_TAG_VM" "j < USER_PDES" "j' < USER_PDES"
      "table s' p j = Some r" "table s' p' j' = Some r"
    have "table s p j \<noteq> Some q" "table s p' j' \<noteq> Some q" using q(4) a(1-4) by (auto simp: tframes_def)
    moreover have "p = p' \<and> j = j'" if "table s p j = Some r" "table s p' j' = Some r"
      using a(1-4) that inv unfolding vm_inv_def tables_distinct_def by blast
    ultimately show "p = p' \<and> j = j'"
      using a(5,6) tab [OF a(3), of p] tab [OF a(4), of p'] by (auto split: if_splits)
  qed
  moreover have "entries_ok (page_count g) s'" using inv by (simp add: vm_inv_def entries_ok_def st ent)
  moreover have "refs_ok (page_count g) x s'" using inv by (simp add: vm_inv_def refs_ok_def st uses_def um)
  ultimately show "vm_inv g x s'" using inv by (simp add: vm_inv_def st) (simp add: s'_def page_inv_phys)
qed

lemma arch_vm_lookup_alloc:
  assumes inv: "vm_inv g x s" and pd: "debug_tag s pd = PAGE_TAG_VM" and va: "va < VIRT_KERNEL_BASE"
    and q: "table s pd (va div PAGE_SIZE div 1024) = None" and free: "free_pages s \<noteq> {}"
  obtains q s' where "arch_vm_lookup g pd va True s = Some (Some (pte_ptr q (va div PAGE_SIZE)), s')" "vm_inv g x s'"
    "table s' pd (va div PAGE_SIZE div 1024) = Some q" "umap s' = umap s" "q \<in> free_pages s" "free_pages s' = free_pages s - {q}"
    "debug_tag s' = (debug_tag s)(q := PAGE_TAG_PGTAB)" "ref_count s' = (ref_count s)(q := 1)"
    "\<forall>a. a div PAGE_SIZE \<notin> {pd, q} \<longrightarrow> phys s' a = phys s a"
    "\<forall>p i. debug_tag s p = PAGE_TAG_VM \<and> i < USER_PDES \<and> table s p i \<noteq> None \<longrightarrow> table s' p i = table s p i"
proof -
  let ?i = "va div PAGE_SIZE div 1024"
  have i: "?i < USER_PDES" by (rule user_idx(3) [OF va])
  have pi: "page_inv (page_count g) s" using inv by (simp add: vm_inv_def)
  obtain q s1 where s1: "page_alloc_one True PAGE_TAG_PGTAB s = Some (q, s1)" "page_inv (page_count g) s1" "q \<in> free_pages s"
      "q < page_count g" "free_pages s1 = free_pages s - {q}" "debug_tag s1 = (debug_tag s)(q := PAGE_TAG_PGTAB)"
      "ref_count s1 = ref_count s" "phys s1 = (\<lambda>a. if a div PAGE_SIZE = q then 0 else phys s a)"
    by (rule page_alloc_one_ok [OF pi free, of True PAGE_TAG_PGTAB]) simp
  note fq = vm_inv_free [OF inv s1(3)]
  define s2 where "s2 = page_inc_ref q s1"
  have s2: "page_inv (page_count g) s2" "free_pages s2 = free_pages s1" "debug_tag s2 = debug_tag s1" "phys s2 = phys s1"
      "ref_count s2 = (ref_count s)(q := 1)"
    using page_inv_ref [OF s1(2), of "(ref_count s1)(q := ref_count s1 q + 1)"] s1(5,7) fq(2) pi
    by (auto simp: s2_def page_inc_ref_def page_inv_def unused_def)
  have inv2: "vm_inv g (x(q := 1)) s2" "umap s2 = umap s" "q \<notin> tframes s"
    using vm_inv_fresh [OF inv s1(3,4) s2(1), of PAGE_TAG_PGTAB 1] s1(6,8) s2(3,4,5) by auto
  have tags: "\<forall>p. (debug_tag s2 p = PAGE_TAG_VM) = (debug_tag s p = PAGE_TAG_VM)"
    using fq(1) by (auto simp: s2(3) s1(6) page_tag_defs)
  have tab: "table s2 p j = table s p j" if "debug_tag s p = PAGE_TAG_VM" "j < USER_PDES" for p j
    using that inv2(3) s1(8) s2(4) by (intro tables_cong(3) [OF inv tags]) auto
  have pd2: "debug_tag s2 pd = PAGE_TAG_VM" using tags pd by simp
  have nq: "q \<notin> tframes s2"
    using inv2(3) tab tags s1(6) s2(3) by (auto simp: tframes_def page_tag_defs)
  have q2: "debug_tag s2 q = PAGE_TAG_PGTAB" "ref_count s2 q = 1" "\<forall>a. a div PAGE_SIZE = q \<longrightarrow> phys s2 a = 0"
    using s1(6,8) s2(3,4,5) by simp_all
  have t2: "table s2 pd ?i = None" using tab [OF pd i] q by simp
  define s' where "s' = s2\<lparr>phys := store32 (pd * PAGE_SIZE + 4 * ?i) (mk_pde q) (phys s2)\<rparr>"
  note p = pde_store [OF inv2(1) pd2 i t2 s1(4) q2(1,2) nq q2(3), folded s'_def, unfolded inv2(2)]
  have s': "debug_tag s' = (debug_tag s)(q := PAGE_TAG_PGTAB)" "ref_count s' = (ref_count s)(q := 1)"
      "free_pages s' = free_pages s - {q}"
    using s1(5,6) s2(2,3,5) by (simp_all add: s'_def page_inv_phys)
  have "load32 (phys s) (pd * PAGE_SIZE + 4 * ?i) = 0" using table_None [OF inv pd i q] by (simp add: pde_at_def)
  moreover have "page2pa (page_count g) q = Some (q * PAGE_SIZE)" using s1(4) by (simp add: page2pa_def)
  moreover have "pd \<noteq> kernel_pgdir g" using inv pd by (auto simp: vm_inv_def page_tag_defs)
  moreover have "pa2kva (unat (PTE_BASE (mk_pde q))) = Some (q * PAGE_SIZE)"
    using pa2kva_page [OF inv s1(4)] mk_pde_simps(1) [OF vm_inv_N [OF inv s1(4)]] by simp
  ultimately have "arch_vm_lookup g pd va True s = Some (Some (pte_ptr q (va div PAGE_SIZE)), s')"
    using va s1(1) unfolding arch_vm_lookup_def user_idx [OF va]
    by (simp add: s2_def [symmetric] mk_pde_def [symmetric] pte_ptr_def s'_def del: of_nat_mult)
  moreover have "vm_inv g x s'"
    using p(1) by (rule vm_inv_x) (auto simp: s'(1) page_tag_defs)
  moreover have "phys s' a = phys s a" if "a div PAGE_SIZE \<notin> {pd, q}" for a
    using that i store32_frame [of ?i a pd] by (simp add: s'_def s2(4) s1(8) USER_PDES_def)
  moreover have "\<forall>p i. debug_tag s p = PAGE_TAG_VM \<and> i < USER_PDES \<and> table s p i \<noteq> None \<longrightarrow> table s' p i = table s p i"
    using p(4) tab by simp
  ultimately show thesis using that [of q s'] p(2,3) s1(3) s' by blast
qed

end
