(* ===== verification/Vm.thy ===== *)
theory Vm
  imports Page_Table
begin

section \<open>Address spaces\<close>

text \<open>
  Models \<open>kernel/mm/vm.c\<close>: mapping, unmapping and copying pages of user address spaces, with
  copy-on-write.  The functions run under \<open>vm_lock\<close>, one critical section at a time; a loop over
  pages takes the lock for each page, and the model runs the rounds of one call without
  interruption.  Addresses and sizes are numbers below \<open>2 ^ 32\<close>; sums wrap around where the code
  lets them.  Bytes in kernel buffers are lists.  \<open>None\<close> is a panic.
\<close>

unbundle bit_operations_syntax

subsection \<open>Single pages\<close>

definition vm_page_lookup :: "vm_globals \<Rightarrow> nat \<Rightarrow> nat \<Rightarrow> page_state \<Rightarrow> (nat \<times> u32) option option" where
  "vm_page_lookup g pgtab va s = do {
     (pte, _) \<leftarrow> arch_vm_lookup g pgtab va False s;
     case pte of
       None \<Rightarrow> Some None
     | Some pte \<Rightarrow>
         if \<not> arch_vm_pte_valid pte s \<or> arch_vm_pte_flags pte s AND VM_PAGE = 0 then Some None
         else do {
           page \<leftarrow> pa2page (page_count g) (arch_vm_pte_addr pte s);
           page_assert page 0 PAGE_TAG_ANON s;
           Some (Some (page, arch_vm_pte_flags pte s))
         }
   }"

definition vm_page_remove :: "vm_globals \<Rightarrow> nat \<Rightarrow> nat \<Rightarrow> page_state \<Rightarrow> page_state option" where
  "vm_page_remove g pgtab va s = do {
     (pte, _) \<leftarrow> arch_vm_lookup g pgtab va False s;
     case pte of
       None \<Rightarrow> Some s
     | Some pte \<Rightarrow>
         if \<not> arch_vm_pte_valid pte s \<or> arch_vm_pte_flags pte s AND VM_PAGE = 0 then Some s
         else do {
           page \<leftarrow> pa2page (page_count g) (arch_vm_pte_addr pte s);
           page_assert page 0 PAGE_TAG_ANON s;
           let s = s\<lparr>ref_count := (ref_count s)(page := ref_count s page - 1)\<rparr>;
           s \<leftarrow> (if ref_count s page = 0 then page_free_one page s else Some s);
           Some (arch_vm_pte_clear pte s)
         }
   }"

definition vm_page_insert :: "vm_globals \<Rightarrow> nat \<Rightarrow> nat \<Rightarrow> nat \<Rightarrow> u32 \<Rightarrow> page_state \<Rightarrow> (int \<times> page_state) option" where
  "vm_page_insert g pgtab page va flags s = do {
     (pte, s) \<leftarrow> arch_vm_lookup g pgtab va True s;
     case pte of
       None \<Rightarrow> Some (- ENOMEM, s)
     | Some pte \<Rightarrow> do {
         let s = page_inc_ref page s;
         s \<leftarrow> vm_page_remove g pgtab va s;
         pa \<leftarrow> page2pa (page_count g) page;
         Some (0, arch_vm_pte_set pte pa (flags OR VM_PAGE) s)
       }
   }"

definition vm_page_cow :: "vm_globals \<Rightarrow> nat \<Rightarrow> nat \<Rightarrow> nat \<Rightarrow> u32 \<Rightarrow> page_state \<Rightarrow> (nat option \<times> page_state) option" where
  "vm_page_cow g pgtab va page flags s = do {
     k_assert (flags AND VM_COW \<noteq> 0);
     let flags = (flags AND NOT VM_COW) OR VM_WRITE;
     if ref_count s page = 1
     then do {
       (r, s) \<leftarrow> vm_page_insert g pgtab page va flags s;
       Some (if r < 0 then None else Some page, s)
     }
     else do {
       (page_copy, s) \<leftarrow> page_alloc_one True PAGE_TAG_ANON s;
       dst \<leftarrow> page2kva g page_copy;
       src \<leftarrow> page2kva g page;
       let s = s\<lparr>phys := memmove dst src PAGE_SIZE (phys s)\<rparr>;
       (r, s) \<leftarrow> vm_page_insert g pgtab page_copy va flags s;
       if r < 0 then do { s \<leftarrow> page_free_one page_copy s; Some (None, s) } else Some (Some page_copy, s)
     }
   }"

text \<open>The result is an error code, or the page with the flags of the mapping before it was made writable.\<close>

definition vm_page_lookup_cow :: "vm_globals \<Rightarrow> nat \<Rightarrow> nat \<Rightarrow> page_state \<Rightarrow> ((int + nat \<times> u32) \<times> page_state) option" where
  "vm_page_lookup_cow g pgtab va s = do {
     m \<leftarrow> vm_page_lookup g pgtab va s;
     case m of
       None \<Rightarrow> Some (Inl (- EFAULT), s)
     | Some (page, flags) \<Rightarrow>
         if flags AND VM_COW \<noteq> 0 then do {
           (p, s) \<leftarrow> vm_page_cow g pgtab va page flags s;
           case p of None \<Rightarrow> Some (Inl (- ENOMEM), s) | Some page \<Rightarrow> Some (Inr (page, flags), s)
         } else Some (Inr (page, flags), s)
   }"

subsection \<open>Copying\<close>

definition round_up_page :: "nat \<Rightarrow> nat" where "round_up_page x = wrap32 (x + PAGE_SIZE - 1) div PAGE_SIZE * PAGE_SIZE"

definition vm_user_assert :: "nat \<Rightarrow> nat \<Rightarrow> unit option" where
  "vm_user_assert start_va end_va = k_assert (\<not> (start_va \<ge> VIRT_KERNEL_BASE \<or> end_va < start_va))"

definition vm_user_assert_pages :: "nat \<Rightarrow> nat \<Rightarrow> unit option" where
  "vm_user_assert_pages start_va end_va = do {
     k_assert (start_va mod PAGE_SIZE = 0);
     k_assert (\<not> (start_va \<ge> VIRT_KERNEL_BASE \<or> end_va < start_va))
   }"

definition chunk :: "nat \<Rightarrow> nat \<Rightarrow> nat" where
  "chunk va n = min (PAGE_SIZE - va mod PAGE_SIZE) n"

lemma chunk_pos: "n \<noteq> 0 \<Longrightarrow> 0 < chunk va n" "chunk va n \<le> n"
  by (simp_all add: chunk_def PAGE_SIZE_def)

function vm_clear_loop :: "vm_globals \<Rightarrow> nat \<Rightarrow> nat \<Rightarrow> nat \<Rightarrow> page_state \<Rightarrow> (int \<times> page_state) option" where
  "vm_clear_loop g pgtab dst_va n s =
     (if n = 0 then Some (0, s)
      else do {
        let offset = dst_va mod PAGE_SIZE;
        let ncopy = chunk dst_va n;
        (r, s) \<leftarrow> vm_page_lookup_cow g pgtab dst_va s;
        case r of
          Inl e \<Rightarrow> Some (e, s)
        | Inr (page, _) \<Rightarrow> do {
            kva \<leftarrow> page2kva g page;
            vm_clear_loop g pgtab (dst_va + ncopy) (n - ncopy) (s\<lparr>phys := memset (kva + offset) 0 ncopy (phys s)\<rparr>)
          }
      })"
  by pat_completeness auto
termination
  by (relation "measure (\<lambda>(g, pgtab, va, n, s). n)") (use chunk_pos in auto)

definition vm_clear :: "vm_globals \<Rightarrow> nat \<Rightarrow> nat \<Rightarrow> nat \<Rightarrow> page_state \<Rightarrow> (int \<times> page_state) option" where
  "vm_clear g pgtab dst_va n s = do {
     vm_user_assert dst_va (wrap32 (dst_va + n));
     vm_clear_loop g pgtab dst_va n s
   }"

function vm_copy_out_loop :: "vm_globals \<Rightarrow> nat \<Rightarrow> u8 list \<Rightarrow> nat \<Rightarrow> page_state \<Rightarrow> (int \<times> page_state) option" where
  "vm_copy_out_loop g pgtab src dst_va s =
     (if src = [] then Some (0, s)
      else do {
        let offset = dst_va mod PAGE_SIZE;
        let ncopy = chunk dst_va (length src);
        (r, s) \<leftarrow> vm_page_lookup_cow g pgtab dst_va s;
        case r of
          Inl e \<Rightarrow> Some (e, s)
        | Inr (page, _) \<Rightarrow> do {
            kva \<leftarrow> page2kva g page;
            vm_copy_out_loop g pgtab (drop ncopy src) (dst_va + ncopy)
              (s\<lparr>phys := put_bytes (kva + offset) (take ncopy src) (phys s)\<rparr>)
          }
      })"
  by pat_completeness auto
termination
  by (relation "measure (\<lambda>(g, pgtab, src, va, s). length src)") (auto simp: chunk_def PAGE_SIZE_def)

definition vm_copy_out :: "vm_globals \<Rightarrow> nat \<Rightarrow> u8 list \<Rightarrow> nat \<Rightarrow> page_state \<Rightarrow> (int \<times> page_state) option" where
  "vm_copy_out g pgtab src dst_va s = do {
     vm_user_assert dst_va (wrap32 (dst_va + length src));
     vm_copy_out_loop g pgtab src dst_va s
   }"

text \<open>The result of copying in is the code and what has been written to the buffer.\<close>

function vm_copy_in_loop :: "vm_globals \<Rightarrow> nat \<Rightarrow> nat \<Rightarrow> nat \<Rightarrow> u8 list \<Rightarrow> page_state \<Rightarrow> (int \<times> u8 list) option" where
  "vm_copy_in_loop g pgtab src_va n dst s =
     (if n = 0 then Some (0, dst)
      else do {
        let offset = src_va mod PAGE_SIZE;
        let ncopy = chunk src_va n;
        m \<leftarrow> vm_page_lookup g pgtab src_va s;
        case m of
          None \<Rightarrow> Some (- EFAULT, dst)
        | Some (page, _) \<Rightarrow> do {
            kva \<leftarrow> page2kva g page;
            vm_copy_in_loop g pgtab (src_va + ncopy) (n - ncopy) (dst @ get_bytes (kva + offset) ncopy (phys s)) s
          }
      })"
  by pat_completeness auto
termination
  by (relation "measure (\<lambda>(g, pgtab, va, n, dst, s). n)") (use chunk_pos in auto)

definition vm_copy_in :: "vm_globals \<Rightarrow> nat \<Rightarrow> nat \<Rightarrow> nat \<Rightarrow> page_state \<Rightarrow> (int \<times> u8 list) option" where
  "vm_copy_in g pgtab src_va n s = do {
     vm_user_assert src_va (wrap32 (src_va + n));
     vm_copy_in_loop g pgtab src_va n [] s
   }"

declare vm_clear_loop.simps [simp del] vm_copy_out_loop.simps [simp del] vm_copy_in_loop.simps [simp del]

subsection \<open>Ranges of pages\<close>

text \<open>The addresses a loop from \<open>start\<close> to \<open>limit\<close> in steps of a page visits.\<close>

definition va_range :: "nat \<Rightarrow> nat \<Rightarrow> nat list" where
  "va_range start limit = map (\<lambda>i. start + i * PAGE_SIZE) [0..<(limit - start + PAGE_SIZE - 1) div PAGE_SIZE]"

fun vm_user_free_loop :: "vm_globals \<Rightarrow> nat \<Rightarrow> nat list \<Rightarrow> page_state \<Rightarrow> page_state option" where
  "vm_user_free_loop g vm [] s = Some s"
| "vm_user_free_loop g vm (va # vas) s = do {
     s \<leftarrow> vm_page_remove g vm va s;
     vm_user_free_loop g vm vas s
   }"

definition vm_user_free :: "vm_globals \<Rightarrow> nat \<Rightarrow> nat \<Rightarrow> nat \<Rightarrow> page_state \<Rightarrow> page_state option" where
  "vm_user_free g vm start_va n s = do {
     let end_va = round_up_page (wrap32 (start_va + n));
     vm_user_assert_pages start_va end_va;
     vm_user_free_loop g vm (va_range start_va end_va) s
   }"

text \<open>The result of a failed insertion is that of a comparison, 1.\<close>

fun vm_user_alloc_loop ::
  "vm_globals \<Rightarrow> nat \<Rightarrow> nat \<Rightarrow> u32 \<Rightarrow> nat list \<Rightarrow> page_state \<Rightarrow> (int \<times> page_state) option" where
  "vm_user_alloc_loop g vm start_va flags [] s = Some (0, s)"
| "vm_user_alloc_loop g vm start_va flags (va # vas) s = do {
     (page, s) \<leftarrow> page_alloc_one True PAGE_TAG_ANON s;
     (r, s) \<leftarrow> vm_page_insert g vm page va flags s;
     if r \<noteq> 0 then do {
       s \<leftarrow> page_free_one page s;
       s \<leftarrow> vm_user_free g vm start_va (va - start_va) s;
       Some (1, s)
     }
     else vm_user_alloc_loop g vm start_va flags vas s
   }"

definition vm_user_alloc :: "vm_globals \<Rightarrow> nat \<Rightarrow> nat \<Rightarrow> nat \<Rightarrow> u32 \<Rightarrow> page_state \<Rightarrow> (int \<times> page_state) option" where
  "vm_user_alloc g vm start_va n flags s = do {
     let end_va = round_up_page (wrap32 (start_va + n));
     vm_user_assert_pages start_va end_va;
     vm_user_alloc_loop g vm start_va flags (va_range start_va end_va) s
   }"

fun vm_user_clone_loop ::
  "vm_globals \<Rightarrow> nat \<Rightarrow> nat \<Rightarrow> bool \<Rightarrow> nat list \<Rightarrow> page_state \<Rightarrow> (int \<times> page_state) option" where
  "vm_user_clone_loop g src dst share [] s = Some (0, s)"
| "vm_user_clone_loop g src dst share (va # vas) s = do {
     (r, s) \<leftarrow> (if share then vm_page_lookup_cow g src va s
       else do {
         m \<leftarrow> vm_page_lookup g src va s;
         case m of
           None \<Rightarrow> Some (Inl (- EFAULT), s)
         | Some (page, flags) \<Rightarrow>
             if flags AND VM_WRITE \<noteq> 0 then do {
               let flags = (flags AND NOT VM_WRITE) OR VM_COW;
               (r, s) \<leftarrow> vm_page_insert g src page va flags s;
               Some (if r < 0 then Inl r else Inr (page, flags), s)
             } else Some (Inr (page, flags), s)
       });
     case r of
       Inl e \<Rightarrow> Some (e, s)
     | Inr (page, flags) \<Rightarrow> do {
         (r, s) \<leftarrow> vm_page_insert g dst page va flags s;
         if r < 0 then Some (r, s) else vm_user_clone_loop g src dst share vas s
       }
   }"

definition vm_user_clone ::
  "vm_globals \<Rightarrow> nat \<Rightarrow> nat \<Rightarrow> nat \<Rightarrow> nat \<Rightarrow> bool \<Rightarrow> page_state \<Rightarrow> (int \<times> page_state) option" where
  "vm_user_clone g src dst start_va n share s = do {
     let end_va = round_up_page (wrap32 (start_va + n));
     vm_user_assert_pages start_va end_va;
     vm_user_clone_loop g src dst share (va_range start_va end_va) s
   }"

subsection \<open>Checks and faults\<close>

definition vm_flags_check :: "u32 \<Rightarrow> u32 \<Rightarrow> bool" where
  "vm_flags_check curr_flags flags \<longleftrightarrow>
     (let curr_flags = (if curr_flags AND VM_COW \<noteq> 0 then (curr_flags AND NOT VM_COW) OR VM_WRITE else curr_flags)
      in curr_flags AND flags = flags)"

definition vm_user_check_ptr :: "vm_globals \<Rightarrow> nat \<Rightarrow> nat \<Rightarrow> u32 \<Rightarrow> page_state \<Rightarrow> int option" where
  "vm_user_check_ptr g pgtab va flags s =
     (if va \<ge> VIRT_KERNEL_BASE then Some (- EFAULT)
      else do {
        m \<leftarrow> vm_page_lookup g pgtab va s;
        case m of
          None \<Rightarrow> Some (- EFAULT)
        | Some (_, curr_flags) \<Rightarrow> Some (if vm_flags_check curr_flags flags then 0 else - EFAULT)
      })"

text \<open>The code and the length of the string.\<close>

function vm_user_check_str_loop ::
  "vm_globals \<Rightarrow> nat \<Rightarrow> nat \<Rightarrow> nat \<Rightarrow> u32 \<Rightarrow> page_state \<Rightarrow> (int \<times> nat option) option" where
  "vm_user_check_str_loop g vm va len flags s =
     (if va < VIRT_KERNEL_BASE then do {
        m \<leftarrow> vm_page_lookup g vm va s;
        case m of
          None \<Rightarrow> Some (- EFAULT, None)
        | Some (page, curr_flags) \<Rightarrow>
            if \<not> vm_flags_check curr_flags flags then Some (- EFAULT, None)
            else do {
              p \<leftarrow> page2kva g page;
              let start = va mod PAGE_SIZE;
              case List.find (\<lambda>off. phys s (p + off) = 0) [start..<PAGE_SIZE] of
                Some off \<Rightarrow> Some (0, Some (len + (off - start)))
              | None \<Rightarrow> vm_user_check_str_loop g vm (va + (PAGE_SIZE - start)) (len + (PAGE_SIZE - start)) flags s
            }
      } else Some (- EFAULT, None))"
  by pat_completeness auto
termination
  by (relation "measure (\<lambda>(g, vm, va, len, flags, s). VIRT_KERNEL_BASE - va)") (auto simp: PAGE_SIZE_def intro!: diff_less_mono2)

definition vm_user_check_str :: "vm_globals \<Rightarrow> nat \<Rightarrow> nat \<Rightarrow> u32 \<Rightarrow> page_state \<Rightarrow> (int \<times> nat option) option" where
  "vm_user_check_str g vm va flags s = vm_user_check_str_loop g vm va 0 flags s"

function vm_user_check_args_loop ::
  "vm_globals \<Rightarrow> nat \<Rightarrow> nat \<Rightarrow> nat \<Rightarrow> u32 \<Rightarrow> page_state \<Rightarrow> (int \<times> nat option) option" where
  "vm_user_check_args_loop g vm va len flags s =
     (if va < VIRT_KERNEL_BASE then do {
        m \<leftarrow> vm_page_lookup g vm va s;
        case m of
          None \<Rightarrow> Some (- EFAULT, None)
        | Some (page, curr_flags) \<Rightarrow>
            if \<not> vm_flags_check curr_flags flags then Some (- EFAULT, None)
            else do {
              p \<leftarrow> page2kva g page;
              let start = va mod PAGE_SIZE div 4;
              case List.find (\<lambda>off. load32 (phys s) (p + 4 * off) = 0) [start..<PAGE_SIZE div 4] of
                Some off \<Rightarrow> Some (0, Some (len + (off - start)))
              | None \<Rightarrow> vm_user_check_args_loop g vm (va + 4 * (PAGE_SIZE div 4 - start)) (len + (PAGE_SIZE div 4 - start)) flags s
            }
      } else Some (- EFAULT, None))"
  by pat_completeness auto
termination
proof (relation "measure (\<lambda>(g, vm, va, len, flags, s). VIRT_KERNEL_BASE - va)", goal_cases)
  case (2 g vm va len flags s m a curr x start)
  have "va mod PAGE_SIZE div 4 < PAGE_SIZE div 4" by (simp add: PAGE_SIZE_def)
  with 2 show ?case by (auto intro!: diff_less_mono2)
qed simp

definition vm_user_check_args :: "vm_globals \<Rightarrow> nat \<Rightarrow> nat \<Rightarrow> u32 \<Rightarrow> page_state \<Rightarrow> (int \<times> nat option) option" where
  "vm_user_check_args g vm va flags s =
     (if va mod 4 \<noteq> 0 then Some (- EFAULT, None) else vm_user_check_args_loop g vm va 0 flags s)"

fun vm_user_check_buf_loop :: "vm_globals \<Rightarrow> nat \<Rightarrow> u32 \<Rightarrow> nat list \<Rightarrow> page_state \<Rightarrow> (int \<times> page_state) option" where
  "vm_user_check_buf_loop g pgtab flags [] s = Some (0, s)"
| "vm_user_check_buf_loop g pgtab flags (va # vas) s = do {
     (r, s) \<leftarrow> vm_page_lookup_cow g pgtab va s;
     case r of
       Inl e \<Rightarrow> Some (e, s)
     | Inr (_, curr_flags) \<Rightarrow>
         if \<not> vm_flags_check curr_flags flags then Some (- EFAULT, s)
         else vm_user_check_buf_loop g pgtab flags vas s
   }"

definition vm_user_check_buf :: "vm_globals \<Rightarrow> nat \<Rightarrow> nat \<Rightarrow> nat \<Rightarrow> u32 \<Rightarrow> page_state \<Rightarrow> (int \<times> page_state) option" where
  "vm_user_check_buf g pgtab start_va n flags s =
     (let end_va = round_up_page (wrap32 (start_va + n))
      in if start_va \<ge> VIRT_KERNEL_BASE \<or> end_va < start_va then Some (- EFAULT, s)
         else vm_user_check_buf_loop g pgtab flags (va_range start_va end_va) s)"

definition vm_handle_fault :: "vm_globals \<Rightarrow> nat \<Rightarrow> nat \<Rightarrow> page_state \<Rightarrow> (int \<times> page_state) option" where
  "vm_handle_fault g pgtab va s =
     (if va < PAGE_SIZE \<or> va \<ge> VIRT_KERNEL_BASE then Some (- EFAULT, s)
      else do {
        m \<leftarrow> vm_page_lookup g pgtab va s;
        case m of
          None \<Rightarrow> Some (- EFAULT, s)
        | Some (fault_page, flags) \<Rightarrow>
            if flags AND VM_COW = 0 then Some (- EFAULT, s)
            else do {
              (p, s) \<leftarrow> vm_page_cow g pgtab va fault_page flags s;
              Some (if p = None then - ENOMEM else 0, s)
            }
      })"

declare vm_user_check_str_loop.simps [simp del] vm_user_check_args_loop.simps [simp del]

subsection \<open>Looking up, removing and inserting a page\<close>

lemma entry_ptr: "table s pd (vpn div 1024) = Some q \<Longrightarrow> entry s (pd, vpn) = load32 (phys s) (pte_ptr q vpn)"
  by (simp add: entry_def pte_ptr_def)

lemma pte_tests:
  "arch_vm_pte_valid p s \<longleftrightarrow> bit (load32 (phys s) p) 0"
  "bit (arch_vm_pte_flags p s) 6 \<longleftrightarrow> bit (load32 (phys s) p) 10"
  "fl AND VM_WRITE = 0 \<longleftrightarrow> \<not> bit fl 1" "fl AND VM_COW = 0 \<longleftrightarrow> \<not> bit fl 5"
  "fl AND VM_PAGE = 0 \<longleftrightarrow> \<not> bit fl 6"
  using and_push_bit_neq_0 [of "load32 (phys s) p" 0]
    and_push_bit_neq_0 [of fl 1] and_push_bit_neq_0 [of fl 5] and_push_bit_neq_0 [of fl 6]
  unfolding arch_vm_pte_valid_def PTE_P_def VM_PAGE_def VM_WRITE_def VM_COW_def
  by (auto simp: arch_vm_pte_flags_def bit_flags_of_bits bit_PTE_FLAGS)

lemma user_key: "debug_tag s pd = PAGE_TAG_VM \<Longrightarrow> va < VIRT_KERNEL_BASE \<Longrightarrow> (pd, va div PAGE_SIZE) \<in> ukeys s"
  using user_idx(4) by (simp add: ukeys_def)

lemma pa2page_page: "f < page_count g \<Longrightarrow> pa2page (page_count g) (f * PAGE_SIZE) = Some f"
  by (simp add: pa2page_def PAGE_SIZE_def)

lemma page2kva_page: "vm_inv g x s \<Longrightarrow> f < page_count g \<Longrightarrow> page2kva g f = Some (f * PAGE_SIZE)"
  using pa2kva_page [of g x s f] by (simp add: page2kva_def page2pa_def)

lemma page_assert_anon: "debug_tag s f = tag \<Longrightarrow> ref_count s f \<noteq> 0 \<Longrightarrow> page_assert f 0 tag s = Some ()"
  by simp

declare page_assert.simps [simp del]

lemma vm_page_lookup_ok:
  assumes inv: "vm_inv g x s" and pd: "debug_tag s pd = PAGE_TAG_VM" and va: "va < VIRT_KERNEL_BASE"
  shows "vm_page_lookup g pd va s = Some (umap s (pd, va div PAGE_SIZE))"
proof (cases "table s pd (va div PAGE_SIZE div 1024)")
  case None
  then have "umap s (pd, va div PAGE_SIZE) = None" by (simp add: umap_def entry_def)
  with None show ?thesis by (simp add: vm_page_lookup_def arch_vm_lookup_absent [OF inv pd va])
next
  case (Some q)
  note e = entry_ptr [OF Some] and l = arch_vm_lookup_present [OF inv pd va Some]
  show ?thesis
  proof (cases "umap s (pd, va div PAGE_SIZE)")
    case None
    then have "\<not> bit (entry s (pd, va div PAGE_SIZE)) 0 \<or> \<not> bit (entry s (pd, va div PAGE_SIZE)) 10"
      using user_key [OF pd va] by (auto simp: umap_def split: if_splits)
    with None l e show ?thesis by (simp add: vm_page_lookup_def pte_tests)
  next
    case (Some m)
    obtain f fl where m: "m = (f, fl)" by fastforce
    obtain fl' where u: "f < page_count g" "entry s (pd, va div PAGE_SIZE) = mk_pte f fl'" "bit fl' 6" "fl = canon fl'"
        "debug_tag s f = PAGE_TAG_ANON" "0 < ref_count s f"
      using umap_Some [OF inv] Some m by blast
    note mp = mk_pte_simps [OF vm_inv_N [OF inv u(1)], of fl']
    show ?thesis
      using Some l e u m mp pa2page_page [OF u(1)] page_assert_anon [OF u(5)]
      by (simp add: vm_page_lookup_def pte_tests arch_vm_pte_addr_def arch_vm_pte_flags_def bit_canon)
  qed
qed

lemma uses_pos: "vm_inv g x s \<Longrightarrow> maps_to f (umap s k) \<Longrightarrow> 1 \<le> uses s f"
  unfolding uses_def using finite_maps [of g x s f] by (cases k) (auto simp: Suc_le_eq card_gt_0_iff)

lemma uses_two:
  assumes "vm_inv g x s" "maps_to f (umap s k)" "maps_to f (umap s k')" "k \<noteq> k'"
  shows "2 \<le> uses s f"
proof -
  have "card {k, k'} \<le> card {k. maps_to f (umap s k)}"
    using assms finite_maps [OF assms(1)] by (intro card_mono) auto
  then show ?thesis using assms(4) by (simp add: uses_def)
qed

definition sole :: "(nat \<Rightarrow> int) \<Rightarrow> page_state \<Rightarrow> nat \<times> nat \<Rightarrow> nat \<Rightarrow> bool" where
  "sole x s k f \<longleftrightarrow> x f = 0 \<and> (\<forall>k'. maps_to f (umap s k') \<longleftrightarrow> k' = k)"

lemma ref_one_sole:
  assumes inv: "vm_inv g x s" and k: "umap s k = Some (f, fl)" "ref_count s f = 1"
  shows "sole x s k f"
proof -
  have m: "maps_to f (umap s k)" using k(1) by (simp add: maps_to_def)
  have "ref_count s f = uses s f + x f" "0 \<le> x f"
    using inv umap_Some [OF inv k(1)] by (auto simp: vm_inv_def refs_ok_def)
  with k(2) uses_pos [OF inv m] have "x f = 0" "uses s f < 2" by auto
  then show ?thesis using uses_two [OF inv m] m by (fastforce simp: sole_def)
qed

text \<open>What an operation on the entry \<open>k\<close> leaves alone: the data of user pages, and the other directories,
  tables and pages.\<close>

definition vm_frame :: "(nat \<Rightarrow> int) \<Rightarrow> nat \<times> nat \<Rightarrow> page_state \<Rightarrow> page_state \<Rightarrow> bool" where
  "vm_frame x k s s' \<longleftrightarrow>
     (\<forall>a. debug_tag s (a div PAGE_SIZE) = PAGE_TAG_ANON \<longrightarrow> phys s' a = phys s a) \<and>
     (\<forall>p. debug_tag s p \<noteq> 0 \<and> debug_tag s p \<noteq> PAGE_TAG_ANON \<longrightarrow> debug_tag s' p = debug_tag s p) \<and>
     (\<forall>p. debug_tag s p = PAGE_TAG_ANON \<longrightarrow> debug_tag s' p = PAGE_TAG_ANON \<or> debug_tag s' p = 0 \<and> sole x s k p) \<and>
     (\<forall>pd i. debug_tag s pd = PAGE_TAG_VM \<and> i < USER_PDES \<and> table s pd i \<noteq> None \<longrightarrow> table s' pd i = table s pd i)"

lemma maps_to_simps [simp]: "\<not> maps_to f None" "maps_to f (Some (f', fl)) \<longleftrightarrow> f = f'"
  by (auto simp: maps_to_def)

lemma umap_table: "umap s (pd, vpn) = Some m \<Longrightarrow> \<exists>q. table s pd (vpn div 1024) = Some q"
  by (auto simp: umap_def entry_def split: if_splits option.splits)

text \<open>Dropping one reference and freeing the page with the last one.\<close>

lemma drop_ref:
  assumes pi: "page_inv N s" and f: "f < N" "debug_tag s f \<noteq> 0" "0 < ref_count s f"
  defines "s1 \<equiv> s\<lparr>ref_count := (ref_count s)(f := ref_count s f - 1)\<rparr>"
  obtains s2 where "(if ref_count s1 f = 0 then page_free_one f s1 else Some s1) = Some s2" "page_inv N s2"
    "free_pages s2 = (if ref_count s f = 1 then free_pages s \<union> {f} else free_pages s)"
    "debug_tag s2 = (if ref_count s f = 1 then (debug_tag s)(f := 0) else debug_tag s)"
    "ref_count s2 = (ref_count s)(f := ref_count s f - 1)" "phys s2 = phys s"
proof -
  have nf: "f \<notin> free_pages s" using page_inv_tagged [OF pi f(2)] .
  have 1: "page_inv N s1" "free_pages s1 = free_pages s"
    unfolding s1_def using pi nf by (intro page_inv_ref; auto simp: page_inv_def unused_def)+
  show thesis
  proof (cases "ref_count s f = 1")
    case True
    then have "ref_count s1 f = 0" by (simp add: s1_def)
    moreover obtain s2 where "page_free_one f s1 = Some s2" "page_inv N s2" "free_pages s2 = free_pages s1 \<union> {f}"
        "ref_count s2 = ref_count s1" "phys s2 = phys s1" "debug_tag s2 = (debug_tag s1)(f := 0)"
      using page_free_one_ok [OF 1(1) f(1)] nf 1(2) \<open>ref_count s1 f = 0\<close> by auto
    ultimately show thesis using that [of s2] True 1(2) by (simp add: s1_def)
  next
    case False
    then show thesis using that [of s1] 1 by (simp add: s1_def)
  qed
qed

text \<open>A page that loses its tag is free, and one that keeps it is still in use.\<close>

definition lossless :: "page_state \<Rightarrow> page_state \<Rightarrow> bool" where
  "lossless s s' \<longleftrightarrow> (\<forall>p. debug_tag s p = PAGE_TAG_ANON \<and> debug_tag s' p \<noteq> PAGE_TAG_ANON \<longrightarrow> p \<in> free_pages s') \<and>
     (\<forall>p. debug_tag s' p = PAGE_TAG_ANON \<longrightarrow> debug_tag s p = PAGE_TAG_ANON \<and> (ref_count s' p = 0 \<longrightarrow> ref_count s p = 0)) \<and>
     free_pages s \<subseteq> free_pages s'"

lemma lossless_refl [simp]: "lossless s s"
  by (simp add: lossless_def)

lemma lossless_trans: "lossless s s1 \<Longrightarrow> lossless s1 s' \<Longrightarrow> lossless s s'"
  unfolding lossless_def by blast

lemma vm_page_remove_ok:
  assumes inv: "vm_inv g x s" and pd: "debug_tag s pd = PAGE_TAG_VM" and va: "va < VIRT_KERNEL_BASE"
  defines "k \<equiv> (pd, va div PAGE_SIZE)"
  obtains s' where "vm_page_remove g pd va s = Some s'" "vm_inv g x s'" "umap s' = (umap s)(k := None)" "vm_frame x k s s'"
    "free_pages s \<subseteq> free_pages s'" "\<forall>p i. debug_tag s p = PAGE_TAG_VM \<and> i < USER_PDES \<longrightarrow> table s' p i = table s p i"
    "lossless s s'"
proof (cases "umap s k")
  case None
  have "vm_page_remove g pd va s = Some s"
  proof (cases "table s pd (va div PAGE_SIZE div 1024)")
    case None
    then show ?thesis by (simp add: vm_page_remove_def arch_vm_lookup_absent [OF inv pd va])
  next
    case (Some q)
    have "\<not> bit (entry s k) 0 \<or> \<not> bit (entry s k) 10"
      using user_key [OF pd va] None by (auto simp: umap_def k_def split: if_splits)
    then show ?thesis using entry_ptr [OF Some] arch_vm_lookup_present [OF inv pd va Some]
      by (simp add: vm_page_remove_def pte_tests k_def)
  qed
  moreover have "umap s = (umap s)(k := None)" using None by auto
  ultimately show thesis using that [of s] inv by (simp add: vm_frame_def)
next
  case (Some m)
  obtain f fl where m: "umap s k = Some (f, fl)" using Some by (cases m) auto
  obtain q where q: "table s pd (va div PAGE_SIZE div 1024) = Some q" using umap_table m unfolding k_def by blast
  obtain fl' where u: "f < page_count g" "entry s k = mk_pte f fl'" "bit fl' 6" "debug_tag s f = PAGE_TAG_ANON"
      "0 < ref_count s f"
    using umap_Some [OF inv m] by blast
  note mp = mk_pte_simps [OF vm_inv_N [OF inv u(1)], of fl']
  have mk: "maps_to f' (umap s k) \<longleftrightarrow> f' = f" for f' using m by (auto simp: maps_to_def)
  have xx: "\<forall>f'. debug_tag s f' = PAGE_TAG_ANON \<longrightarrow> (x(f := x f + 1)) f' =
      x f' + of_bool (maps_to f' (umap s k)) - of_bool (maps_to f' None) \<and> 0 \<le> (x(f := x f + 1)) f'"
    unfolding mk using inv by (auto simp: vm_inv_def refs_ok_def)
  define ptr where "ptr = pte_ptr q (va div PAGE_SIZE)"
  define s1 where "s1 = s\<lparr>phys := store32 ptr 0 (phys s)\<rparr>"
  have ps: "vm_inv g (x(f := x f + 1)) s1" "umap s1 = (umap s)(k := None)"
      "\<And>p i. debug_tag s p = PAGE_TAG_VM \<Longrightarrow> i < USER_PDES \<Longrightarrow> table s1 p i = table s p i"
      "\<And>a. debug_tag s (a div PAGE_SIZE) \<noteq> PAGE_TAG_PGTAB \<Longrightarrow> phys s1 a = phys s a"
    unfolding s1_def ptr_def pte_ptr_def k_def
    using pte_store [where x' = "x(f := x f + 1)" and w = 0 and v = None, OF inv user_key [OF pd va] q _ xx [unfolded k_def]]
    by auto
  have pi: "page_inv (page_count g) s" using inv by (simp add: vm_inv_def)
  obtain s2 where s2: "(if ref_count (s\<lparr>ref_count := (ref_count s)(f := ref_count s f - 1)\<rparr>) f = 0
        then page_free_one f (s\<lparr>ref_count := (ref_count s)(f := ref_count s f - 1)\<rparr>)
        else Some (s\<lparr>ref_count := (ref_count s)(f := ref_count s f - 1)\<rparr>)) = Some s2" "page_inv (page_count g) s2"
      "free_pages s2 = (if ref_count s f = 1 then free_pages s \<union> {f} else free_pages s)"
      "debug_tag s2 = (if ref_count s f = 1 then (debug_tag s)(f := 0) else debug_tag s)"
      "ref_count s2 = (ref_count s)(f := ref_count s f - 1)" "phys s2 = phys s"
    by (rule drop_ref [OF pi u(1) _ u(5)]) (use u(4) in \<open>simp add: page_tag_defs\<close>)
  define s' where "s' = arch_vm_pte_clear ptr s2"
  have s': "page_inv (page_count g) s'" "free_pages s' = free_pages s2" "debug_tag s' = debug_tag s2"
      "ref_count s' = ref_count s2" "phys s' = phys s1"
    using s2(2,6) by (simp_all add: s'_def arch_vm_pte_clear_def page_inv_phys s1_def)
  have "vm_page_remove g pd va s = Some s'"
    using arch_vm_lookup_present [OF inv pd va q] entry_ptr [OF q] u(2,3,5) mp s2(1) page_assert_anon [OF u(4)] pa2page_page [OF u(1)]
    by (simp add: vm_page_remove_def pte_tests arch_vm_pte_addr_def k_def ptr_def s'_def)
  moreover have fr: "vm_inv g x s' \<and> umap s' = umap s1"
  proof (rule vm_inv_cong [OF ps(1) s'(1)])
    have st: "debug_tag s1 = debug_tag s" "ref_count s1 = ref_count s" by (simp_all add: s1_def)
    have tag: "debug_tag s' p = (if p = f \<and> ref_count s f = 1 then 0 else debug_tag s p)" for p
      using s'(3) s2(4) by simp
    show "debug_tag s' (kernel_pgdir g) = PAGE_TAG_KERNEL_VM"
      using inv u(4) by (auto simp: tag vm_inv_def page_tag_defs)
    show "\<forall>p. (debug_tag s' p = PAGE_TAG_VM) = (debug_tag s1 p = PAGE_TAG_VM)"
      using u(4) by (auto simp: tag st page_tag_defs)
    show "\<forall>a. a div PAGE_SIZE \<in> tframes s1 \<longrightarrow> phys s' a = phys s1 a" by (simp add: s'(5))
    show "\<forall>p. p \<in> tframes s1 \<longrightarrow> debug_tag s' p = debug_tag s1 p \<and> ref_count s' p = ref_count s1 p"
    proof (intro allI impI)
      fix p assume "p \<in> tframes s1"
      with tframes_tag [OF ps(1), of p] u(4) have "p \<noteq> f" by (auto simp: st page_tag_defs)
      then show "debug_tag s' p = debug_tag s1 p \<and> ref_count s' p = ref_count s1 p"
        by (simp add: tag st s'(4) s2(5))
    qed
    show "\<forall>k' f' fl'. umap s1 k' = Some (f', fl') \<longrightarrow> debug_tag s' f' = PAGE_TAG_ANON"
    proof (intro allI impI)
      fix k' f' fl' assume a: "umap s1 k' = Some (f', fl')"
      then have k': "k' \<noteq> k" "umap s k' = Some (f', fl')" by (auto simp: ps(2) split: if_splits)
      then have "f' \<noteq> f" if "ref_count s f = 1" using ref_one_sole [OF inv m that] unfolding sole_def by (metis maps_to_simps(2))
      then show "debug_tag s' f' = PAGE_TAG_ANON" using umap_Some [OF ps(1) a] by (auto simp: tag st)
    qed
    show "\<forall>f'. debug_tag s' f' = PAGE_TAG_ANON \<longrightarrow> f' < page_count g \<and> 0 \<le> x f' \<and> ref_count s' f' = uses s1 f' + x f'"
    proof (intro allI impI)
      fix f' assume "debug_tag s' f' = PAGE_TAG_ANON"
      then have t: "debug_tag s f' = PAGE_TAG_ANON" by (auto simp: tag page_tag_defs split: if_splits)
      then have "ref_count s1 f' = uses s1 f' + (x(f := x f + 1)) f'" using ps(1) by (auto simp: vm_inv_def refs_ok_def st)
      moreover have "f' < page_count g" "0 \<le> x f'" using inv t by (auto simp: vm_inv_def refs_ok_def)
      ultimately show "f' < page_count g \<and> 0 \<le> x f' \<and> ref_count s' f' = uses s1 f' + x f'"
        by (auto simp: s'(4) s2(5) st)
    qed
  qed
  moreover have tab: "\<forall>p i. debug_tag s p = PAGE_TAG_VM \<and> i < USER_PDES \<longrightarrow> table s' p i = table s p i"
  proof -
    have "table s' = table s1" by (intro ext) (simp add: table_def pde_at_def s'(5))
    then show ?thesis using ps(3) by simp
  qed
  moreover have "vm_frame x k s s'"
    unfolding vm_frame_def using tab ps(4) u(4) ref_one_sole [OF inv m]
    by (auto simp: s'(3,5) s2(4) page_tag_defs)
  moreover have "free_pages s \<subseteq> free_pages s'" using s'(2) s2(3) by auto
  moreover have "lossless s s'"
    unfolding lossless_def s'(2-4) s2(3-5) by (auto split: if_splits simp: page_tag_defs)
  ultimately show thesis using that [of s'] ps(2) by simp
qed

lemma vm_inv_inc_ref:
  assumes inv: "vm_inv g x s" and f: "debug_tag s f = PAGE_TAG_ANON"
  shows "vm_inv g (x(f := x f + 1)) (page_inc_ref f s)" "umap (page_inc_ref f s) = umap s"
    "free_pages (page_inc_ref f s) = free_pages s" "debug_tag (page_inc_ref f s) = debug_tag s" "phys (page_inc_ref f s) = phys s"
    "table (page_inc_ref f s) = table s"
proof -
  have pi: "page_inv (page_count g) s" using inv by (simp add: vm_inv_def)
  then have nf: "f \<notin> free_pages s" using page_inv_tagged f by (simp add: page_tag_defs)
  have p: "page_inv (page_count g) (page_inc_ref f s)" "free_pages (page_inc_ref f s) = free_pages s"
    unfolding page_inc_ref_def using pi nf by (intro page_inv_ref; auto simp: page_inv_def unused_def)+
  then show "free_pages (page_inc_ref f s) = free_pages s" by blast
  show st: "debug_tag (page_inc_ref f s) = debug_tag s" "phys (page_inc_ref f s) = phys s"
    by (simp_all add: page_inc_ref_def)
  then show "table (page_inc_ref f s) = table s" by (intro ext) (simp add: table_def pde_at_def)
  have "vm_inv g (x(f := x f + 1)) (page_inc_ref f s) \<and> umap (page_inc_ref f s) = umap s"
  proof (rule vm_inv_cong [OF inv p(1)])
    show "debug_tag (page_inc_ref f s) (kernel_pgdir g) = PAGE_TAG_KERNEL_VM" using inv by (simp add: st vm_inv_def)
    show "\<forall>p. p \<in> tframes s \<longrightarrow> debug_tag (page_inc_ref f s) p = debug_tag s p \<and> ref_count (page_inc_ref f s) p = ref_count s p"
    proof (intro allI impI)
      fix p assume "p \<in> tframes s"
      with tframes_tag [OF inv, of p] f have "p \<noteq> f" by (auto simp: page_tag_defs)
      then show "debug_tag (page_inc_ref f s) p = debug_tag s p \<and> ref_count (page_inc_ref f s) p = ref_count s p"
        by (simp add: page_inc_ref_def)
    qed
    show "\<forall>k f' fl. umap s k = Some (f', fl) \<longrightarrow> debug_tag (page_inc_ref f s) f' = PAGE_TAG_ANON"
      using umap_Some [OF inv] by (metis st(1))
    show "\<forall>f'. debug_tag (page_inc_ref f s) f' = PAGE_TAG_ANON \<longrightarrow> f' < page_count g \<and> 0 \<le> (x(f := x f + 1)) f' \<and>
        ref_count (page_inc_ref f s) f' = uses s f' + (x(f := x f + 1)) f'"
      using inv f by (auto simp: st page_inc_ref_def vm_inv_def refs_ok_def)
  qed (simp_all add: st)
  then show "vm_inv g (x(f := x f + 1)) (page_inc_ref f s)" "umap (page_inc_ref f s) = umap s" by blast+
qed

lemma finite_free_pages [simp]: "finite (free_pages s)"
  by (simp add: free_pages_def block_def)

text \<open>Finding the entry, with a new table if necessary.\<close>

lemma arch_vm_lookup_ok:
  assumes inv: "vm_inv g x s" and pd: "debug_tag s pd = PAGE_TAG_VM" and va: "va < VIRT_KERNEL_BASE"
    and free: "table s pd (va div PAGE_SIZE div 1024) \<noteq> None \<or> free_pages s \<noteq> {}"
  obtains q s' where "arch_vm_lookup g pd va True s = Some (Some (pte_ptr q (va div PAGE_SIZE)), s')" "vm_inv g x s'"
    "table s' pd (va div PAGE_SIZE div 1024) = Some q" "umap s' = umap s" "vm_frame x k s s'"
    "\<forall>p. debug_tag s p \<noteq> 0 \<longrightarrow> debug_tag s' p = debug_tag s p"
    "table s pd (va div PAGE_SIZE div 1024) \<noteq> None \<Longrightarrow> s' = s" "card (free_pages s) \<le> card (free_pages s') + 1"
proof (cases "table s pd (va div PAGE_SIZE div 1024)")
  case (Some q)
  then show thesis
    using that [of q s] inv arch_vm_lookup_present [OF inv pd va Some] by (simp add: vm_frame_def)
next
  case None
  then have "free_pages s \<noteq> {}" using free by simp
  from arch_vm_lookup_alloc [OF inv pd va None this] obtain q s' where
    r: "arch_vm_lookup g pd va True s = Some (Some (pte_ptr q (va div PAGE_SIZE)), s')" "vm_inv g x s'"
      "table s' pd (va div PAGE_SIZE div 1024) = Some q" "umap s' = umap s" "q \<in> free_pages s" "free_pages s' = free_pages s - {q}"
      "debug_tag s' = (debug_tag s)(q := PAGE_TAG_PGTAB)" "ref_count s' = (ref_count s)(q := 1)"
      "\<forall>a. a div PAGE_SIZE \<notin> {pd, q} \<longrightarrow> phys s' a = phys s a" "\<forall>p i. debug_tag s p = PAGE_TAG_VM \<and> i < USER_PDES \<and>
        table s p i \<noteq> None \<longrightarrow> table s' p i = table s p i" by blast
  have q: "debug_tag s q = 0" using vm_inv_free [OF inv r(5)] by simp
  then have "a div PAGE_SIZE \<notin> {pd, q}" if "debug_tag s (a div PAGE_SIZE) = PAGE_TAG_ANON" for a
    using that pd by (auto simp: page_tag_defs)
  then have "vm_frame x k s s'"
    unfolding vm_frame_def using r(7,9,10) q by (simp add: page_tag_defs)
  moreover have "\<forall>p. debug_tag s p \<noteq> 0 \<longrightarrow> debug_tag s' p = debug_tag s p" using r(7) q by auto
  moreover have "card (free_pages s) \<le> card (free_pages s') + 1"
    unfolding r(6) using r(5) by (simp add: card_Diff_singleton)
  ultimately show thesis using that [of q s'] r(1-4) None by simp
qed

lemma vm_page_insert_ok:
  assumes inv: "vm_inv g x s" and pd: "debug_tag s pd = PAGE_TAG_VM" and va: "va < VIRT_KERNEL_BASE"
    and f: "debug_tag s f = PAGE_TAG_ANON"
    and free: "table s pd (va div PAGE_SIZE div 1024) \<noteq> None \<or> free_pages s \<noteq> {}"
  defines "k \<equiv> (pd, va div PAGE_SIZE)"
  obtains s' where "vm_page_insert g pd f va fl s = Some (0, s')" "vm_inv g x s'"
    "umap s' = (umap s)(k := Some (f, canon (fl OR VM_PAGE)))" "vm_frame x k s s'" "debug_tag s' f = PAGE_TAG_ANON"
    "table s pd (va div PAGE_SIZE div 1024) \<noteq> None \<Longrightarrow> free_pages s \<subseteq> free_pages s'"
    "card (free_pages s) \<le> card (free_pages s') + 1"
proof -
  let ?i = "va div PAGE_SIZE div 1024"
  have fN: "f < page_count g" using inv f by (simp add: vm_inv_def refs_ok_def)
  obtain q s1 where s1: "arch_vm_lookup g pd va True s = Some (Some (pte_ptr q (va div PAGE_SIZE)), s1)" "vm_inv g x s1"
      "table s1 pd ?i = Some q" "umap s1 = umap s" "vm_frame x k s s1" "\<forall>p. debug_tag s p \<noteq> 0 \<longrightarrow> debug_tag s1 p = debug_tag s p"
      "table s pd ?i \<noteq> None \<Longrightarrow> s1 = s" "card (free_pages s) \<le> card (free_pages s1) + 1"
    by (rule arch_vm_lookup_ok [OF inv pd va free, of k]) blast
  have t1: "debug_tag s1 pd = PAGE_TAG_VM" "debug_tag s1 f = PAGE_TAG_ANON" using s1(6) pd f by (simp_all add: page_tag_defs)
  define s2 where "s2 = page_inc_ref f s1"
  note r = vm_inv_inc_ref [OF s1(2) t1(2), folded s2_def]
  have pd2: "debug_tag s2 pd = PAGE_TAG_VM" using t1(1) r(4) by simp
  obtain s3 where s3: "vm_page_remove g pd va s2 = Some s3" "vm_inv g (x(f := x f + 1)) s3" "umap s3 = (umap s2)(k := None)"
      "vm_frame (x(f := x f + 1)) k s2 s3" "free_pages s2 \<subseteq> free_pages s3"
      "\<forall>p i. debug_tag s2 p = PAGE_TAG_VM \<and> i < USER_PDES \<longrightarrow> table s3 p i = table s2 p i"
    unfolding k_def by (rule vm_page_remove_ok [OF r(1) pd2 va]) (simp add: k_def)
  have tag3: "debug_tag s3 p = debug_tag s p" if "debug_tag s p \<noteq> 0" "debug_tag s p \<noteq> PAGE_TAG_ANON" for p
    using that s1(6) s3(4) r(4) by (simp add: vm_frame_def)
  have anon3: "debug_tag s3 p = PAGE_TAG_ANON \<or> debug_tag s3 p = 0 \<and> sole x s k p \<and> p \<noteq> f" if "debug_tag s p = PAGE_TAG_ANON" for p
  proof -
    have "debug_tag s2 p = PAGE_TAG_ANON" using that s1(6) r(4) by (simp add: page_tag_defs)
    then have "debug_tag s3 p = PAGE_TAG_ANON \<or> debug_tag s3 p = 0 \<and> sole (x(f := x f + 1)) s2 k p"
      using s3(4) by (simp add: vm_frame_def)
    moreover have "0 \<le> x f" using inv f by (simp add: vm_inv_def refs_ok_def)
    ultimately show ?thesis using r(2) s1(4) by (cases "p = f") (auto simp: sole_def)
  qed
  then have f3: "debug_tag s3 f = PAGE_TAG_ANON" using f by blast
  have k3: "(pd, va div PAGE_SIZE) \<in> ukeys s3" using user_key [OF _ va] tag3 pd by (simp add: page_tag_defs)
  have q3: "table s3 pd ?i = Some q" using s3(6) pd2 user_idx(3) [OF va] r(6) s1(3) by simp
  have xx: "\<forall>f'. debug_tag s3 f' = PAGE_TAG_ANON \<longrightarrow> x f' = (x(f := x f + 1)) f' +
      of_bool (maps_to f' (umap s3 (pd, va div PAGE_SIZE))) - of_bool (maps_to f' (Some (f, canon (fl OR VM_PAGE)))) \<and> 0 \<le> x f'"
  proof (intro allI impI)
    fix f' assume "debug_tag s3 f' = PAGE_TAG_ANON"
    then have "0 \<le> (x(f := x f + 1)) f'" using s3(2) by (simp add: vm_inv_def refs_ok_def)
    then show "x f' = (x(f := x f + 1)) f' + of_bool (maps_to f' (umap s3 (pd, va div PAGE_SIZE))) -
        of_bool (maps_to f' (Some (f, canon (fl OR VM_PAGE)))) \<and> 0 \<le> x f'"
      using inv f s3(3) by (auto simp: k_def vm_inv_def refs_ok_def)
  qed
  have b6: "bit (fl OR VM_PAGE) 6" by (simp add: flag_simps)
  define s' where "s' = s3\<lparr>phys := store32 (q * PAGE_SIZE + 4 * (va div PAGE_SIZE mod 1024)) (mk_pte f (fl OR VM_PAGE)) (phys s3)\<rparr>"
  have w: "mk_pte f (fl OR VM_PAGE) = 0 \<and> Some (f, canon (fl OR VM_PAGE)) = None \<or> (\<exists>f'<page_count g. \<exists>fl'.
      mk_pte f (fl OR VM_PAGE) = mk_pte f' fl' \<and> bit fl' 6 \<and> debug_tag s3 f' = PAGE_TAG_ANON \<and>
      Some (f, canon (fl OR VM_PAGE)) = Some (f', canon fl'))"
    using fN b6 f3 by blast
  note ps = pte_store [OF s3(2) k3 q3 w xx, folded s'_def]
  have "vm_page_insert g pd f va fl s = Some (0, s')"
    using s1(1) s3(1) fN
    by (simp add: vm_page_insert_def s2_def [symmetric] page2pa_def arch_vm_pte_set_def s'_def mk_pte_def pte_ptr_def)
  moreover have "vm_inv g x s'" by (rule ps(1))
  moreover have "umap s' = (umap s)(k := Some (f, canon (fl OR VM_PAGE)))"
    using ps(2) s3(3) r(2) s1(4) by (simp add: k_def)
  moreover have tg: "debug_tag s' = debug_tag s3" "free_pages s' = free_pages s3" by (simp_all add: s'_def page_inv_phys)
  moreover have "vm_frame x k s s'"
    unfolding vm_frame_def
  proof (intro conjI allI impI)
    fix a assume a: "debug_tag s (a div PAGE_SIZE) = PAGE_TAG_ANON"
    then have "debug_tag s3 (a div PAGE_SIZE) \<noteq> PAGE_TAG_PGTAB" using anon3 [OF a] by (auto simp: page_tag_defs)
    moreover have "debug_tag s2 (a div PAGE_SIZE) = PAGE_TAG_ANON" using a s1(6) r(4) by (simp add: page_tag_defs)
    ultimately show "phys s' a = phys s a" using ps(4) s3(4) r(5) s1(5) a by (simp add: vm_frame_def)
  next
    fix p i assume a: "debug_tag s p = PAGE_TAG_VM \<and> i < USER_PDES \<and> table s p i \<noteq> None"
    then have "debug_tag s2 p = PAGE_TAG_VM" "debug_tag s3 p = PAGE_TAG_VM" using tag3 s1(6) r(4) by (simp_all add: page_tag_defs)
    then show "table s' p i = table s p i" using a ps(3) s3(6) r(6) s1(5) by (simp add: vm_frame_def)
  qed (use tag3 anon3 tg in auto)
  moreover have "table s pd ?i \<noteq> None \<Longrightarrow> free_pages s \<subseteq> free_pages s'"
    using s1(7) r(3) s3(5) tg(2) by auto
  moreover have "card (free_pages s) \<le> card (free_pages s') + 1"
    using s1(8) r(3) card_mono [OF _ s3(5)] tg(2) by simp
  ultimately show thesis using that [of s'] f3 by simp
qed

subsection \<open>What a process sees\<close>

text \<open>The bytes and the permissions of an address space.  A page that is to be copied on a write counts as
  writable.\<close>

definition eff :: "u32 \<Rightarrow> u32" where
  "eff fl = (if bit fl 5 then (fl AND NOT VM_COW) OR VM_WRITE else fl)"

definition uread :: "page_state \<Rightarrow> nat \<times> nat \<Rightarrow> nat \<Rightarrow> u8 option" where
  "uread s k off = map_option (\<lambda>(f, fl). phys s (f * PAGE_SIZE + off)) (umap s k)"

definition uflags :: "page_state \<Rightarrow> nat \<times> nat \<Rightarrow> u32 option" where
  "uflags s k = map_option (\<lambda>(f, fl). eff fl) (umap s k)"

text \<open>Two states that no process can tell apart.\<close>

definition same_view :: "page_state \<Rightarrow> page_state \<Rightarrow> bool" where
  "same_view s s' \<longleftrightarrow> (\<forall>k. \<forall>off<PAGE_SIZE. uread s' k off = uread s k off) \<and> uflags s' = uflags s"

text \<open>A page that can be written to without a fault belongs to one mapping.\<close>

definition lone :: "page_state \<Rightarrow> nat \<times> nat \<Rightarrow> bool" where
  "lone s k \<longleftrightarrow> (\<forall>f fl. umap s k = Some (f, fl) \<longrightarrow> (\<forall>k'. maps_to f (umap s k') \<longrightarrow> k' = k))"

definition excl :: "page_state \<Rightarrow> bool" where
  "excl s \<longleftrightarrow> (\<forall>k f fl. umap s k = Some (f, fl) \<and> bit fl 1 \<longrightarrow> lone s k)"

lemma bit_and_not: "bit (a AND NOT b) n \<longleftrightarrow> bit a n \<and> \<not> bit b n" for a b :: u32
  using bit_imp_le_length [of a n] by (auto simp: bit_and_iff bit_not_iff)

lemma bit_vm_flags [simp]: "bit VM_WRITE n \<longleftrightarrow> n = 1" "bit VM_COW n \<longleftrightarrow> n = 5" "bit VM_PAGE n \<longleftrightarrow> n = 6"
  unfolding flag_simps by auto

lemma eff_canon:
  "canon (((canon fl' AND NOT VM_COW) OR VM_WRITE) OR VM_PAGE) = (canon fl' AND NOT VM_COW) OR VM_WRITE"
  if "bit fl' 6"
  by (rule bit_word_eqI) (use that in \<open>auto simp: bit_canon bit_or_iff bit_and_not\<close>)

lemma bit_eff: "bit (eff fl) n \<longleftrightarrow> (if bit fl 5 then n = 1 \<or> n \<noteq> 5 \<and> bit fl n else bit fl n)"
  by (auto simp: eff_def bit_or_iff bit_and_not)

lemma page_offset: "off < PAGE_SIZE \<Longrightarrow> (f * PAGE_SIZE + off) div PAGE_SIZE = f"
  by (simp add: PAGE_SIZE_def)

text \<open>Changing the entry of \<open>k\<close> to a page with given contents.\<close>

lemma uread_upd:
  assumes inv: "vm_inv g x s" and fr: "vm_frame x k s s'" and um: "umap s' = (umap s)(k := Some (f, fl))"
    and off: "off < PAGE_SIZE"
  shows "uread s' k' off = (if k' = k then Some (phys s' (f * PAGE_SIZE + off)) else uread s k' off)"
proof (cases "k' = k \<or> umap s k' = None")
  case False
  then obtain f' fl' where u: "umap s k' = Some (f', fl')" by auto
  then have "debug_tag s f' = PAGE_TAG_ANON" using umap_Some [OF inv u] by blast
  then have "phys s' (f' * PAGE_SIZE + off) = phys s (f' * PAGE_SIZE + off)"
    using fr page_offset [OF off] by (simp add: vm_frame_def)
  with u False show ?thesis by (simp add: uread_def um)
qed (auto simp: uread_def um)

lemma vm_frame_dir: "vm_frame x k s s' \<Longrightarrow> debug_tag s p = PAGE_TAG_VM \<Longrightarrow> debug_tag s' p = PAGE_TAG_VM"
  by (simp add: vm_frame_def page_tag_defs)

subsection \<open>Data pages\<close>

lemma vm_inv_data:
  assumes inv: "vm_inv g x s" and m: "\<forall>a. debug_tag s (a div PAGE_SIZE) \<noteq> PAGE_TAG_ANON \<longrightarrow> m a = phys s a"
  shows "vm_inv g x (s\<lparr>phys := m\<rparr>)" "umap (s\<lparr>phys := m\<rparr>) = umap s"
proof -
  have "vm_inv g x (s\<lparr>phys := m\<rparr>) \<and> umap (s\<lparr>phys := m\<rparr>) = umap s"
  proof (rule vm_inv_cong [OF inv])
    show "\<forall>a. a div PAGE_SIZE \<in> tframes s \<longrightarrow> phys (s\<lparr>phys := m\<rparr>) a = phys s a"
    proof (intro allI impI)
      fix a assume "a div PAGE_SIZE \<in> tframes s"
      with tframes_tag [OF inv, of "a div PAGE_SIZE"] have "debug_tag s (a div PAGE_SIZE) \<noteq> PAGE_TAG_ANON"
        by (auto simp: page_tag_defs)
      with m show "phys (s\<lparr>phys := m\<rparr>) a = phys s a" by simp
    qed
    show "\<forall>k f fl. umap s k = Some (f, fl) \<longrightarrow> debug_tag (s\<lparr>phys := m\<rparr>) f = PAGE_TAG_ANON"
    proof (intro allI impI)
      fix k f fl assume "umap s k = Some (f, fl)"
      from umap_Some [OF inv this] show "debug_tag (s\<lparr>phys := m\<rparr>) f = PAGE_TAG_ANON" by simp blast
    qed
  qed (use inv in \<open>auto simp: vm_inv_def refs_ok_def page_inv_phys\<close>)
  then show "vm_inv g x (s\<lparr>phys := m\<rparr>)" "umap (s\<lparr>phys := m\<rparr>) = umap s" by blast+
qed

lemma alloc_anon:
  assumes inv: "vm_inv g (\<lambda>_. 0) s" and free: "free_pages s \<noteq> {}"
  obtains p s' where "page_alloc_one True PAGE_TAG_ANON s = Some (p, s')" "vm_inv g (\<lambda>_. 0) s'" "umap s' = umap s"
    "p < page_count g" "debug_tag s p = 0" "debug_tag s' = (debug_tag s)(p := PAGE_TAG_ANON)"
    "phys s' = (\<lambda>a. if a div PAGE_SIZE = p then 0 else phys s a)" "\<And>k. \<not> maps_to p (umap s k)"
    "card (free_pages s) = card (free_pages s') + 1"
proof -
  have pi: "page_inv (page_count g) s" using inv by (simp add: vm_inv_def)
  obtain p s1 where s1: "page_alloc_one True PAGE_TAG_ANON s = Some (p, s1)" "page_inv (page_count g) s1" "p \<in> free_pages s"
      "p < page_count g" "free_pages s1 = free_pages s - {p}" "debug_tag s1 = (debug_tag s)(p := PAGE_TAG_ANON)"
      "ref_count s1 = ref_count s" "phys s1 = (\<lambda>a. if a div PAGE_SIZE = p then 0 else phys s a)"
    by (rule page_alloc_one_ok [OF pi free, of True PAGE_TAG_ANON]) simp
  note fp = vm_inv_free [OF inv s1(3)]
  have "ref_count s1 = (ref_count s)(p := 0)" using s1(7) fp(2) by auto
  note f = vm_inv_fresh [OF inv s1(3,4,2,6) _ this]
  have "vm_inv g ((\<lambda>_. 0)(p := 0)) s1" "umap s1 = umap s" "\<not> maps_to p (umap s k)" for k
    using f(1,2,4) s1(8) by simp_all
  moreover have "(\<lambda>_. 0 :: int)(p := 0) = (\<lambda>_. 0)" by auto
  moreover have "card (free_pages s) = card (free_pages s1) + 1"
    unfolding s1(5) using s1(3) by (metis Suc_eq_plus1 card_Suc_Diff1 finite_free_pages)
  ultimately show thesis using that [of p s1] s1 fp by simp
qed

lemma uread_fresh:
  assumes "\<And>k. \<not> maps_to p (umap s k)" "umap s' = umap s" "\<forall>a. a div PAGE_SIZE \<noteq> p \<longrightarrow> phys s' a = phys s a" "off < PAGE_SIZE"
  shows "uread s' k off = uread s k off"
  unfolding uread_def assms(2) using assms(1) [of k] assms(3,4) by (cases "umap s k") (auto simp: page_offset)

text \<open>A page that is looked up for writing: the views stay as they were, and a page that was to be copied is
  then mapped by its owner only.\<close>

lemma vm_page_cow_ok:
  assumes inv: "vm_inv g (\<lambda>_. 0) s" and pd: "debug_tag s pd = PAGE_TAG_VM" and va: "va < VIRT_KERNEL_BASE"
    and k: "umap s (pd, va div PAGE_SIZE) = Some (f, fl)" "bit fl 5" and free: "free_pages s \<noteq> {}"
  defines "k \<equiv> (pd, va div PAGE_SIZE)"
  obtains p s' where "vm_page_cow g pd va f fl s = Some (Some p, s')" "vm_inv g (\<lambda>_. 0) s'"
    "umap s' = (umap s)(k := Some (p, eff fl))" "lone s' k"
    "\<forall>off<PAGE_SIZE. phys s' (p * PAGE_SIZE + off) = phys s (f * PAGE_SIZE + off)"
    "\<forall>k'. k' \<noteq> k \<longrightarrow> (\<forall>off<PAGE_SIZE. uread s' k' off = uread s k' off)"
    "\<forall>p. debug_tag s p = PAGE_TAG_VM \<longrightarrow> debug_tag s' p = PAGE_TAG_VM" "card (free_pages s) \<le> card (free_pages s') + 1"
proof -
  have tab: "table s pd (va div PAGE_SIZE div 1024) \<noteq> None" using umap_table [OF k(1)] by auto
  obtain fl' where u: "f < page_count g" "bit fl' 6" "fl = canon fl'" "debug_tag s f = PAGE_TAG_ANON"
    using umap_Some [OF inv k(1)] by blast
  have e: "canon (((fl AND NOT VM_COW) OR VM_WRITE) OR VM_PAGE) = eff fl" "eff fl = (fl AND NOT VM_COW) OR VM_WRITE"
    using eff_canon [OF u(2)] k(2) by (simp_all add: u(3) eff_def)
  have cow: "fl AND VM_COW \<noteq> 0" using k(2) by (simp add: pte_tests)
  show thesis
  proof (cases "ref_count s f = 1")
    case True
    obtain s' where s': "vm_page_insert g pd f va (eff fl) s = Some (0, s')" "vm_inv g (\<lambda>_. 0) s'"
        "umap s' = (umap s)(k := Some (f, eff fl))" "vm_frame (\<lambda>_. 0) k s s'" "free_pages s \<subseteq> free_pages s'"
      unfolding k_def using tab e
      by (auto intro: vm_page_insert_ok [OF inv pd va u(4), of "eff fl"])
    have "lone s' k" using ref_one_sole [OF inv k(1) True] by (auto simp: lone_def s'(3) sole_def k_def)
    moreover have "vm_page_cow g pd va f fl s = Some (Some f, s')"
      using True cow s'(1) e(2) by (simp add: vm_page_cow_def)
    moreover have "\<forall>off<PAGE_SIZE. phys s' (f * PAGE_SIZE + off) = phys s (f * PAGE_SIZE + off)"
      using s'(4) u(4) by (simp add: vm_frame_def page_offset)
    moreover have "\<forall>k'. k' \<noteq> k \<longrightarrow> (\<forall>off<PAGE_SIZE. uread s' k' off = uread s k' off)"
      using uread_upd [OF inv s'(4,3)] by simp
    ultimately show thesis
      using that [of f s'] s' card_mono [OF _ s'(5)] by (simp add: vm_frame_def page_tag_defs)
  next
    case False
    obtain p s1 where s1: "page_alloc_one True PAGE_TAG_ANON s = Some (p, s1)" "vm_inv g (\<lambda>_. 0) s1" "umap s1 = umap s"
        "p < page_count g" "debug_tag s p = 0" "debug_tag s1 = (debug_tag s)(p := PAGE_TAG_ANON)"
        "phys s1 = (\<lambda>a. if a div PAGE_SIZE = p then 0 else phys s a)" "\<And>k. \<not> maps_to p (umap s k)"
        "card (free_pages s) = card (free_pages s1) + 1"
      by (rule alloc_anon [OF inv free]) blast
    have "p \<noteq> f" using s1(5) u(4) by (auto simp: page_tag_defs)
    define m where "m = memmove (p * PAGE_SIZE) (f * PAGE_SIZE) PAGE_SIZE (phys s1)"
    define s2 where "s2 = s1\<lparr>phys := m\<rparr>"
    have ph: "m a = phys s1 a" if "a div PAGE_SIZE \<noteq> p" for a
      using that block_bytes [of a 0 p] by (auto simp: m_def memmove_apply)
    have cp: "m (p * PAGE_SIZE + off) = phys s (f * PAGE_SIZE + off)" if "off < PAGE_SIZE" for off
      using that \<open>p \<noteq> f\<close> by (simp add: m_def memmove_apply s1(7) page_offset)
    have "\<forall>a. debug_tag s1 (a div PAGE_SIZE) \<noteq> PAGE_TAG_ANON \<longrightarrow> m a = phys s1 a" using ph s1(6) by auto
    from vm_inv_data [OF s1(2) this]
    have s2: "vm_inv g (\<lambda>_. 0) s2" "umap s2 = umap s" "debug_tag s2 pd = PAGE_TAG_VM" "debug_tag s2 p = PAGE_TAG_ANON"
      using pd s1(3,5,6) by (auto simp: s2_def page_tag_defs)
    have tab2: "table s2 pd (va div PAGE_SIZE div 1024) \<noteq> None" using umap_table [of s2] k(1) s2(2) by auto
    obtain s' where s': "vm_page_insert g pd p va (eff fl) s2 = Some (0, s')" "vm_inv g (\<lambda>_. 0) s'"
        "umap s' = (umap s2)(k := Some (p, eff fl))" "vm_frame (\<lambda>_. 0) k s2 s'" "free_pages s2 \<subseteq> free_pages s'"
      unfolding k_def using tab2 e by (auto intro: vm_page_insert_ok [OF s2(1,3) va s2(4), of "eff fl"])
    have "vm_page_cow g pd va f fl s = Some (Some p, s')"
      using False cow s'(1) e(2) s1(1) page2kva_page [OF inv s1(4)] page2kva_page [OF inv u(1)]
      by (simp add: vm_page_cow_def s2_def m_def)
    moreover have "lone s' k" using s1(8) s2(2) by (auto simp: lone_def s'(3))
    moreover have c: "phys s' (p * PAGE_SIZE + off) = phys s (f * PAGE_SIZE + off)" if "off < PAGE_SIZE" for off
      using s'(4) s2(4) that cp by (simp add: vm_frame_def page_offset s2_def)
    moreover have "uread s' k' off = uread s k' off" if "k' \<noteq> k" "off < PAGE_SIZE" for k' off
    proof -
      have "uread s2 k' off = uread s k' off"
        by (rule uread_fresh [OF s1(8) s2(2) _ that(2)]) (simp add: s2_def ph s1(7))
      with uread_upd [OF s2(1) s'(4,3) that(2), of k'] that(1) show ?thesis by simp
    qed
    moreover have "\<forall>p. debug_tag s p = PAGE_TAG_VM \<longrightarrow> debug_tag s' p = PAGE_TAG_VM"
    proof (intro allI impI)
      fix q assume "debug_tag s q = PAGE_TAG_VM"
      then have "debug_tag s2 q = PAGE_TAG_VM" using s1(5,6) by (auto simp: s2_def page_tag_defs)
      then show "debug_tag s' q = PAGE_TAG_VM" by (rule vm_frame_dir [OF s'(4)])
    qed
    moreover have "card (free_pages s) \<le> card (free_pages s') + 1"
      using card_mono [OF _ s'(5)] s1(9) by (simp add: s2_def page_inv_phys)
    ultimately show thesis using that [of p s'] s'(2,3) s2(2) by simp
  qed
qed

declare split_paired_All [simp del] split_paired_Ex [simp del]

lemma eff_eff [simp]: "eff (eff fl) = eff fl"
  by (rule bit_word_eqI) (simp add: bit_eff)

lemma excl_lone: "excl s \<Longrightarrow> umap s k = Some (f, fl) \<Longrightarrow> bit fl 1 \<Longrightarrow> lone s k"
  by (auto simp: excl_def)

lemma excl_upd:
  assumes ex: "excl s" and um: "umap s' = (umap s)(k := m)" and l: "lone s' k \<or> (\<forall>f fl. m = Some (f, fl) \<longrightarrow> \<not> bit fl 1 \<and>
      (\<forall>k' fl'. umap s k' = Some (f, fl') \<longrightarrow> k' = k \<or> \<not> bit fl' 1))"
  shows "excl s'"
  unfolding excl_def
proof (intro allI impI, elim conjE)
  fix k1 f1 fl1 assume a: "umap s' k1 = Some (f1, fl1)" "bit fl1 1"
  show "lone s' k1"
  proof (cases "k1 = k")
    case True
    then have "m = Some (f1, fl1)" using a(1) um by simp
    with l a(2) True show ?thesis by blast
  next
    case False
    then have k1: "umap s k1 = Some (f1, fl1)" using a(1) um by simp
    have o: "k' = k1" if "maps_to f1 (umap s k')" for k'
      using excl_lone [OF ex k1 a(2)] k1 that by (auto simp: lone_def)
    have "k' = k1" if m': "maps_to f1 (umap s' k')" for k'
    proof (cases "k' = k")
      case True
      then obtain fl where m: "m = Some (f1, fl)" using m' um by (auto simp: maps_to_def)
      then have "\<not> lone s' k" using a(1) False um by (auto simp: lone_def maps_to_def)
      with l m k1 a(2) False show ?thesis by blast
    next
      case False
      with m' um o show ?thesis by simp
    qed
    then show ?thesis using a(1) by (auto simp: lone_def)
  qed
qed

lemma vm_page_lookup_cow_fault:
  assumes "vm_inv g x s" "debug_tag s pd = PAGE_TAG_VM" "va < VIRT_KERNEL_BASE" "umap s (pd, va div PAGE_SIZE) = None"
  shows "vm_page_lookup_cow g pd va s = Some (Inl (- EFAULT), s)"
  using vm_page_lookup_ok [OF assms(1-3)] assms(4) by (simp add: vm_page_lookup_cow_def)

lemma vm_page_lookup_cow_ok:
  assumes inv: "vm_inv g (\<lambda>_. 0) s" and pd: "debug_tag s pd = PAGE_TAG_VM" and va: "va < VIRT_KERNEL_BASE"
    and k: "umap s (pd, va div PAGE_SIZE) = Some (f, fl)" and free: "bit fl 5 \<Longrightarrow> free_pages s \<noteq> {}"
  defines "k \<equiv> (pd, va div PAGE_SIZE)"
  obtains p s' where "vm_page_lookup_cow g pd va s = Some (Inr (p, fl), s')" "vm_inv g (\<lambda>_. 0) s'" "same_view s s'"
    "umap s' = (umap s)(k := Some (p, eff fl))" "excl s \<Longrightarrow> excl s'" "excl s \<Longrightarrow> bit (eff fl) 1 \<Longrightarrow> lone s' k"
    "\<forall>p. debug_tag s p = PAGE_TAG_VM \<longrightarrow> debug_tag s' p = PAGE_TAG_VM" "card (free_pages s) \<le> card (free_pages s') + 1"
proof (cases "bit fl 5")
  case True
  obtain p s' where
    c: "vm_page_cow g pd va f fl s = Some (Some p, s')" "vm_inv g (\<lambda>_. 0) s'" "umap s' = (umap s)(k := Some (p, eff fl))" "lone s' k"
      "\<forall>off<PAGE_SIZE. phys s' (p * PAGE_SIZE + off) = phys s (f * PAGE_SIZE + off)"
      "\<forall>k'. k' \<noteq> k \<longrightarrow> (\<forall>off<PAGE_SIZE. uread s' k' off = uread s k' off)"
      "\<forall>p. debug_tag s p = PAGE_TAG_VM \<longrightarrow> debug_tag s' p = PAGE_TAG_VM" "card (free_pages s) \<le> card (free_pages s') + 1"
    unfolding k_def by (rule vm_page_cow_ok [OF inv pd va k True free [OF True]])
  have "vm_page_lookup_cow g pd va s = Some (Inr (p, fl), s')"
    using c(1) True by (simp add: vm_page_lookup_cow_def vm_page_lookup_ok [OF inv pd va] k pte_tests)
  moreover have "same_view s s'"
    unfolding same_view_def
  proof (intro conjI allI impI)
    fix k' off assume "off < PAGE_SIZE"
    then show "uread s' k' off = uread s k' off"
      using c(3,5,6) k by (cases "k' = k") (auto simp: uread_def k_def)
  next
    show "uflags s' = uflags s" using k c(3) by (auto simp: uflags_def k_def)
  qed
  moreover have "excl s'" if "excl s" using excl_upd [OF that c(3)] c(4) by blast
  ultimately show thesis using that [of p s'] c by simp
next
  case False
  have "vm_page_lookup_cow g pd va s = Some (Inr (f, fl), s)"
    using False by (simp add: vm_page_lookup_cow_def vm_page_lookup_ok [OF inv pd va] k pte_tests)
  moreover have "eff fl = fl" using False by (simp add: eff_def)
  moreover have "umap s = (umap s)(k := Some (f, fl))" using k by (auto simp: k_def)
  moreover have "lone s k" if "excl s" "bit fl 1" using excl_lone [OF that(1)] k that(2) by (simp add: k_def)
  ultimately show thesis using that [of f s] inv by (simp add: same_view_def)
qed

subsection \<open>Copying to a process\<close>

text \<open>The bytes of an address space by address.\<close>

definition ubyte :: "page_state \<Rightarrow> nat \<Rightarrow> nat \<Rightarrow> u8 option" where
  "ubyte s pd va = uread s (pd, va div PAGE_SIZE) (va mod PAGE_SIZE)"

definition uaccess :: "page_state \<Rightarrow> nat \<Rightarrow> nat \<Rightarrow> u32 option" where
  "uaccess s pd va = uflags s (pd, va div PAGE_SIZE)"

definition npages :: "nat \<Rightarrow> nat \<Rightarrow> nat" where
  "npages va n = (if n = 0 then 0 else (va + n - 1) div PAGE_SIZE - va div PAGE_SIZE + 1)"

lemma chunk_cases:
  assumes "0 < n"
  obtains (all) "chunk va n = n" "va mod PAGE_SIZE + n \<le> PAGE_SIZE"
  | (some) "chunk va n < n" "chunk va n = PAGE_SIZE - va mod PAGE_SIZE"
      "va + chunk va n = (va div PAGE_SIZE + 1) * PAGE_SIZE" "npages va n = npages (va + chunk va n) (n - chunk va n) + 1"
proof (cases "PAGE_SIZE - va mod PAGE_SIZE < n")
  case True
  define q r where "q = va div PAGE_SIZE" and "r = va mod PAGE_SIZE"
  have va: "va = q * PAGE_SIZE + r" "r < PAGE_SIZE" by (simp_all add: q_def r_def PAGE_SIZE_def)
  have c: "chunk va n = PAGE_SIZE - r" using True by (simp add: chunk_def r_def)
  have e: "va + chunk va n = (q + 1) * PAGE_SIZE" using va c by simp
  have "(va + n - 1) div PAGE_SIZE \<ge> q + 1"
  proof -
    have "(q + 1) * PAGE_SIZE \<le> va + n - 1" using e True c r_def by linarith
    then show ?thesis by (simp add: less_eq_div_iff_mult_less_eq PAGE_SIZE_def)
  qed
  moreover have "(va + chunk va n + (n - chunk va n) - 1) = va + n - 1" using True c r_def by simp
  moreover have "(va + chunk va n) div PAGE_SIZE = q + 1" unfolding e by (simp add: PAGE_SIZE_def)
  ultimately have "npages va n = npages (va + chunk va n) (n - chunk va n) + 1"
    using True c r_def assms by (simp add: npages_def q_def [symmetric])
  with some True c e show thesis by (simp add: q_def r_def)
next
  case False
  then show thesis using all by (simp add: chunk_def PAGE_SIZE_def)
qed

lemma write_lone:
  assumes inv: "vm_inv g x s" and k: "umap s k = Some (p, fl)" "lone s k" and off: "off + length bs \<le> PAGE_SIZE"
  defines "s' \<equiv> s\<lparr>phys := put_bytes (p * PAGE_SIZE + off) bs (phys s)\<rparr>"
  shows "vm_inv g x s'" "umap s' = umap s"
    "o' < PAGE_SIZE \<Longrightarrow> uread s' k' o' = (if k' = k \<and> off \<le> o' \<and> o' < off + length bs then Some (bs ! (o' - off)) else uread s k' o')"
proof -
  have t: "debug_tag s p = PAGE_TAG_ANON" using umap_Some [OF inv k(1)] by blast
  have o: "put_bytes (p * PAGE_SIZE + off) bs (phys s) a = phys s a" if "a div PAGE_SIZE \<noteq> p" for a
    using that off block_bytes [of a 0 p] by (auto simp: put_bytes_def)
  then have "\<forall>a. debug_tag s (a div PAGE_SIZE) \<noteq> PAGE_TAG_ANON \<longrightarrow> put_bytes (p * PAGE_SIZE + off) bs (phys s) a = phys s a"
    using t by metis
  from vm_inv_data [OF inv this] show "vm_inv g x s'" and um: "umap s' = umap s" by (simp_all add: s'_def)
  have ph: "phys s' = put_bytes (p * PAGE_SIZE + off) bs (phys s)" by (simp add: s'_def)
  show "uread s' k' o' = (if k' = k \<and> off \<le> o' \<and> o' < off + length bs then Some (bs ! (o' - off)) else uread s k' o')"
    if o': "o' < PAGE_SIZE"
  proof (cases "umap s k'")
    case None
    then show ?thesis using k(1) by (auto simp: uread_def um)
  next
    case (Some m)
    obtain f fl' where m: "umap s k' = Some (f, fl')" using Some by (cases m) auto
    show ?thesis
    proof (cases "k' = k")
      case True
      then show ?thesis using k(1) by (simp add: uread_def um ph put_bytes_def)
    next
      case False
      then have "f \<noteq> p" using k m by (auto simp: lone_def maps_to_def)
      then show ?thesis using False m o o' by (simp add: uread_def um ph page_offset)
    qed
  qed
qed

text \<open>Writing to pages that can be written to: only these bytes change, and only in this address space.\<close>

definition uwritten :: "page_state \<Rightarrow> nat \<Rightarrow> nat \<Rightarrow> u8 list \<Rightarrow> page_state \<Rightarrow> bool" where
  "uwritten s pd dst bs s' \<longleftrightarrow> uflags s' = uflags s \<and> (\<forall>pd' va. ubyte s' pd' va =
     (if pd' = pd \<and> dst \<le> va \<and> va < dst + length bs then Some (bs ! (va - dst)) else ubyte s pd' va))"

lemma same_view_ubyte: "same_view s s' \<Longrightarrow> ubyte s' = ubyte s \<and> uflags s' = uflags s"
  by (auto simp: same_view_def ubyte_def fun_eq_iff PAGE_SIZE_def)

lemma uwritten_chunk:
  assumes k: "va mod PAGE_SIZE + length bs \<le> PAGE_SIZE" and fl: "uflags s' = uflags s"
    and w: "\<And>k' o'. o' < PAGE_SIZE \<Longrightarrow> uread s' k' o' = (if k' = (pd, va div PAGE_SIZE) \<and> va mod PAGE_SIZE \<le> o' \<and>
      o' < va mod PAGE_SIZE + length bs then Some (bs ! (o' - va mod PAGE_SIZE)) else uread s k' o')"
  shows "uwritten s pd va bs s'"
  unfolding uwritten_def
proof (intro conjI allI)
  fix pd' va'
  define q r q' r' where "q = va div PAGE_SIZE" and "r = va mod PAGE_SIZE" and "q' = va' div PAGE_SIZE" and "r' = va' mod PAGE_SIZE"
  have va: "va = q * PAGE_SIZE + r" "va' = q' * PAGE_SIZE + r'" "r' < PAGE_SIZE" "r < PAGE_SIZE"
    by (simp_all add: q_def r_def q'_def r'_def PAGE_SIZE_def)
  have k': "r + length bs \<le> PAGE_SIZE" using k by (simp add: r_def)
  have "q' = q \<and> r \<le> r' \<and> r' < r + length bs \<longleftrightarrow> va \<le> va' \<and> va' < va + length bs"
  proof (cases "q' = q")
    case False
    have "\<not> (va \<le> va' \<and> va' < va + length bs)"
    proof
      assume a: "va \<le> va' \<and> va' < va + length bs"
      then have "q \<le> q'" by (simp add: q_def q'_def div_le_mono)
      moreover have "va' < (q + 1) * PAGE_SIZE" using a k' va(1) by (simp only: add_mult_distrib) linarith
      then have "q' < q + 1" unfolding q'_def by (simp add: div_less_iff_less_mult PAGE_SIZE_def)
      ultimately show False using False by simp
    qed
    with False show ?thesis by simp
  next
    case True
    show ?thesis unfolding va(1,2) True by simp
  qed
  moreover have "r' - r = va' - va" if "q' = q" unfolding va(1,2) that by simp
  ultimately show "ubyte s' pd' va' = (if pd' = pd \<and> va \<le> va' \<and> va' < va + length bs then Some (bs ! (va' - va)) else ubyte s pd' va')"
    using w [OF va(3), of "(pd', q')"] by (auto simp: ubyte_def q_def r_def q'_def r'_def)
qed (rule fl)

lemma uwritten_append:
  "uwritten s pd dst xs s1 \<Longrightarrow> uwritten s1 pd (dst + length xs) ys s2 \<Longrightarrow> uwritten s pd dst (xs @ ys) s2"
  unfolding uwritten_def by (auto simp: nth_append)

lemma excl_umap: "umap s' = umap s \<Longrightarrow> excl s' = excl s" "umap s' = umap s \<Longrightarrow> uflags s' = uflags s"
  by (auto simp: excl_def lone_def uflags_def)

lemma vm_copy_out_ok:
  assumes "vm_inv g (\<lambda>_. 0) s" "excl s" "debug_tag s pd = PAGE_TAG_VM" "dst + length src \<le> VIRT_KERNEL_BASE"
    "\<forall>va. dst \<le> va \<and> va < dst + length src \<longrightarrow> (\<exists>fl. uaccess s pd va = Some fl \<and> bit fl 1)"
    "npages dst (length src) \<le> card (free_pages s)"
  shows "\<exists>s'. vm_copy_out_loop g pd src dst s = Some (0, s') \<and> vm_inv g (\<lambda>_. 0) s' \<and> excl s' \<and> uwritten s pd dst src s' \<and>
     (\<forall>p. debug_tag s p = PAGE_TAG_VM \<longrightarrow> debug_tag s' p = PAGE_TAG_VM)"
  using assms
proof (induction "length src" arbitrary: src dst s rule: less_induct)
  case less
  show ?case
  proof (cases "src = []")
    case True
    then show ?thesis using less.prems by (subst vm_copy_out_loop.simps) (auto simp: uwritten_def)
  next
    case False
    let ?n = "chunk dst (length src)" and ?k = "(pd, dst div PAGE_SIZE)"
    have n: "0 < ?n" "?n \<le> length src" using chunk_pos(1) [of "length src" dst] chunk_pos(2) [of dst "length src"] False by simp_all
    have va: "dst < VIRT_KERNEL_BASE" using less.prems(4) False by (cases src) auto
    obtain f fl where k: "umap s ?k = Some (f, fl)" "bit (eff fl) 1"
      using less.prems(5) False by (fastforce simp: uaccess_def uflags_def)
    have "free_pages s \<noteq> {}" using less.prems(6) False by (auto simp: npages_def)
    then obtain p s1 where s1: "vm_page_lookup_cow g pd dst s = Some (Inr (p, fl), s1)" "vm_inv g (\<lambda>_. 0) s1" "same_view s s1"
        "umap s1 = (umap s)(?k := Some (p, eff fl))" "excl s \<Longrightarrow> excl s1" "excl s \<Longrightarrow> bit (eff fl) 1 \<Longrightarrow> lone s1 ?k"
        "\<forall>p. debug_tag s p = PAGE_TAG_VM \<longrightarrow> debug_tag s1 p = PAGE_TAG_VM" "card (free_pages s) \<le> card (free_pages s1) + 1"
      by (rule vm_page_lookup_cow_ok [OF less.prems(1,3) va k(1)]) blast
    have u1: "umap s1 ?k = Some (p, eff fl)" "lone s1 ?k" using s1(4,6) less.prems(2) k(2) by simp_all
    have len: "length (take ?n src) = ?n" using n(2) by simp
    have off: "dst mod PAGE_SIZE + length (take ?n src) \<le> PAGE_SIZE" unfolding len by (simp add: chunk_def PAGE_SIZE_def)
    define s2 where "s2 = s1\<lparr>phys := put_bytes (p * PAGE_SIZE + dst mod PAGE_SIZE) (take ?n src) (phys s1)\<rparr>"
    note w = write_lone [OF s1(2) u1 off, folded s2_def]
    have s2: "uflags s2 = uflags s" "excl s2" "free_pages s2 = free_pages s1" "debug_tag s2 = debug_tag s1"
      using excl_umap [OF w(2)] s1(3,5) less.prems(2) by (simp_all add: same_view_def s2_def page_inv_phys)
    have wr: "uwritten s pd dst (take ?n src) s2"
    proof (rule uwritten_chunk [OF off s2(1)])
      fix k' o' assume o': "o' < PAGE_SIZE"
      then have "uread s1 k' o' = uread s k' o'" using s1(3) by (simp add: same_view_def)
      with w(3) [OF o', of k'] show "uread s2 k' o' = (if k' = ?k \<and> dst mod PAGE_SIZE \<le> o' \<and>
        o' < dst mod PAGE_SIZE + length (take ?n src) then Some (take ?n src ! (o' - dst mod PAGE_SIZE)) else uread s k' o')" by simp
    qed
    have fr: "npages (dst + ?n) (length (drop ?n src)) \<le> card (free_pages s2)"
    proof (rule chunk_cases [of "length src" dst])
      assume "npages dst (length src) = npages (dst + ?n) (length src - ?n) + 1"
      then show ?thesis using less.prems(6) s1(8) s2(3) by simp
    qed (use False in \<open>simp_all add: npages_def\<close>)
    have acc: "\<forall>va. dst + ?n \<le> va \<and> va < dst + ?n + length (drop ?n src) \<longrightarrow> (\<exists>fl. uaccess s2 pd va = Some fl \<and> bit fl 1)"
      using less.prems(5) n(2) by (simp add: uaccess_def s2(1))
    obtain s' where s': "vm_copy_out_loop g pd (drop ?n src) (dst + ?n) s2 = Some (0, s')" "vm_inv g (\<lambda>_. 0) s'" "excl s'"
        "uwritten s2 pd (dst + ?n) (drop ?n src) s'" "\<forall>p. debug_tag s2 p = PAGE_TAG_VM \<longrightarrow> debug_tag s' p = PAGE_TAG_VM"
      using less.hyps [of "drop ?n src", OF _ w(1) s2(2) _ _ acc fr] n False s1(7) less.prems(3,4) s2(4) by auto
    have p: "page2kva g p = Some (p * PAGE_SIZE)"
      using umap_Some [OF s1(2) u1(1)] page2kva_page [OF s1(2)] by blast
    have "vm_copy_out_loop g pd src dst s = Some (0, s')"
      by (subst vm_copy_out_loop.simps) (use False s1(1) p s'(1) s2_def in simp)
    moreover have "uwritten s pd dst src s'"
      using uwritten_append [OF wr, of "drop ?n src" s'] s'(4) len by simp
    ultimately show ?thesis using s'(2,3,5) s1(7) s2(4) by auto
  qed
qed

end
