(* ===== verification/Vm_Ops.thy ===== *)
theory Vm_Ops
  imports Vm
begin

section \<open>Address spaces: ranges, forking and releasing\<close>

text \<open>
  What the operations of \<open>kernel/mm/vm.c\<close> on ranges do to what processes see: copying out and in,
  allocating, freeing and cloning.
\<close>

lemma canon_id:
  assumes "fl = canon fl'" "bit fl' 6"
  shows "canon (fl OR VM_PAGE) = fl"
    "canon (((fl AND NOT VM_WRITE) OR VM_COW) OR VM_PAGE) = (fl AND NOT VM_WRITE) OR VM_COW"
  by (rule bit_word_eqI; use assms in \<open>auto simp: bit_canon bit_or_iff bit_and_not\<close>)+

lemma eff_cow: "bit fl 1 \<Longrightarrow> eff ((fl AND NOT VM_WRITE) OR VM_COW) = eff fl"
  by (rule bit_word_eqI) (auto simp: bit_eff bit_or_iff bit_and_not)

text \<open>Inserting a page that is in use, or a new one.\<close>

lemma vm_page_insert_view:
  assumes inv: "vm_inv g (\<lambda>_. 0) s" and pd: "debug_tag s pd = PAGE_TAG_VM" and va: "va < VIRT_KERNEL_BASE"
    and f: "debug_tag s f = PAGE_TAG_ANON"
    and free: "table s pd (va div PAGE_SIZE div 1024) \<noteq> None \<or> free_pages s \<noteq> {}"
  defines "k \<equiv> (pd, va div PAGE_SIZE)"
  obtains s' where "vm_page_insert g pd f va fl s = Some (0, s')" "vm_inv g (\<lambda>_. 0) s'"
    "umap s' = (umap s)(k := Some (f, canon (fl OR VM_PAGE)))"
    "\<forall>k' off. off < PAGE_SIZE \<longrightarrow> uread s' k' off = (if k' = k then Some (phys s (f * PAGE_SIZE + off)) else uread s k' off)"
    "uflags s' = (uflags s)(k := Some (eff (canon (fl OR VM_PAGE))))" "debug_tag s' f = PAGE_TAG_ANON"
    "\<forall>p. debug_tag s p = PAGE_TAG_VM \<longrightarrow> debug_tag s' p = PAGE_TAG_VM"
    "table s pd (va div PAGE_SIZE div 1024) \<noteq> None \<longrightarrow> free_pages s \<subseteq> free_pages s'"
    "card (free_pages s) \<le> card (free_pages s') + 1"
    "\<forall>off. off < PAGE_SIZE \<longrightarrow> phys s' (f * PAGE_SIZE + off) = phys s (f * PAGE_SIZE + off)"
proof -
  obtain s' where s': "vm_page_insert g pd f va fl s = Some (0, s')" "vm_inv g (\<lambda>_. 0) s'"
      "umap s' = (umap s)(k := Some (f, canon (fl OR VM_PAGE)))" "vm_frame (\<lambda>_. 0) k s s'" "debug_tag s' f = PAGE_TAG_ANON"
      "table s pd (va div PAGE_SIZE div 1024) \<noteq> None \<Longrightarrow> free_pages s \<subseteq> free_pages s'"
      "card (free_pages s) \<le> card (free_pages s') + 1"
    unfolding k_def by (rule vm_page_insert_ok [OF inv pd va f free, of fl]) blast
  have ph: "phys s' (f * PAGE_SIZE + off) = phys s (f * PAGE_SIZE + off)" if "off < PAGE_SIZE" for off
    using s'(4) f that by (simp add: vm_frame_def page_offset)
  have "uread s' k' off = (if k' = k then Some (phys s (f * PAGE_SIZE + off)) else uread s k' off)" if "off < PAGE_SIZE" for k' off
    using uread_upd [OF inv s'(4,3) that] ph [OF that] by simp
  moreover have "uflags s' = (uflags s)(k := Some (eff (canon (fl OR VM_PAGE))))"
    by (rule ext) (simp add: uflags_def s'(3))
  ultimately show thesis using that [of s'] s' ph vm_frame_dir [OF s'(4)] by blast
qed

subsection \<open>Copying from a process\<close>

lemma get_bytes_chunk:
  assumes "umap s (pd, va div PAGE_SIZE) = Some (f, fl)" "va mod PAGE_SIZE + n \<le> PAGE_SIZE"
  shows "get_bytes (f * PAGE_SIZE + va mod PAGE_SIZE) n (phys s) = map (\<lambda>a. the (ubyte s pd a)) [va..<va + n]"
proof (rule nth_equalityI)
  fix i assume "i < length (get_bytes (f * PAGE_SIZE + va mod PAGE_SIZE) n (phys s))"
  then have i: "i < n" by (simp add: get_bytes_def)
  define q r where "q = va div PAGE_SIZE" and "r = va mod PAGE_SIZE"
  have va: "va = q * PAGE_SIZE + r" "r + i < PAGE_SIZE" using assms(2) i by (simp_all add: q_def r_def PAGE_SIZE_def)
  have e: "va + i = q * PAGE_SIZE + (r + i)" using va(1) by simp
  have "(va + i) div PAGE_SIZE = q" "(va + i) mod PAGE_SIZE = r + i"
    unfolding e using va(2) page_offset [of "r + i" q] by simp_all
  then show "get_bytes (f * PAGE_SIZE + va mod PAGE_SIZE) n (phys s) ! i = map (\<lambda>a. the (ubyte s pd a)) [va..<va + n] ! i"
    using assms(1) i by (simp add: get_bytes_def ubyte_def uread_def q_def r_def add.assoc)
qed (simp add: get_bytes_def)

lemma vm_copy_in_ok:
  assumes inv: "vm_inv g x s" and pd: "debug_tag s pd = PAGE_TAG_VM"
  shows "src + n \<le> VIRT_KERNEL_BASE \<Longrightarrow> \<forall>va. src \<le> va \<and> va < src + n \<longrightarrow> ubyte s pd va \<noteq> None \<Longrightarrow>
    vm_copy_in_loop g pd src n dst s = Some (0, dst @ map (\<lambda>va. the (ubyte s pd va)) [src..<src + n])"
proof (induction n arbitrary: src dst rule: less_induct)
  case (less n)
  show ?case
  proof (cases "n = 0")
    case True
    then show ?thesis by (subst vm_copy_in_loop.simps) simp
  next
    case False
    let ?c = "chunk src n"
    have c: "0 < ?c" "?c \<le> n" using chunk_pos False by auto
    have va: "src < VIRT_KERNEL_BASE" using less.prems(1) False by simp
    have "ubyte s pd src \<noteq> None" using less.prems(2) False by simp
    then obtain f fl where k: "umap s (pd, src div PAGE_SIZE) = Some (f, fl)" by (auto simp: ubyte_def uread_def)
    have p: "page2kva g f = Some (f * PAGE_SIZE)" using umap_Some [OF inv k] page2kva_page [OF inv] by blast
    have off: "src mod PAGE_SIZE + ?c \<le> PAGE_SIZE" by (simp add: chunk_def PAGE_SIZE_def)
    have "[src..<src + n] = [src..<src + ?c] @ [src + ?c..<src + n]"
      using c upt_add_eq_append [of src "src + ?c" "n - ?c"] by simp
    moreover have "vm_copy_in_loop g pd (src + ?c) (n - ?c) d s =
        Some (0, d @ map (\<lambda>va. the (ubyte s pd va)) [src + ?c..<src + n])" for d
      using less.IH [of "n - ?c" "src + ?c" d] less.prems c by simp
    ultimately show ?thesis
      by (subst vm_copy_in_loop.simps)
        (use False p in \<open>simp add: vm_page_lookup_ok [OF inv pd va] k get_bytes_chunk [OF k off] Let_def\<close>)
  qed
qed

subsection \<open>Freeing\<close>

lemma uread_remove:
  assumes inv: "vm_inv g x s" and fr: "vm_frame x k s s'" and um: "umap s' = (umap s)(k := None)" and off: "off < PAGE_SIZE"
  shows "uread s' k' off = (if k' = k then None else uread s k' off)"
proof (cases "k' = k \<or> umap s k' = None")
  case False
  then obtain f' fl' where u: "umap s k' = Some (f', fl')" by auto
  then have "debug_tag s f' = PAGE_TAG_ANON" using umap_Some [OF inv u] by blast
  then have "phys s' (f' * PAGE_SIZE + off) = phys s (f' * PAGE_SIZE + off)"
    using fr page_offset [OF off] by (simp add: vm_frame_def)
  with u False show ?thesis by (simp add: uread_def um)
qed (auto simp: uread_def um)

text \<open>The pages of a list of addresses are gone; nothing else changed.\<close>

definition ufreed :: "page_state \<Rightarrow> nat \<Rightarrow> nat set \<Rightarrow> page_state \<Rightarrow> bool" where
  "ufreed s pd V s' \<longleftrightarrow> umap s' = (\<lambda>k. if fst k = pd \<and> snd k \<in> V then None else umap s k) \<and>
     (\<forall>k. \<forall>off<PAGE_SIZE. uread s' k off = (if fst k = pd \<and> snd k \<in> V then None else uread s k off))"

lemma vm_user_free_ok:
  "vm_inv g x s \<Longrightarrow> debug_tag s pd = PAGE_TAG_VM \<Longrightarrow> \<forall>va\<in>set vas. va < VIRT_KERNEL_BASE \<Longrightarrow>
   \<exists>s'. vm_user_free_loop g pd vas s = Some s' \<and> vm_inv g x s' \<and> ufreed s pd ((\<lambda>va. va div PAGE_SIZE) ` set vas) s' \<and>
     free_pages s \<subseteq> free_pages s' \<and> (excl s \<longrightarrow> excl s') \<and> (\<forall>p. debug_tag s p = PAGE_TAG_VM \<longrightarrow> debug_tag s' p = PAGE_TAG_VM) \<and> lossless s s'"
proof (induction vas arbitrary: s)
  case (Cons va vas)
  have va: "va < VIRT_KERNEL_BASE" using Cons.prems(3) by simp
  obtain s1 where s1: "vm_page_remove g pd va s = Some s1" "vm_inv g x s1" "umap s1 = (umap s)((pd, va div PAGE_SIZE) := None)"
      "vm_frame x (pd, va div PAGE_SIZE) s s1" "free_pages s \<subseteq> free_pages s1" "lossless s s1"
    by (rule vm_page_remove_ok [OF Cons.prems(1,2) va])
  have dir: "\<forall>p. debug_tag s p = PAGE_TAG_VM \<longrightarrow> debug_tag s1 p = PAGE_TAG_VM" using vm_frame_dir [OF s1(4)] by blast
  have ex: "excl s1" if "excl s" by (rule excl_upd [OF that s1(3)]) simp
  obtain s' where s': "vm_user_free_loop g pd vas s1 = Some s'" "vm_inv g x s'"
      "ufreed s1 pd ((\<lambda>va. va div PAGE_SIZE) ` set vas) s'" "free_pages s1 \<subseteq> free_pages s'" "excl s1 \<longrightarrow> excl s'"
      "\<forall>p. debug_tag s1 p = PAGE_TAG_VM \<longrightarrow> debug_tag s' p = PAGE_TAG_VM" "lossless s1 s'"
    using Cons.IH [OF s1(2)] dir Cons.prems(2,3) by auto
  have "uread s1 k off = (if k = (pd, va div PAGE_SIZE) then None else uread s k off)" if "off < PAGE_SIZE" for k off
    using uread_remove [OF Cons.prems(1) s1(4,3) that] .
  then have "ufreed s pd ((\<lambda>va. va div PAGE_SIZE) ` set (va # vas)) s'"
    using s'(3) unfolding ufreed_def s1(3) by (auto simp: fun_eq_iff split: if_splits)
  with s1 s' dir ex show ?case using lossless_trans [OF s1(6) s'(7)] by auto
qed (simp add: ufreed_def)

lemma va_range_pages:
  assumes "start mod PAGE_SIZE = 0" "start \<le> limit" "limit mod PAGE_SIZE = 0"
  shows "(\<lambda>va. va div PAGE_SIZE) ` set (va_range start limit) = {start div PAGE_SIZE..<limit div PAGE_SIZE}"
    "va \<in> set (va_range start limit) \<Longrightarrow> va < limit \<and> va mod PAGE_SIZE = 0" "distinct (va_range start limit)"
    "length (va_range start limit) = limit div PAGE_SIZE - start div PAGE_SIZE"
proof -
  obtain a where a: "start = a * PAGE_SIZE" using assms(1) by (metis mod_eq_0_iff_dvd dvdE mult.commute)
  obtain b where b: "limit = b * PAGE_SIZE" using assms(3) by (metis mod_eq_0_iff_dvd dvdE mult.commute)
  have ab: "a \<le> b" using assms(2) by (simp add: a b PAGE_SIZE_def)
  have n: "(limit - start + PAGE_SIZE - 1) div PAGE_SIZE = b - a"
  proof -
    have "limit - start + PAGE_SIZE - 1 = (b - a) * PAGE_SIZE + (PAGE_SIZE - 1)"
      by (simp add: a b PAGE_SIZE_def diff_mult_distrib)
    then show ?thesis by (simp add: PAGE_SIZE_def)
  qed
  have d: "start div PAGE_SIZE = a" "limit div PAGE_SIZE = b" by (simp_all add: a b PAGE_SIZE_def)
  have e: "va_range start limit = map (\<lambda>i. (a + i) * PAGE_SIZE) [0..<b - a]"
    unfolding va_range_def n by (simp add: a add_mult_distrib)
  have i: "(a + i) * PAGE_SIZE div PAGE_SIZE = a + i" for i by (simp add: PAGE_SIZE_def)
  have "(\<lambda>va. va div PAGE_SIZE) ` set (va_range start limit) = (\<lambda>i. a + i) ` {0..<b - a}"
    by (simp add: e image_image i)
  also have "\<dots> = {a..<b}" using ab by (simp add: image_add_atLeastLessThan)
  finally show "(\<lambda>va. va div PAGE_SIZE) ` set (va_range start limit) = {start div PAGE_SIZE..<limit div PAGE_SIZE}"
    by (simp add: d)
  show "va < limit \<and> va mod PAGE_SIZE = 0" if "va \<in> set (va_range start limit)"
    using that unfolding e by (auto simp: b PAGE_SIZE_def)
  show "distinct (va_range start limit)" "length (va_range start limit) = limit div PAGE_SIZE - start div PAGE_SIZE"
    unfolding d by (simp_all add: e distinct_map inj_on_def PAGE_SIZE_def)
qed

subsection \<open>Allocating\<close>

text \<open>The pages hold zeros and have the given permissions; nothing else changed.\<close>

definition ualloced :: "page_state \<Rightarrow> nat \<Rightarrow> nat set \<Rightarrow> u32 \<Rightarrow> page_state \<Rightarrow> bool" where
  "ualloced s pd V fl s' \<longleftrightarrow> (\<forall>k. uflags s' k = (if fst k = pd \<and> snd k \<in> V then Some (eff (canon (fl OR VM_PAGE))) else uflags s k) \<and>
     (\<forall>off<PAGE_SIZE. uread s' k off = (if fst k = pd \<and> snd k \<in> V then Some 0 else uread s k off)) \<and>
     (if fst k = pd \<and> snd k \<in> V then \<exists>f. umap s' k = Some (f, canon (fl OR VM_PAGE)) else umap s' k = umap s k))"

lemma vm_user_alloc_page:
  assumes inv: "vm_inv g (\<lambda>_. 0) s" and pd: "debug_tag s pd = PAGE_TAG_VM" and va: "va < VIRT_KERNEL_BASE"
    and free: "2 \<le> card (free_pages s)"
  obtains p s1 s2 where "page_alloc_one True PAGE_TAG_ANON s = Some (p, s1)" "vm_page_insert g pd p va fl s1 = Some (0, s2)"
    "vm_inv g (\<lambda>_. 0) s2" "ualloced s pd {va div PAGE_SIZE} fl s2" "excl s \<longrightarrow> excl s2"
    "\<forall>p. debug_tag s p = PAGE_TAG_VM \<longrightarrow> debug_tag s2 p = PAGE_TAG_VM" "card (free_pages s) \<le> card (free_pages s2) + 2"
proof -
  let ?k = "(pd, va div PAGE_SIZE)"
  have "free_pages s \<noteq> {}" using free by auto
  then obtain p s1 where s1: "page_alloc_one True PAGE_TAG_ANON s = Some (p, s1)" "vm_inv g (\<lambda>_. 0) s1" "umap s1 = umap s"
      "p < page_count g" "debug_tag s p = 0" "debug_tag s1 = (debug_tag s)(p := PAGE_TAG_ANON)"
      "phys s1 = (\<lambda>a. if a div PAGE_SIZE = p then 0 else phys s a)" "\<And>k. \<not> maps_to p (umap s k)"
      "card (free_pages s) = card (free_pages s1) + 1"
    by (rule alloc_anon [OF inv]) blast
  have t1: "debug_tag s1 pd = PAGE_TAG_VM" "debug_tag s1 p = PAGE_TAG_ANON" "free_pages s1 \<noteq> {}"
    using pd s1(5,6,9) free by (auto simp: page_tag_defs)
  obtain s2 where s2: "vm_page_insert g pd p va fl s1 = Some (0, s2)" "vm_inv g (\<lambda>_. 0) s2"
      "umap s2 = (umap s1)(?k := Some (p, canon (fl OR VM_PAGE)))"
      "\<forall>k' off. off < PAGE_SIZE \<longrightarrow> uread s2 k' off = (if k' = ?k then Some (phys s1 (p * PAGE_SIZE + off)) else uread s1 k' off)"
      "uflags s2 = (uflags s1)(?k := Some (eff (canon (fl OR VM_PAGE))))"
      "\<forall>p. debug_tag s1 p = PAGE_TAG_VM \<longrightarrow> debug_tag s2 p = PAGE_TAG_VM"
      "card (free_pages s1) \<le> card (free_pages s2) + 1"
    by (rule vm_page_insert_view [OF s1(2) t1(1) va t1(2) disjI2 [OF t1(3)], of fl]) blast
  have "uread s1 k off = uread s k off" if "off < PAGE_SIZE" for k off
    by (rule uread_fresh [OF s1(8,3) _ that]) (simp add: s1(7))
  moreover have "uflags s1 = uflags s" using excl_umap(2) [OF s1(3)] .
  ultimately have "ualloced s pd {va div PAGE_SIZE} fl s2"
    using s2(3,4,5) s1(3) by (auto simp: ualloced_def s1(7) page_offset)
  moreover have "excl s2" if "excl s"
  proof -
    have "excl s1" using that excl_umap(1) [OF s1(3)] by simp
    moreover have "lone s2 ?k" using s1(8) by (auto simp: lone_def s2(3) s1(3))
    ultimately show ?thesis using excl_upd [OF _ s2(3)] by blast
  qed
  moreover have "debug_tag s2 q = PAGE_TAG_VM" if "debug_tag s q = PAGE_TAG_VM" for q
    using that s1(5,6) by (intro s2(6) [rule_format]) (auto simp: page_tag_defs)
  ultimately show thesis using that [of p s1 s2] s1(1,9) s2(1,2,7) by simp
qed

lemma ualloced_insert:
  "ualloced s pd {v} fl s1 \<Longrightarrow> ualloced s1 pd V fl s2 \<Longrightarrow> ualloced s pd (insert v V) fl s2"
  by (auto simp: ualloced_def)

lemma vm_user_alloc_ok:
  "vm_inv g (\<lambda>_. 0) s \<Longrightarrow> debug_tag s pd = PAGE_TAG_VM \<Longrightarrow> \<forall>va\<in>set vas. va < VIRT_KERNEL_BASE \<Longrightarrow>
   2 * length vas \<le> card (free_pages s) \<Longrightarrow>
   \<exists>s'. vm_user_alloc_loop g pd start fl vas s = Some (0, s') \<and> vm_inv g (\<lambda>_. 0) s' \<and>
     ualloced s pd ((\<lambda>va. va div PAGE_SIZE) ` set vas) fl s' \<and> (excl s \<longrightarrow> excl s') \<and>
     (\<forall>p. debug_tag s p = PAGE_TAG_VM \<longrightarrow> debug_tag s' p = PAGE_TAG_VM) \<and>
     card (free_pages s) \<le> card (free_pages s') + 2 * length vas"
proof (induction vas arbitrary: s)
  case (Cons va vas)
  have va: "va < VIRT_KERNEL_BASE" and fr: "2 \<le> card (free_pages s)" using Cons.prems(3,4) by simp_all
  obtain p s1 s2 where r: "page_alloc_one True PAGE_TAG_ANON s = Some (p, s1)" "vm_page_insert g pd p va fl s1 = Some (0, s2)"
    "vm_inv g (\<lambda>_. 0) s2" "ualloced s pd {va div PAGE_SIZE} fl s2" "excl s \<longrightarrow> excl s2"
    "\<forall>p. debug_tag s p = PAGE_TAG_VM \<longrightarrow> debug_tag s2 p = PAGE_TAG_VM" "card (free_pages s) \<le> card (free_pages s2) + 2"
    by (rule vm_user_alloc_page [OF Cons.prems(1,2) va fr, of fl]) blast
  have "2 * length vas \<le> card (free_pages s2)" using Cons.prems(4) r(7) by simp
  with Cons.IH [OF r(3) r(6) [rule_format, OF Cons.prems(2)]] Cons.prems(3) obtain s' where
    s': "vm_user_alloc_loop g pd start fl vas s2 = Some (0, s')" "vm_inv g (\<lambda>_. 0) s'"
      "ualloced s2 pd ((\<lambda>va. va div PAGE_SIZE) ` set vas) fl s'" "excl s2 \<longrightarrow> excl s'"
      "\<forall>p. debug_tag s2 p = PAGE_TAG_VM \<longrightarrow> debug_tag s' p = PAGE_TAG_VM"
      "card (free_pages s2) \<le> card (free_pages s') + 2 * length vas" by auto
  have "ualloced s pd ((\<lambda>va. va div PAGE_SIZE) ` set (va # vas)) fl s'"
    using ualloced_insert [OF r(4) s'(3)] by simp
  then show ?case using r s' by simp
qed (simp add: ualloced_def)

subsection \<open>Cloning\<close>

text \<open>The pages \<open>V\<close> of \<open>dst\<close> look like those of \<open>src\<close>; nothing else changed.\<close>

definition ucloned :: "page_state \<Rightarrow> nat \<Rightarrow> nat \<Rightarrow> nat set \<Rightarrow> page_state \<Rightarrow> bool" where
  "ucloned s src dst V s' \<longleftrightarrow> (\<forall>k. uflags s' k = uflags s (if fst k = dst \<and> snd k \<in> V then (src, snd k) else k) \<and>
     (\<forall>off<PAGE_SIZE. uread s' k off = uread s (if fst k = dst \<and> snd k \<in> V then (src, snd k) else k) off))"

lemma ucloned_insert:
  "src \<noteq> dst \<Longrightarrow> ucloned s src dst {v} s1 \<Longrightarrow> ucloned s1 src dst V s2 \<Longrightarrow> ucloned s src dst (insert v V) s2"
  unfolding ucloned_def by (auto split: if_splits)

text \<open>Marking a writable page of the parent.\<close>

lemma clone_mark:
  assumes inv: "vm_inv g (\<lambda>_. 0) s" and ex: "excl s" and pd: "debug_tag s src = PAGE_TAG_VM" and va: "va < VIRT_KERNEL_BASE"
    and k: "umap s (src, va div PAGE_SIZE) = Some (f, fl)" "bit fl 1"
  defines "fl' \<equiv> (fl AND NOT VM_WRITE) OR VM_COW"
  obtains s' where "vm_page_insert g src f va fl' s = Some (0, s')" "vm_inv g (\<lambda>_. 0) s'" "excl s'" "same_view s s'"
    "umap s' = (umap s)((src, va div PAGE_SIZE) := Some (f, fl'))" "\<forall>p. debug_tag s p = PAGE_TAG_VM \<longrightarrow> debug_tag s' p = PAGE_TAG_VM"
    "debug_tag s' f = PAGE_TAG_ANON" "card (free_pages s) \<le> card (free_pages s')"
proof -
  let ?k = "(src, va div PAGE_SIZE)"
  obtain fl0 where u: "debug_tag s f = PAGE_TAG_ANON" "bit fl0 6" "fl = canon fl0" using umap_Some [OF inv k(1)] by blast
  have tab: "table s src (va div PAGE_SIZE div 1024) \<noteq> None" using umap_table [OF k(1)] by auto
  have cn: "canon (fl' OR VM_PAGE) = fl'" unfolding fl'_def by (rule canon_id(2) [OF u(3,2)])
  obtain s' where s': "vm_page_insert g src f va fl' s = Some (0, s')" "vm_inv g (\<lambda>_. 0) s'"
      "umap s' = (umap s)(?k := Some (f, canon (fl' OR VM_PAGE)))"
      "\<forall>k' off. off < PAGE_SIZE \<longrightarrow> uread s' k' off = (if k' = ?k then Some (phys s (f * PAGE_SIZE + off)) else uread s k' off)"
      "uflags s' = (uflags s)(?k := Some (eff (canon (fl' OR VM_PAGE))))" "debug_tag s' f = PAGE_TAG_ANON"
      "\<forall>p. debug_tag s p = PAGE_TAG_VM \<longrightarrow> debug_tag s' p = PAGE_TAG_VM"
      "table s src (va div PAGE_SIZE div 1024) \<noteq> None \<longrightarrow> free_pages s \<subseteq> free_pages s'"
    by (rule vm_page_insert_view [OF inv pd va u(1) disjI1 [OF tab], of fl']) blast
  have "excl s'"
  proof (rule excl_upd [OF ex s'(3)], rule disjI1)
    show "lone s' ?k"
      using excl_lone [OF ex k] k(1) by (auto simp: lone_def s'(3))
  qed
  moreover have "same_view s s'"
    unfolding same_view_def
  proof (intro conjI allI impI)
    fix k' off assume "off < PAGE_SIZE"
    then show "uread s' k' off = uread s k' off" using s'(4) k(1) by (auto simp: uread_def)
  next
    show "uflags s' = uflags s"
      unfolding s'(5) cn using eff_cow [OF k(2)] k(1) by (auto simp: uflags_def fl'_def)
  qed
  moreover have "card (free_pages s) \<le> card (free_pages s')" using s'(8) tab by (intro card_mono) auto
  ultimately show thesis using that [of s'] s' cn by simp
qed

lemma clone_enter:
  assumes inv: "vm_inv g (\<lambda>_. 0) s" and ex: "excl s" and dst: "debug_tag s dst = PAGE_TAG_VM" and va: "va < VIRT_KERNEL_BASE"
    and k: "umap s (src, va div PAGE_SIZE) = Some (f, fl)" "\<not> bit fl 1" and ne: "src \<noteq> dst" and free: "free_pages s \<noteq> {}"
  obtains s' where "vm_page_insert g dst f va fl s = Some (0, s')" "vm_inv g (\<lambda>_. 0) s'" "excl s'"
    "ucloned s src dst {va div PAGE_SIZE} s'" "\<forall>p. debug_tag s p = PAGE_TAG_VM \<longrightarrow> debug_tag s' p = PAGE_TAG_VM"
    "card (free_pages s) \<le> card (free_pages s') + 1"
    "umap s' = (umap s)((dst, va div PAGE_SIZE) := Some (f, fl))"
proof -
  let ?k = "(dst, va div PAGE_SIZE)"
  obtain fl0 where u: "debug_tag s f = PAGE_TAG_ANON" "bit fl0 6" "fl = canon fl0" using umap_Some [OF inv k(1)] by blast
  have cn: "canon (fl OR VM_PAGE) = fl" by (rule canon_id(1) [OF u(3,2)])
  obtain s' where s': "vm_page_insert g dst f va fl s = Some (0, s')" "vm_inv g (\<lambda>_. 0) s'"
      "umap s' = (umap s)(?k := Some (f, canon (fl OR VM_PAGE)))"
      "\<forall>k' off. off < PAGE_SIZE \<longrightarrow> uread s' k' off = (if k' = ?k then Some (phys s (f * PAGE_SIZE + off)) else uread s k' off)"
      "uflags s' = (uflags s)(?k := Some (eff (canon (fl OR VM_PAGE))))"
      "\<forall>p. debug_tag s p = PAGE_TAG_VM \<longrightarrow> debug_tag s' p = PAGE_TAG_VM"
      "card (free_pages s) \<le> card (free_pages s') + 1"
    by (rule vm_page_insert_view [OF inv dst va u(1) disjI2 [OF free], of fl]) blast
  have "\<not> bit fl1 1" if "umap s k1 = Some (f, fl1)" for k1 fl1
  proof
    assume "bit fl1 1"
    from excl_lone [OF ex that this] that k(1) have "(src, va div PAGE_SIZE) = k1" by (auto simp: lone_def)
    with that k \<open>bit fl1 1\<close> show False by auto
  qed
  then have "excl s'" using excl_upd [OF ex s'(3)] cn k(2) by auto
  moreover have "ucloned s src dst {va div PAGE_SIZE} s'"
    unfolding ucloned_def using s'(4,5) k(1) by (auto simp: uread_def uflags_def cn)
  ultimately show thesis using that [of s'] s' cn by simp
qed

lemma ucloned_view: "same_view s s1 \<Longrightarrow> ucloned s1 src dst V s' \<Longrightarrow> ucloned s src dst V s'"
  by (simp add: same_view_def ucloned_def)

lemma vm_user_clone_page:
  assumes inv: "vm_inv g (\<lambda>_. 0) s" and ex: "excl s" and src: "debug_tag s src = PAGE_TAG_VM" and dst: "debug_tag s dst = PAGE_TAG_VM"
    and va: "va < VIRT_KERNEL_BASE" and k: "uflags s (src, va div PAGE_SIZE) \<noteq> None" and ne: "src \<noteq> dst" and free: "free_pages s \<noteq> {}"
  obtains s' where "\<And>vas. vm_user_clone_loop g src dst False (va # vas) s = vm_user_clone_loop g src dst False vas s'"
    "vm_inv g (\<lambda>_. 0) s'" "excl s'" "ucloned s src dst {va div PAGE_SIZE} s'"
    "\<forall>p. debug_tag s p = PAGE_TAG_VM \<longrightarrow> debug_tag s' p = PAGE_TAG_VM" "card (free_pages s) \<le> card (free_pages s') + 1"
proof -
  obtain f fl where m: "umap s (src, va div PAGE_SIZE) = Some (f, fl)" using k by (auto simp: uflags_def)
  note l = vm_page_lookup_ok [OF inv src va]
  show thesis
  proof (cases "bit fl 1")
    case True
    define fl' where "fl' = (fl AND NOT VM_WRITE) OR VM_COW"
    obtain s1 where s1: "vm_page_insert g src f va fl' s = Some (0, s1)" "vm_inv g (\<lambda>_. 0) s1" "excl s1" "same_view s s1"
        "umap s1 = (umap s)((src, va div PAGE_SIZE) := Some (f, fl'))" "\<forall>p. debug_tag s p = PAGE_TAG_VM \<longrightarrow> debug_tag s1 p = PAGE_TAG_VM"
        "card (free_pages s) \<le> card (free_pages s1)"
      unfolding fl'_def by (rule clone_mark [OF inv ex src va m True])
    have "\<not> bit fl' 1" by (simp add: fl'_def bit_or_iff bit_and_not)
    moreover have "free_pages s1 \<noteq> {}" using s1(7) free by auto
    moreover have "umap s1 (src, va div PAGE_SIZE) = Some (f, fl')" by (simp add: s1(5))
    ultimately obtain s' where s': "vm_page_insert g dst f va fl' s1 = Some (0, s')" "vm_inv g (\<lambda>_. 0) s'" "excl s'"
        "ucloned s1 src dst {va div PAGE_SIZE} s'" "\<forall>p. debug_tag s1 p = PAGE_TAG_VM \<longrightarrow> debug_tag s' p = PAGE_TAG_VM"
        "card (free_pages s1) \<le> card (free_pages s') + 1"
      using clone_enter [OF s1(2,3) _ va, of dst src f fl'] dst s1(6) ne by metis
    have "vm_user_clone_loop g src dst False (va # vas) s = vm_user_clone_loop g src dst False vas s'" for vas
      using l m True s1(1) s'(1) by (simp add: pte_tests fl'_def)
    then show thesis using that [of s'] s'(2,3,5,6) s1(6,7) ucloned_view [OF s1(4) s'(4)] by auto
  next
    case False
    obtain s' where s': "vm_page_insert g dst f va fl s = Some (0, s')" "vm_inv g (\<lambda>_. 0) s'" "excl s'"
        "ucloned s src dst {va div PAGE_SIZE} s'" "\<forall>p. debug_tag s p = PAGE_TAG_VM \<longrightarrow> debug_tag s' p = PAGE_TAG_VM"
        "card (free_pages s) \<le> card (free_pages s') + 1"
      by (rule clone_enter [OF inv ex dst va m False ne free])
    have "vm_user_clone_loop g src dst False (va # vas) s = vm_user_clone_loop g src dst False vas s'" for vas
      using l m False s'(1) by (simp add: pte_tests)
    then show thesis using that [of s'] s' by blast
  qed
qed

lemma vm_user_clone_ok:
  "vm_inv g (\<lambda>_. 0) s \<Longrightarrow> excl s \<Longrightarrow> debug_tag s src = PAGE_TAG_VM \<Longrightarrow> debug_tag s dst = PAGE_TAG_VM \<Longrightarrow> src \<noteq> dst \<Longrightarrow>
   \<forall>va\<in>set vas. va < VIRT_KERNEL_BASE \<and> uflags s (src, va div PAGE_SIZE) \<noteq> None \<Longrightarrow> length vas \<le> card (free_pages s) \<Longrightarrow>
   \<exists>s'. vm_user_clone_loop g src dst False vas s = Some (0, s') \<and> vm_inv g (\<lambda>_. 0) s' \<and> excl s' \<and>
     ucloned s src dst ((\<lambda>va. va div PAGE_SIZE) ` set vas) s' \<and>
     (\<forall>p. debug_tag s p = PAGE_TAG_VM \<longrightarrow> debug_tag s' p = PAGE_TAG_VM) \<and>
     card (free_pages s) \<le> card (free_pages s') + length vas"
proof (induction vas arbitrary: s)
  case (Cons va vas)
  have va: "va < VIRT_KERNEL_BASE" "uflags s (src, va div PAGE_SIZE) \<noteq> None" "free_pages s \<noteq> {}"
    using Cons.prems(6,7) by auto
  obtain s1 where s1: "\<And>vas. vm_user_clone_loop g src dst False (va # vas) s = vm_user_clone_loop g src dst False vas s1"
      "vm_inv g (\<lambda>_. 0) s1" "excl s1" "ucloned s src dst {va div PAGE_SIZE} s1"
      "\<forall>p. debug_tag s p = PAGE_TAG_VM \<longrightarrow> debug_tag s1 p = PAGE_TAG_VM" "card (free_pages s) \<le> card (free_pages s1) + 1"
    using vm_user_clone_page [OF Cons.prems(1-4) va(1,2) Cons.prems(5) va(3)] by metis
  have "\<forall>va\<in>set vas. va < VIRT_KERNEL_BASE \<and> uflags s1 (src, va div PAGE_SIZE) \<noteq> None"
    using s1(4) Cons.prems(5,6) by (auto simp: ucloned_def)
  moreover have "length vas \<le> card (free_pages s1)" using s1(6) Cons.prems(7) by simp
  ultimately obtain s' where s': "vm_user_clone_loop g src dst False vas s1 = Some (0, s')" "vm_inv g (\<lambda>_. 0) s'" "excl s'"
      "ucloned s1 src dst ((\<lambda>va. va div PAGE_SIZE) ` set vas) s'" "\<forall>p. debug_tag s1 p = PAGE_TAG_VM \<longrightarrow> debug_tag s' p = PAGE_TAG_VM"
      "card (free_pages s1) \<le> card (free_pages s') + length vas"
    using Cons.IH [OF s1(2,3)] Cons.prems(3-5) s1(5) by blast
  have "ucloned s src dst ((\<lambda>va. va div PAGE_SIZE) ` set (va # vas)) s'"
    using ucloned_insert [OF Cons.prems(5) s1(4) s'(4)] by simp
  moreover have "card (free_pages s) \<le> card (free_pages s') + length (va # vas)" using s1(6) s'(6) by simp
  ultimately show ?case using s1(1,5) s'(1,2,3,5) by metis
qed (simp add: ucloned_def)

end
