(* ===== verification/Vm_Space.thy ===== *)
theory Vm_Space
  imports Vm_Ops
begin

section \<open>Creating and destroying address spaces\<close>

text \<open>
  The life of a page directory (\<open>arch_vm_create\<close>, \<open>arch_vm_destroy\<close>) and the areas of an address
  space (\<open>kernel/process/vmspace.c\<close>).
\<close>

subsection \<open>New directories\<close>

lemma copy_pdes_other_frame:
  "\<forall>i\<in>set is. i < 1024 \<Longrightarrow> a div PAGE_SIZE \<noteq> dst \<Longrightarrow> copy_pdes is src dst m a = m a"
  by (induction "is" arbitrary: m) (simp_all add: store32_frame)

lemma copy_pdes_other_entry:
  "\<forall>i\<in>set is. i < 1024 \<Longrightarrow> j < 1024 \<Longrightarrow> j \<notin> set is \<Longrightarrow>
   load32 (copy_pdes is src dst m) (dst * PAGE_SIZE + 4 * j) = load32 m (dst * PAGE_SIZE + 4 * j)"
  by (induction "is" arbitrary: m) (auto simp: load32_store32_frame)

lemma vm_inv_new_dir:
  assumes inv: "vm_inv g x s" and p: "debug_tag s p = 0" "p < page_count g"
    and s': "page_inv (page_count g) s'" "debug_tag s' = (debug_tag s)(p := PAGE_TAG_VM)" "ref_count s' = (ref_count s)(p := 1)"
      "\<forall>a. a div PAGE_SIZE \<noteq> p \<longrightarrow> phys s' a = phys s a" "\<forall>i<USER_PDES. pde_at s' p i = 0"
  shows "vm_inv g x s'" "umap s' = umap s"
proof -
  have np: "p \<notin> tframes s" using tframes_tag [OF inv, of p] p(1) by (auto simp: page_tag_defs)
  have tp: "table s' p i = None" if "i < USER_PDES" for i using s'(5) that by (simp add: table_def)
  have pde: "pde_at s' pd i = pde_at s pd i" if "debug_tag s pd = PAGE_TAG_VM" "i < USER_PDES" for pd i
  proof -
    have "pd \<noteq> p" using that(1) p(1) by (auto simp: page_tag_defs)
    then show ?thesis unfolding pde_at_def using s'(4) that(2) by (intro load32_frame) (auto simp: USER_PDES_def)
  qed
  then have tab: "table s' pd i = table s pd i" if "debug_tag s pd = PAGE_TAG_VM" "i < USER_PDES" for pd i
    using that by (simp add: table_def)
  have ent: "entry s' k = entry s k" if k: "k \<in> ukeys s" for k
  proof (cases k)
    case (Pair pd vpn)
    with k have i: "debug_tag s pd = PAGE_TAG_VM" "vpn div 1024 < USER_PDES" using ukeys_idx by auto
    have "load32 (phys s') (q * PAGE_SIZE + 4 * (vpn mod 1024)) = load32 (phys s) (q * PAGE_SIZE + 4 * (vpn mod 1024))"
      if "table s pd (vpn div 1024) = Some q" for q
    proof -
      have "q \<noteq> p" using that i np by (auto simp: tframes_def)
      then show ?thesis using s'(4) by (intro load32_frame) auto
    qed
    then show ?thesis using tab [OF i] Pair by (auto simp: entry_def split: option.splits)
  qed
  have new: "entry s' (p, vpn) = 0" if "vpn < USER_PAGES" for vpn
  proof -
    have "vpn div 1024 < USER_PDES" using that by (auto simp: USER_PAGES_def USER_PDES_def)
    then show ?thesis using tp by (simp add: entry_def)
  qed
  have uk: "ukeys s' = ukeys s \<union> {p} \<times> {..<USER_PAGES}" by (auto simp: ukeys_def s'(2))
  have pk: "(p, vpn) \<notin> ukeys s" for vpn using p(1) by (simp add: ukeys_def page_tag_defs)
  show um: "umap s' = umap s"
  proof
    fix k show "umap s' k = umap s k"
      using ent [of k] new pk by (cases k) (auto simp: umap_def uk)
  qed
  have keep: "debug_tag s' q = debug_tag s q" "ref_count s' q = ref_count s q" if "debug_tag s q \<noteq> 0" for q
    using that p(1) by (auto simp: s'(2,3))
  have "dirs_ok (page_count g) s'"
    unfolding dirs_ok_def
  proof (intro allI impI)
    fix pd i assume "debug_tag s' pd = PAGE_TAG_VM"
    then consider "pd = p" | "pd \<noteq> p" "debug_tag s pd = PAGE_TAG_VM" by (auto simp: s'(2) split: if_splits)
    then show "pd < page_count g \<and> ref_count s' pd = 1 \<and> (i < USER_PDES \<longrightarrow> pde_at s' pd i = 0 \<or>
        (\<exists>q<page_count g. pde_at s' pd i = mk_pde q \<and> debug_tag s' q = PAGE_TAG_PGTAB \<and> ref_count s' q = 1))"
    proof cases
      case 1
      then show ?thesis using p(2) s'(3,5) by simp
    next
      case 2
      then have "pd < page_count g \<and> ref_count s pd = 1 \<and> (i < USER_PDES \<longrightarrow> pde_at s pd i = 0 \<or>
          (\<exists>q<page_count g. pde_at s pd i = mk_pde q \<and> debug_tag s q = PAGE_TAG_PGTAB \<and> ref_count s q = 1))"
        using inv by (simp add: vm_inv_def dirs_ok_def)
      moreover have "debug_tag s' q = PAGE_TAG_PGTAB \<and> ref_count s' q = ref_count s q" if "debug_tag s q = PAGE_TAG_PGTAB" for q
        using keep [of q] that by (simp add: page_tag_defs)
      moreover have "ref_count s' pd = ref_count s pd" using 2(1) by (simp add: s'(3))
      ultimately show ?thesis using pde [OF 2(2), of i] by metis
    qed
  qed
  moreover have "tables_distinct s'"
    unfolding tables_distinct_def
  proof (intro allI impI, elim conjE)
    fix pd i pd' i' q assume a: "debug_tag s' pd = PAGE_TAG_VM" "debug_tag s' pd' = PAGE_TAG_VM" "i < USER_PDES" "i' < USER_PDES"
      "table s' pd i = Some q" "table s' pd' i' = Some q"
    then have "pd \<noteq> p" "pd' \<noteq> p" using tp by auto
    then have "debug_tag s pd = PAGE_TAG_VM" "debug_tag s pd' = PAGE_TAG_VM" using a(1,2) by (simp_all add: s'(2))
    moreover from this have "table s pd i = Some q" "table s pd' i' = Some q" using a(3-6) tab by simp_all
    ultimately show "pd = pd' \<and> i = i'" using a(3,4) inv unfolding vm_inv_def tables_distinct_def by blast
  qed
  moreover have "entries_ok (page_count g) s'"
    unfolding entries_ok_def uk
  proof
    fix k assume "k \<in> ukeys s \<union> {p} \<times> {..<USER_PAGES}"
    then consider "k \<in> ukeys s" | vpn where "k = (p, vpn)" "vpn < USER_PAGES" by auto
    then show "entry s' k = 0 \<or> (\<exists>f<page_count g. \<exists>fl. entry s' k = mk_pte f fl \<and> bit fl 6 \<and> debug_tag s' f = PAGE_TAG_ANON)"
    proof cases
      case 1
      then have "entry s k = 0 \<or> (\<exists>f<page_count g. \<exists>fl. entry s k = mk_pte f fl \<and> bit fl 6 \<and> debug_tag s f = PAGE_TAG_ANON)"
        using inv by (simp add: vm_inv_def entries_ok_def)
      moreover have "debug_tag s' f = PAGE_TAG_ANON" if "debug_tag s f = PAGE_TAG_ANON" for f
        using keep(1) [of f] that by (simp add: page_tag_defs)
      ultimately show ?thesis unfolding ent [OF 1] by blast
    qed (simp add: new)
  qed
  moreover have "refs_ok (page_count g) x s'"
    using inv p(1) by (auto simp: vm_inv_def refs_ok_def uses_def um s'(2,3) page_tag_defs)
  ultimately show "vm_inv g x s'" using inv s'(1) p(1) by (auto simp: vm_inv_def s'(2) page_tag_defs)
qed

lemma arch_vm_create_ok:
  assumes inv: "vm_inv g x s" and free: "free_pages s \<noteq> {}"
  obtains pd s' where "arch_vm_create g s = Some (pd, s')" "vm_inv g x s'" "umap s' = umap s" "debug_tag s pd = 0"
    "debug_tag s' = (debug_tag s)(pd := PAGE_TAG_VM)" "\<forall>a. a div PAGE_SIZE \<noteq> pd \<longrightarrow> phys s' a = phys s a"
    "pd \<in> free_pages s" "free_pages s' = free_pages s - {pd}"
proof -
  have pi: "page_inv (page_count g) s" using inv by (simp add: vm_inv_def)
  obtain p s1 where s1: "page_alloc_one True PAGE_TAG_VM s = Some (p, s1)" "page_inv (page_count g) s1" "p \<in> free_pages s"
      "p < page_count g" "free_pages s1 = free_pages s - {p}" "debug_tag s1 = (debug_tag s)(p := PAGE_TAG_VM)"
      "ref_count s1 = ref_count s" "phys s1 = (\<lambda>a. if a div PAGE_SIZE = p then 0 else phys s a)"
    by (rule page_alloc_one_ok [OF pi free, of True PAGE_TAG_VM]) simp
  note fp = vm_inv_free [OF inv s1(3)]
  define js where "js = [PGDIR_IDX VIRT_KERNEL_BASE..<PGDIR_NR_ENTRIES]"
  have "PGDIR_IDX VIRT_KERNEL_BASE = 512" by (simp add: PGDIR_IDX_def VIRT_KERNEL_BASE_def)
  then have js: "\<forall>i\<in>set js. i < 1024" "\<And>i. i < USER_PDES \<Longrightarrow> i \<notin> set js"
    by (simp_all only: js_def set_upt atLeastLessThan_iff USER_PDES_def PGDIR_NR_ENTRIES_def) auto
  define s' where "s' = (page_inc_ref p s1)\<lparr>phys := copy_pdes js (kernel_pgdir g) p (phys s1)\<rparr>"
  have "page_inv (page_count g) (page_inc_ref p s1)" "free_pages (page_inc_ref p s1) = free_pages s1"
    unfolding page_inc_ref_def using s1(2,5) by (intro page_inv_ref; auto simp: page_inv_def unused_def)+
  then have st: "page_inv (page_count g) s'" "debug_tag s' = (debug_tag s)(p := PAGE_TAG_VM)" "ref_count s' = (ref_count s)(p := 1)"
      "free_pages s' = free_pages s - {p}"
    using s1(5,6,7) fp(2) by (simp_all add: s'_def page_inv_phys page_inc_ref_def)
  have ph: "\<forall>a. a div PAGE_SIZE \<noteq> p \<longrightarrow> phys s' a = phys s a"
    by (simp add: s'_def copy_pdes_other_frame [OF js(1)] s1(8))
  have "pde_at s' p i = 0" if "i < USER_PDES" for i
  proof -
    have "load32 (phys s1) (p * PAGE_SIZE + 4 * i) = 0"
      using that frame_div by (intro load32_zero) (auto simp: s1(8) USER_PDES_def)
    then show ?thesis using that
      using copy_pdes_other_entry [OF js(1) _ js(2) [OF that]] by (simp add: pde_at_def s'_def USER_PDES_def)
  qed
  then have "vm_inv g x s'" "umap s' = umap s" using vm_inv_new_dir [OF inv fp(1) s1(4) st(1-3) ph] by simp_all
  moreover have "arch_vm_create g s = Some (p, s')"
    using s1(1) page2kva_page [OF inv s1(4)] by (simp add: arch_vm_create_def s'_def js_def [symmetric] page_inc_ref_def)
  ultimately show thesis using that [of p s'] st(2,4) ph fp(1) s1(3) by simp
qed

subsection \<open>Destroying a directory\<close>

text \<open>While the tables of a directory are freed one by one its entries dangle.  The proof looks at the state
  in which the directory already does not count as one.\<close>

definition hide :: "nat \<Rightarrow> page_state \<Rightarrow> page_state" where
  "hide pd s = s\<lparr>debug_tag := (debug_tag s)(pd := PAGE_TAG_KERNEL_VM)\<rparr>"

lemma hide_simps [simp]: "phys (hide pd s) = phys s" "ref_count (hide pd s) = ref_count s"
  "table (hide pd s) = table s" "entry (hide pd s) = entry s"
  "pde_at (hide pd s) = pde_at s"
  by (auto simp: hide_def table_def pde_at_def entry_def fun_eq_iff)

lemma hide_tag: "debug_tag (hide pd s) p = (if p = pd then PAGE_TAG_KERNEL_VM else debug_tag s p)"
  by (simp add: hide_def)

lemma hide_inv:
  assumes inv: "vm_inv g x s" and pd: "debug_tag s pd = PAGE_TAG_VM" and none: "\<forall>vpn. umap s (pd, vpn) = None"
  shows "vm_inv g x (hide pd s)" "umap (hide pd s) = umap s"
proof -
  have uk: "ukeys (hide pd s) = {k \<in> ukeys s. fst k \<noteq> pd}" by (auto simp: ukeys_def hide_tag page_tag_defs split: if_splits)
  show um: "umap (hide pd s) = umap s"
  proof
    fix k show "umap (hide pd s) k = umap s k"
      using none [rule_format, of "snd k"] by (cases k) (auto simp: umap_def uk split: if_splits)
  qed
  have vm: "debug_tag (hide pd s) p = PAGE_TAG_VM \<longleftrightarrow> p \<noteq> pd \<and> debug_tag s p = PAGE_TAG_VM" for p
    by (simp add: hide_tag page_tag_defs)
  have pt: "debug_tag (hide pd s) p = t \<longleftrightarrow> debug_tag s p = t" if "t \<in> {PAGE_TAG_PGTAB, PAGE_TAG_ANON}" for p t
    using pd that by (auto simp: hide_tag page_tag_defs)
  have "pd \<notin> free_pages s" using inv pd page_inv_tagged by (auto simp: vm_inv_def page_tag_defs)
  then have "page_inv (page_count g) (hide pd s)"
    using inv unfolding hide_def by (intro page_inv_tags) (auto simp: vm_inv_def page_inv_def unused_def)
  moreover have "dirs_ok (page_count g) (hide pd s)"
    using inv unfolding vm_inv_def dirs_ok_def vm by (simp add: pt)
  moreover have "tables_distinct (hide pd s)"
    using inv unfolding vm_inv_def tables_distinct_def vm hide_simps by blast
  moreover have "entries_ok (page_count g) (hide pd s)"
    using inv unfolding vm_inv_def entries_ok_def uk hide_simps by (simp add: pt)
  moreover have "refs_ok (page_count g) x (hide pd s)"
    using inv unfolding vm_inv_def refs_ok_def uses_def um by (simp add: pt)
  moreover have "debug_tag (hide pd s) (kernel_pgdir g) = PAGE_TAG_KERNEL_VM" using inv by (simp add: hide_tag vm_inv_def)
  ultimately show "vm_inv g x (hide pd s)" using inv by (simp add: vm_inv_def)
qed

lemma tframes_hide: "tframes (hide pd s) = {p. p \<noteq> pd \<and> debug_tag s p = PAGE_TAG_VM \<or>
     (\<exists>d i. d \<noteq> pd \<and> debug_tag s d = PAGE_TAG_VM \<and> i < USER_PDES \<and> table s d i = Some p)}"
  by (auto simp: tframes_def hide_tag page_tag_defs)

text \<open>A table of the directory that can be freed.\<close>

definition dead_table :: "vm_globals \<Rightarrow> nat \<Rightarrow> page_state \<Rightarrow> nat \<Rightarrow> bool" where
  "dead_table g pd s q \<longleftrightarrow> q < page_count g \<and> debug_tag s q = PAGE_TAG_PGTAB \<and> ref_count s q = 1 \<and> q \<notin> tframes (hide pd s) \<and>
     (\<forall>j<1024. \<not> bit (load32 (phys s) (q * PAGE_SIZE + 4 * j)) 0)"

lemma free_table_ok:
  assumes pi: "page_inv (page_count g) s" and inv: "vm_inv g x (hide pd s)" and pd: "debug_tag s pd = PAGE_TAG_VM"
    and q: "dead_table g pd s q"
  obtains s' where "page_dec_ref q 0 s = Some s'" "page_inv (page_count g) s'" "vm_inv g x (hide pd s')"
    "umap (hide pd s') = umap (hide pd s)" "free_pages s' = free_pages s \<union> {q}" "phys s' = phys s"
    "debug_tag s' = (debug_tag s)(q := 0)" "ref_count s' = (ref_count s)(q := 0)"
proof -
  have qt: "q < page_count g" "debug_tag s q = PAGE_TAG_PGTAB" "ref_count s q = 1" "q \<notin> tframes (hide pd s)"
    using q by (auto simp: dead_table_def)
  have nz: "debug_tag s q \<noteq> 0" "0 < ref_count s q" using qt by (simp_all add: page_tag_defs)
  obtain s' where s': "page_dec_ref q 0 s = Some s'" "page_inv (page_count g) s'"
      "free_pages s' = free_pages s \<union> {q}" "debug_tag s' = (debug_tag s)(q := 0)" "ref_count s' = (ref_count s)(q := 0)" "phys s' = phys s"
    by (rule drop_ref [OF pi qt(1) nz]) (simp add: qt(3) page_dec_ref_def page_free_one_def)
  have "pd \<noteq> q" using pd qt(2) by (auto simp: page_tag_defs)
  then have np: "pd \<notin> free_pages s'"
    using page_inv_tagged [OF s'(2), of pd] pd by (simp add: s'(4) page_tag_defs)
  have "vm_inv g x (hide pd s') \<and> umap (hide pd s') = umap (hide pd s)"
  proof (rule vm_inv_cong [OF inv])
    show "page_inv (page_count g) (hide pd s')"
      unfolding hide_def using s'(2) np by (intro page_inv_tags) (auto simp: page_inv_def unused_def)
    show "debug_tag (hide pd s') (kernel_pgdir g) = PAGE_TAG_KERNEL_VM"
      using inv qt(2) by (auto simp: hide_tag s'(4) vm_inv_def page_tag_defs split: if_splits)
    show "\<forall>p. (debug_tag (hide pd s') p = PAGE_TAG_VM) = (debug_tag (hide pd s) p = PAGE_TAG_VM)"
      using qt(2) by (simp add: hide_tag s'(4) page_tag_defs)
    show "\<forall>p. p \<in> tframes (hide pd s) \<longrightarrow>
        debug_tag (hide pd s') p = debug_tag (hide pd s) p \<and> ref_count (hide pd s') p = ref_count (hide pd s) p"
      using qt(4) by (auto simp: hide_tag s'(4,5))
    show "\<forall>k f fl. umap (hide pd s) k = Some (f, fl) \<longrightarrow> debug_tag (hide pd s') f = PAGE_TAG_ANON"
    proof (intro allI impI)
      fix k f fl assume "umap (hide pd s) k = Some (f, fl)"
      then have "debug_tag (hide pd s) f = PAGE_TAG_ANON" using umap_Some [OF inv] by blast
      then show "debug_tag (hide pd s') f = PAGE_TAG_ANON" using qt(2) by (auto simp: hide_tag s'(4) page_tag_defs split: if_splits)
    qed
    show "\<forall>f. debug_tag (hide pd s') f = PAGE_TAG_ANON \<longrightarrow>
        f < page_count g \<and> 0 \<le> x f \<and> ref_count (hide pd s') f = uses (hide pd s) f + x f"
    proof (intro allI impI)
      fix f assume "debug_tag (hide pd s') f = PAGE_TAG_ANON"
      then have "debug_tag (hide pd s) f = PAGE_TAG_ANON" "f \<noteq> q" by (auto simp: hide_tag s'(4) page_tag_defs split: if_splits)
      then show "f < page_count g \<and> 0 \<le> x f \<and> ref_count (hide pd s') f = uses (hide pd s) f + x f"
        using inv by (simp add: vm_inv_def refs_ok_def s'(5))
    qed
  qed (simp add: s'(6))
  then show thesis using that [of s'] s' by simp
qed

definition dead_tables :: "nat list \<Rightarrow> nat \<Rightarrow> page_state \<Rightarrow> nat set" where
  "dead_tables is pd s = {q. \<exists>i\<in>set is. table s pd i = Some q}"

lemma dead_pde:
  assumes "vm_inv g x s'" "pde_at s pd i = 0 \<or> (\<exists>q. table s pd i = Some q \<and> pde_at s pd i = mk_pde q \<and> dead_table g pd s q)"
    "pde_at s pd i \<noteq> 0"
  obtains q where "table s pd i = Some q" "dead_table g pd s q" "unat (PTE_BASE (pde_at s pd i)) = q * PAGE_SIZE"
proof -
  obtain q where q: "table s pd i = Some q" "pde_at s pd i = mk_pde q" "dead_table g pd s q" using assms(2,3) by blast
  then have "q < page_count g" by (simp add: dead_table_def)
  then show thesis using that q mk_pde_simps(1) [OF vm_inv_N [OF assms(1)]] by simp
qed

lemma destroy_tables_ok:
  "page_inv (page_count g) s \<Longrightarrow> vm_inv g x (hide pd s) \<Longrightarrow> debug_tag s pd = PAGE_TAG_VM \<Longrightarrow>
   \<forall>i\<in>set is. pde_at s pd i = 0 \<or> (\<exists>q. table s pd i = Some q \<and> pde_at s pd i = mk_pde q \<and> dead_table g pd s q) \<Longrightarrow>
   distinct is \<Longrightarrow> \<forall>i\<in>set is. \<forall>j\<in>set is. \<forall>q. table s pd i = Some q \<and> table s pd j = Some q \<longrightarrow> i = j \<Longrightarrow>
   \<exists>s'. destroy_tables g is pd s = Some s' \<and> page_inv (page_count g) s' \<and> vm_inv g x (hide pd s') \<and>
     umap (hide pd s') = umap (hide pd s) \<and> free_pages s' = free_pages s \<union> dead_tables is pd s \<and> phys s' = phys s \<and>
     debug_tag s' pd = PAGE_TAG_VM \<and> ref_count s' pd = ref_count s pd \<and>
     (\<forall>p. debug_tag s p \<noteq> PAGE_TAG_PGTAB \<longrightarrow> debug_tag s' p = debug_tag s p)"
proof (induction "is" arbitrary: s)
  case Nil
  then show ?case by (simp add: dead_tables_def)
next
  case (Cons i "is")
  have at: "load32 (phys s) (pd * PAGE_SIZE + 4 * i) = pde_at s pd i" by (simp add: pde_at_def)
  show ?case
  proof (cases "pde_at s pd i = 0")
    case True
    then have "table s pd i = None" by (simp add: table_def)
    then have d: "dead_tables (i # is) pd s = dead_tables is pd s" by (auto simp: dead_tables_def)
    have e: "destroy_tables g (i # is) pd s = destroy_tables g is pd s" using True at by simp
    show ?thesis unfolding d e
      by (rule Cons.IH [OF Cons.prems(1-3)]) (use Cons.prems(4-6) in simp_all)
  next
    case False
    obtain q where q: "table s pd i = Some q" "dead_table g pd s q" "unat (PTE_BASE (pde_at s pd i)) = q * PAGE_SIZE"
      by (rule dead_pde [OF Cons.prems(2) _ False]) (use Cons.prems(4) in auto)
    have qt: "q < page_count g" "debug_tag s q = PAGE_TAG_PGTAB" "ref_count s q = 1"
        "\<forall>j<1024. \<not> bit (load32 (phys s) (q * PAGE_SIZE + 4 * j)) 0"
      using q(2) by (simp_all add: dead_table_def)
    obtain s1 where s1: "page_dec_ref q 0 s = Some s1" "page_inv (page_count g) s1" "vm_inv g x (hide pd s1)"
        "umap (hide pd s1) = umap (hide pd s)" "free_pages s1 = free_pages s \<union> {q}" "phys s1 = phys s"
        "debug_tag s1 = (debug_tag s)(q := 0)" "ref_count s1 = (ref_count s)(q := 0)"
      by (rule free_table_ok [OF Cons.prems(1-3) q(2)])
    have ne: "pd \<noteq> q" using Cons.prems(3) qt(2) by (auto simp: page_tag_defs)
    have tb: "table s1 = table s" "pde_at s1 = pde_at s" by (auto simp: fun_eq_iff table_def pde_at_def s1(6))
    have "debug_tag s1 p = PAGE_TAG_VM \<longleftrightarrow> debug_tag s p = PAGE_TAG_VM" for p
      using qt(2) by (simp add: s1(7) page_tag_defs)
    then have tf: "tframes (hide pd s1) = tframes (hide pd s)" by (simp add: tframes_hide tb)
    have "dead_table g pd s1 q'" if "dead_table g pd s q'" "q' \<noteq> q" for q'
      using that by (simp add: dead_table_def s1(6,7,8) tf)
    moreover have "table s pd j \<noteq> Some q" if "j \<in> set is" for j
      using that Cons.prems(5,6) q(1) by auto
    ultimately have "\<forall>i\<in>set is. pde_at s1 pd i = 0 \<or> (\<exists>q. table s1 pd i = Some q \<and> pde_at s1 pd i = mk_pde q \<and> dead_table g pd s1 q)"
      unfolding tb using Cons.prems(4) by (metis list.set_intros(2))
    moreover have "debug_tag s1 pd = PAGE_TAG_VM" using Cons.prems(3) ne by (simp add: s1(7))
    moreover have "distinct is" "\<forall>i\<in>set is. \<forall>j\<in>set is. \<forall>q. table s1 pd i = Some q \<and> table s1 pd j = Some q \<longrightarrow> i = j"
      using Cons.prems(5,6) by (simp_all add: tb)
    ultimately obtain s' where s': "destroy_tables g is pd s1 = Some s'" "page_inv (page_count g) s'"
        "vm_inv g x (hide pd s')" "umap (hide pd s') = umap (hide pd s1)" "free_pages s' = free_pages s1 \<union> dead_tables is pd s1"
        "phys s' = phys s1" "debug_tag s' pd = PAGE_TAG_VM" "ref_count s' pd = ref_count s1 pd"
        "\<forall>p. debug_tag s1 p \<noteq> PAGE_TAG_PGTAB \<longrightarrow> debug_tag s' p = debug_tag s1 p"
      using Cons.IH [OF s1(2,3)] by blast
    have valid: "\<not> arch_vm_pte_valid (q * PAGE_SIZE + 4 * j) s" if "j < PGTAB_NR_ENTRIES" for j
      using qt(4) that by (simp add: pte_tests PGTAB_NR_ENTRIES_def)
    have "destroy_tables g (i # is) pd s = Some s'"
      using False at q(3) pa2page_page [OF qt(1)] page_assert_anon [OF qt(2)] qt(3) page2kva_page [OF Cons.prems(2) qt(1)] s1(1) s'(1) valid
      by (simp add: PGTAB_NR_ENTRIES_def [symmetric])
    moreover have "free_pages s' = free_pages s \<union> dead_tables (i # is) pd s"
      using q(1) by (auto simp: s'(5) s1(5) dead_tables_def tb)
    moreover have "debug_tag s' p = debug_tag s p" if "debug_tag s p \<noteq> PAGE_TAG_PGTAB" for p
    proof -
      have "p \<noteq> q" using that qt(2) by auto
      then show ?thesis using s'(9) that by (simp add: s1(7))
    qed
    ultimately show ?thesis using s' s1 ne by simp
  qed
qed


lemma arch_vm_destroy_ok:
  assumes inv: "vm_inv g x s" and pd: "debug_tag s pd = PAGE_TAG_VM" and none: "\<forall>vpn. umap s (pd, vpn) = None"
  obtains s' where "arch_vm_destroy g pd s = Some s'" "vm_inv g x s'" "umap s' = umap s" "phys s' = phys s"
    "free_pages s' = free_pages s \<union> {pd} \<union> {q. \<exists>i<USER_PDES. table s pd i = Some q}"
    "\<forall>p. p \<noteq> pd \<and> debug_tag s p \<noteq> PAGE_TAG_PGTAB \<longrightarrow> debug_tag s' p = debug_tag s p" "debug_tag s' pd = 0"
proof -
  note h = hide_inv [OF inv pd none]
  define js where "js = [0..<PGDIR_IDX VIRT_KERNEL_BASE]"
  have si: "set js = {..<USER_PDES}" "distinct js"
    by (auto simp: js_def PGDIR_IDX_def VIRT_KERNEL_BASE_def USER_PDES_def simp del: upt_conv_Cons)
  have pi: "page_inv (page_count g) s" using inv by (simp add: vm_inv_def)
  have rd: "pd < page_count g" "ref_count s pd = 1" using inv pd by (auto simp: vm_inv_def dirs_ok_def)
  have dead: "pde_at s pd i = 0 \<or> (\<exists>q. table s pd i = Some q \<and> pde_at s pd i = mk_pde q \<and> dead_table g pd s q)"
    if i: "i \<in> set js" for i
  proof (cases "table s pd i")
    case None
    then show ?thesis using table_None [OF inv pd _ None] i si by simp
  next
    case (Some q)
    have iU: "i < USER_PDES" using i si by simp
    note t = table_Some [OF inv pd iU Some]
    have "q \<notin> tframes (hide pd s)"
    proof
      assume "q \<in> tframes (hide pd s)"
      then consider "debug_tag s q = PAGE_TAG_VM"
        | d j where "d \<noteq> pd" "debug_tag s d = PAGE_TAG_VM" "j < USER_PDES" "table s d j = Some q"
        by (auto simp: tframes_hide)
      then show False
      proof cases
        case 1
        then show False using t(3) by (simp add: page_tag_defs)
      next
        case 2
        then show False using inv pd iU Some unfolding vm_inv_def tables_distinct_def by blast
      qed
    qed
    moreover have "\<not> bit (load32 (phys s) (q * PAGE_SIZE + 4 * j)) 0" if "j < 1024" for j
    proof -
      let ?vpn = "i * 1024 + j"
      have v: "?vpn div 1024 = i" "?vpn mod 1024 = j" "?vpn < USER_PAGES"
        using that iU by (simp_all add: USER_PDES_def USER_PAGES_def)
      then have e: "entry s (pd, ?vpn) = load32 (phys s) (q * PAGE_SIZE + 4 * j)" using Some by (simp add: entry_def)
      have k: "(pd, ?vpn) \<in> ukeys s" using pd v(3) by (simp add: ukeys_def)
      have "entry s (pd, ?vpn) = 0 \<or> (\<exists>f<page_count g. \<exists>fl. entry s (pd, ?vpn) = mk_pte f fl \<and> bit fl 6)"
        using inv k by (auto simp: vm_inv_def entries_ok_def)
      moreover have "\<not> (bit (entry s (pd, ?vpn)) 0 \<and> bit (entry s (pd, ?vpn)) 10)"
        using none [rule_format, of ?vpn] k by (auto simp: umap_def split: if_splits)
      ultimately show ?thesis using mk_pte_simps(3,4) vm_inv_N [OF inv] unfolding e by force
    qed
    ultimately show ?thesis using Some t by (auto simp: dead_table_def)
  qed
  have dist: "\<forall>i\<in>set js. \<forall>j\<in>set js. \<forall>q. table s pd i = Some q \<and> table s pd j = Some q \<longrightarrow> i = j"
    using inv pd unfolding si vm_inv_def tables_distinct_def by blast
  obtain s1 where s1: "destroy_tables g js pd s = Some s1" "page_inv (page_count g) s1" "vm_inv g x (hide pd s1)"
      "umap (hide pd s1) = umap (hide pd s)" "free_pages s1 = free_pages s \<union> dead_tables js pd s" "phys s1 = phys s"
      "debug_tag s1 pd = PAGE_TAG_VM" "ref_count s1 pd = 1" "\<forall>p. debug_tag s p \<noteq> PAGE_TAG_PGTAB \<longrightarrow> debug_tag s1 p = debug_tag s p"
    using destroy_tables_ok [OF pi h(1) pd _ si(2) dist] dead rd(2) by auto
  have pos: "debug_tag s1 pd \<noteq> 0" "0 < ref_count s1 pd" using s1(7,8) by (simp_all add: page_tag_defs)
  obtain s' where s': "page_free_one pd (s1\<lparr>ref_count := (ref_count s1)(pd := ref_count s1 pd - 1)\<rparr>) = Some s'"
      "page_inv (page_count g) s'" "free_pages s' = free_pages s1 \<union> {pd}" "debug_tag s' = (debug_tag s1)(pd := 0)"
      "ref_count s' = (ref_count s1)(pd := 0)" "phys s' = phys s1"
    by (rule drop_ref [OF s1(2) rd(1) pos]) (simp add: s1(8))
  have "vm_inv g x s' \<and> umap s' = umap (hide pd s1)"
  proof (rule vm_inv_cong [OF s1(3) s'(2)])
    have npd: "kernel_pgdir g \<noteq> pd" using inv pd by (auto simp: vm_inv_def page_tag_defs)
    show "debug_tag s' (kernel_pgdir g) = PAGE_TAG_KERNEL_VM"
      using s1(3) npd by (simp add: s'(4) vm_inv_def hide_tag)
    show "\<forall>p. (debug_tag s' p = PAGE_TAG_VM) = (debug_tag (hide pd s1) p = PAGE_TAG_VM)"
      by (simp add: s'(4) hide_tag page_tag_defs)
    show "\<forall>a. a div PAGE_SIZE \<in> tframes (hide pd s1) \<longrightarrow> phys s' a = phys (hide pd s1) a" by (simp add: s'(6))
    show "\<forall>p. p \<in> tframes (hide pd s1) \<longrightarrow>
        debug_tag s' p = debug_tag (hide pd s1) p \<and> ref_count s' p = ref_count (hide pd s1) p"
    proof (intro allI impI)
      fix p assume "p \<in> tframes (hide pd s1)"
      with tframes_tag [OF s1(3), of p] have "p \<noteq> pd" by (auto simp: hide_tag page_tag_defs)
      then show "debug_tag s' p = debug_tag (hide pd s1) p \<and> ref_count s' p = ref_count (hide pd s1) p"
        by (simp add: s'(4,5) hide_tag)
    qed
    show "\<forall>k f fl. umap (hide pd s1) k = Some (f, fl) \<longrightarrow> debug_tag s' f = PAGE_TAG_ANON"
    proof (intro allI impI)
      fix k f fl assume "umap (hide pd s1) k = Some (f, fl)"
      then have "debug_tag (hide pd s1) f = PAGE_TAG_ANON" using umap_Some [OF s1(3)] by blast
      then show "debug_tag s' f = PAGE_TAG_ANON" by (auto simp: s'(4) hide_tag page_tag_defs split: if_splits)
    qed
    show "\<forall>f. debug_tag s' f = PAGE_TAG_ANON \<longrightarrow> f < page_count g \<and> 0 \<le> x f \<and> ref_count s' f = uses (hide pd s1) f + x f"
    proof (intro allI impI)
      fix f assume "debug_tag s' f = PAGE_TAG_ANON"
      then have "debug_tag (hide pd s1) f = PAGE_TAG_ANON" "f \<noteq> pd" by (auto simp: s'(4) hide_tag page_tag_defs split: if_splits)
      then show "f < page_count g \<and> 0 \<le> x f \<and> ref_count s' f = uses (hide pd s1) f + x f"
        using s1(3) by (simp add: vm_inv_def refs_ok_def s'(5))
    qed
  qed
  moreover have "arch_vm_destroy g pd s = Some s'"
    using s1(1) pa2page_page [OF rd(1)] page_assert_anon [OF s1(7)] s1(8) s'(1) by (simp add: arch_vm_destroy_def js_def)
  moreover have "free_pages s' = free_pages s \<union> {pd} \<union> {q. \<exists>i<USER_PDES. table s pd i = Some q}"
    by (auto simp: s'(3) s1(5) dead_tables_def si)
  moreover have "\<forall>p. p \<noteq> pd \<and> debug_tag s p \<noteq> PAGE_TAG_PGTAB \<longrightarrow> debug_tag s' p = debug_tag s p"
    using s1(9) by (simp add: s'(4))
  ultimately show thesis using that [of s'] s1(4,6) s'(4,6) h(2) by simp
qed

end
