(* ===== verification/Vm_Areas.thy ===== *)
theory Vm_Areas
  imports Vm_Space
begin

section \<open>Areas of an address space\<close>

text \<open>
  Models \<open>kernel/process/vmspace.c\<close>.  The list of areas is a list; whether the object pools can
  deliver a new object is an argument, a list with one answer per request.  A process is named by
  its address space.
\<close>

record vm_area =
  start :: nat
  alength :: nat
  aflags :: u32

record vm_space =
  pgtab :: nat
  areas :: "vm_area list"

definition area_end :: "vm_area \<Rightarrow> nat" where
  "area_end a = start a + alength a"

definition vm_space_create :: "vm_globals \<Rightarrow> bool \<Rightarrow> page_state \<Rightarrow> (vm_space option \<times> page_state) option" where
  "vm_space_create g ok s =
     (if \<not> ok then Some (None, s)
      else do {
        (pd, s) \<leftarrow> arch_vm_create g s;
        Some (Some \<lparr>pgtab = pd, areas = []\<rparr>, s)
      })"

fun free_areas :: "vm_globals \<Rightarrow> nat \<Rightarrow> vm_area list \<Rightarrow> page_state \<Rightarrow> page_state option" where
  "free_areas g pd [] s = Some s"
| "free_areas g pd (area # as) s = do {
     s \<leftarrow> vm_user_free g pd (start area) (alength area) s;
     free_areas g pd as s
   }"

definition vm_space_destroy :: "vm_globals \<Rightarrow> vm_space \<Rightarrow> page_state \<Rightarrow> page_state option" where
  "vm_space_destroy g vm s = do {
     s \<leftarrow> free_areas g (pgtab vm) (areas vm) s;
     arch_vm_destroy g (pgtab vm) s
   }"

fun clone_areas ::
  "vm_globals \<Rightarrow> nat \<Rightarrow> bool \<Rightarrow> bool list \<Rightarrow> vm_area list \<Rightarrow> vm_space \<Rightarrow> page_state \<Rightarrow> (vm_space option \<times> page_state) option" where
  "clone_areas g src share oks [] new_vm s = Some (Some new_vm, s)"
| "clone_areas g src share oks (area # as) new_vm s =
     (if oks = [] \<or> \<not> hd oks then do {
        s \<leftarrow> vm_space_destroy g new_vm s;
        Some (None, s)
      } else do {
        let new_vm = new_vm\<lparr>areas := areas new_vm @ [area]\<rparr>;
        (r, s) \<leftarrow> vm_user_clone g src (pgtab new_vm) (start area) (alength area) share s;
        if r < 0 then do {
          s \<leftarrow> vm_space_destroy g new_vm s;
          Some (None, s)
        } else clone_areas g src share (tl oks) as new_vm s
      })"

definition vm_space_clone ::
  "vm_globals \<Rightarrow> vm_space \<Rightarrow> bool \<Rightarrow> bool \<Rightarrow> bool list \<Rightarrow> page_state \<Rightarrow> (vm_space option \<times> page_state) option" where
  "vm_space_clone g vm share ok oks s = do {
     (new_vm, s) \<leftarrow> vm_space_create g ok s;
     case new_vm of
       None \<Rightarrow> Some (None, s)
     | Some new_vm \<Rightarrow> clone_areas g (pgtab vm) share oks (areas vm) new_vm s
   }"

text \<open>The place for a new area: the address, the areas before it and those behind it.\<close>

fun find_gap :: "nat \<Rightarrow> nat \<Rightarrow> vm_area list \<Rightarrow> vm_area list \<Rightarrow> nat \<times> vm_area list \<times> vm_area list" where
  "find_gap va n before [] = (va, before, [])"
| "find_gap va n before (area # as) =
     (if va + n \<le> start area then (va, before, area # as)
      else find_gap (if va < area_end area then area_end area else va) n (before @ [area]) as)"

definition can_merge_prev :: "nat \<Rightarrow> u32 \<Rightarrow> vm_area list \<Rightarrow> bool" where
  "can_merge_prev va flags before \<longleftrightarrow> before \<noteq> [] \<and> area_end (last before) = va \<and> aflags (last before) = flags"

definition can_merge_next :: "nat \<Rightarrow> u32 \<Rightarrow> vm_area list \<Rightarrow> bool" where
  "can_merge_next limit flags behind \<longleftrightarrow> behind \<noteq> [] \<and> start (hd behind) = limit \<and> aflags (hd behind) = flags"

definition enter_area :: "nat \<Rightarrow> nat \<Rightarrow> u32 \<Rightarrow> vm_area list \<Rightarrow> vm_area list \<Rightarrow> bool \<Rightarrow> vm_area list option" where
  "enter_area va n flags before behind ok =
     (if can_merge_prev va flags before \<and> can_merge_next (va + n) flags behind
      then Some (butlast before @ [(last before)\<lparr>alength := alength (last before) + alength (hd behind) + n\<rparr>] @ tl behind)
      else if can_merge_prev va flags before
      then Some (butlast before @ [(last before)\<lparr>alength := alength (last before) + n\<rparr>] @ behind)
      else if can_merge_next (va + n) flags behind
      then Some (before @ [(hd behind)\<lparr>start := va\<rparr>] @ tl behind)
      else if ok then Some (before @ [\<lparr>start = va, alength = n, aflags = flags\<rparr>] @ behind)
      else None)"

text \<open>The sums do not wrap around here: both sides are at most \<open>VIRT_KERNEL_BASE\<close>.\<close>

definition vmspace_map ::
  "vm_globals \<Rightarrow> vm_space \<Rightarrow> nat \<Rightarrow> nat \<Rightarrow> u32 \<Rightarrow> bool \<Rightarrow> page_state \<Rightarrow> (int \<times> vm_space \<times> page_state) option" where
  "vmspace_map g vm addr n flags ok s =
     (let va = (if addr \<noteq> 0 then round_up_page addr else PAGE_SIZE);
          n = round_up_page n
      in if va \<ge> VIRT_KERNEL_BASE \<or> wrap32 (va + n) > VIRT_KERNEL_BASE \<or> wrap32 (va + n) \<le> va
         then Some (- EINVAL, vm, s)
         else let (va, before, behind) = find_gap va n [] (areas vm)
              in if va + n > VIRT_KERNEL_BASE then Some (- ENOMEM, vm, s)
                 else do {
                   (r, s) \<leftarrow> vm_user_alloc g (pgtab vm) va n flags s;
                   if r < 0 then do {
                     s \<leftarrow> vm_user_free g (pgtab vm) va n s;
                     Some (r, vm, s)
                   }
                   else case enter_area va n flags before behind ok of
                     Some as \<Rightarrow> Some (int va, vm\<lparr>areas := as\<rparr>, s)
                   | None \<Rightarrow> do {
                       s \<leftarrow> vm_user_free g (pgtab vm) va n s;
                       Some (- ENOMEM, vm, s)
                     }
                 })"

text \<open>Copying between the kernel and a process; an address of the kernel names its own memory.\<close>

definition vm_space_copy_out :: "vm_globals \<Rightarrow> vm_space option \<Rightarrow> u8 list \<Rightarrow> nat \<Rightarrow> page_state \<Rightarrow> (int \<times> page_state) option" where
  "vm_space_copy_out g process src dst_va s =
     (if wrap32 (dst_va + length src) < dst_va then Some (- EFAULT, s)
      else if dst_va > VIRT_KERNEL_BASE
      then Some (0, s\<lparr>phys := put_bytes (dst_va - VIRT_KERNEL_BASE) src (phys s)\<rparr>)
      else do {
        vm \<leftarrow> process;
        vm_copy_out g (pgtab vm) src dst_va s
      })"

definition vm_space_copy_in :: "vm_globals \<Rightarrow> vm_space option \<Rightarrow> nat \<Rightarrow> nat \<Rightarrow> page_state \<Rightarrow> (int \<times> u8 list) option" where
  "vm_space_copy_in g process src_va n s =
     (if wrap32 (src_va + n) < src_va then Some (- EFAULT, [])
      else if src_va > VIRT_KERNEL_BASE then Some (0, get_bytes (src_va - VIRT_KERNEL_BASE) n (phys s))
      else do {
        vm \<leftarrow> process;
        vm_copy_in g (pgtab vm) src_va n s
      })"

definition vm_space_clear :: "vm_globals \<Rightarrow> vm_space \<Rightarrow> nat \<Rightarrow> nat \<Rightarrow> page_state \<Rightarrow> (int \<times> page_state) option" where
  "vm_space_clear g current va n s =
     (if wrap32 (va + n) < va then Some (- EFAULT, s)
      else if va > VIRT_KERNEL_BASE then Some (0, s\<lparr>phys := memset (va - VIRT_KERNEL_BASE) 0 n (phys s)\<rparr>)
      else vm_clear g (pgtab current) va n s)"

subsection \<open>The invariant\<close>

text \<open>The areas are page-aligned, not empty, in order and do not overlap.\<close>

fun areas_ok :: "nat \<Rightarrow> vm_area list \<Rightarrow> bool" where
  "areas_ok lo [] \<longleftrightarrow> True"
| "areas_ok lo (a # as) \<longleftrightarrow> lo \<le> start a \<and> start a mod PAGE_SIZE = 0 \<and> alength a mod PAGE_SIZE = 0 \<and> 0 < alength a \<and>
     area_end a \<le> VIRT_KERNEL_BASE \<and> areas_ok (area_end a) as"

definition last_end :: "nat \<Rightarrow> vm_area list \<Rightarrow> nat" where
  "last_end lo as = (if as = [] then lo else area_end (last as))"

definition apages :: "vm_area \<Rightarrow> nat set" where
  "apages a = {start a div PAGE_SIZE..<area_end a div PAGE_SIZE}"

definition covered :: "vm_area list \<Rightarrow> nat set" where
  "covered as = (\<Union>a\<in>set as. apages a)"

text \<open>The pages that are mapped are those of the areas.\<close>

definition space_ok :: "page_state \<Rightarrow> vm_space \<Rightarrow> bool" where
  "space_ok s vm \<longleftrightarrow> debug_tag s (pgtab vm) = PAGE_TAG_VM \<and> areas_ok 0 (areas vm) \<and>
     (\<forall>vpn. uflags s (pgtab vm, vpn) \<noteq> None \<longleftrightarrow> vpn \<in> covered (areas vm))"

lemma last_end_simps [simp]: "last_end lo [] = lo" "last_end lo (as @ [a]) = area_end a"
  by (simp_all add: last_end_def)

lemma areas_ok_append: "areas_ok lo (xs @ ys) \<longleftrightarrow> areas_ok lo xs \<and> areas_ok (last_end lo xs) ys"
proof (induction xs arbitrary: lo)
  case (Cons a xs)
  have "last_end (area_end a) xs = last_end lo (a # xs)" by (auto simp: last_end_def)
  with Cons show ?case by auto
qed simp

lemma areas_ok_mono: "areas_ok lo as \<Longrightarrow> lo' \<le> lo \<Longrightarrow> areas_ok lo' as"
  by (cases as) auto

lemma covered_simps [simp]: "covered [] = {}" "covered (a # as) = apages a \<union> covered as" "covered (xs @ ys) = covered xs \<union> covered ys"
  by (auto simp: covered_def)

lemma areas_ok_member:
  "areas_ok lo as \<Longrightarrow> a \<in> set as \<Longrightarrow> start a mod PAGE_SIZE = 0 \<and> alength a mod PAGE_SIZE = 0 \<and> 0 < alength a \<and> area_end a \<le> VIRT_KERNEL_BASE"
  by (induction as arbitrary: lo) auto

lemma aligned_sum: "a mod PAGE_SIZE = 0 \<Longrightarrow> b mod PAGE_SIZE = 0 \<Longrightarrow> (a + b) mod PAGE_SIZE = 0"
  by (metis add.right_neutral mod_add_eq mod_0)

lemma find_gap_ok:
  assumes "areas_ok lo as" "va mod PAGE_SIZE = 0" "find_gap va n xs as = (va', before, behind)" "lo \<le> va"
  shows "\<exists>ys. before = xs @ ys \<and> as = ys @ behind \<and> va \<le> va' \<and> va' mod PAGE_SIZE = 0 \<and> last_end lo ys \<le> va' \<and>
     (behind = [] \<or> va' + n \<le> start (hd behind)) \<and> va' \<le> max va VIRT_KERNEL_BASE"
  using assms
proof (induction as arbitrary: lo va xs)
  case (Cons a as)
  note ok = Cons.prems(1)
  have ea: "area_end a mod PAGE_SIZE = 0" using ok by (simp add: area_end_def aligned_sum)
  show ?case
  proof (cases "va + n \<le> start a")
    case True
    with Cons.prems show ?thesis by (intro exI [of _ "[]"]) auto
  next
    case False
    define v where "v = (if va < area_end a then area_end a else va)"
    have f: "find_gap v n (xs @ [a]) as = (va', before, behind)" using False Cons.prems(3) by (simp add: v_def)
    have v: "v mod PAGE_SIZE = 0" "area_end a \<le> v" "va \<le> v" "max v VIRT_KERNEL_BASE \<le> max va VIRT_KERNEL_BASE"
      using ea Cons.prems(2) ok by (auto simp: v_def)
    have "areas_ok (area_end a) as" using ok by simp
    from Cons.IH [OF this v(1) f v(2)] obtain ys where ys: "before = (xs @ [a]) @ ys" "as = ys @ behind" "v \<le> va'" "va' mod PAGE_SIZE = 0"
        "last_end (area_end a) ys \<le> va'" "behind = [] \<or> va' + n \<le> start (hd behind)" "va' \<le> max v VIRT_KERNEL_BASE"
      by (elim exE conjE) (rule that)
    have "last_end lo (a # ys) = last_end (area_end a) ys" by (auto simp: last_end_def)
    with ys v show ?thesis by (intro exI [of _ "a # ys"]) auto
  qed
qed auto

lemma last_end_ge: "areas_ok lo as \<Longrightarrow> lo \<le> last_end lo as"
proof (induction as arbitrary: lo)
  case (Cons a as)
  then have "lo \<le> area_end a" "area_end a \<le> last_end (area_end a) as" by (auto simp: area_end_def)
  then show ?case by (auto simp: last_end_def split: if_splits)
qed simp

lemma covered_below: "areas_ok lo as \<Longrightarrow> vpn \<in> covered as \<Longrightarrow> lo div PAGE_SIZE \<le> vpn \<and> vpn < last_end lo as div PAGE_SIZE"
proof (induction as arbitrary: lo)
  case (Cons a as)
  then have a: "lo \<le> start a" "start a \<le> area_end a" "areas_ok (area_end a) as" by (auto simp: area_end_def)
  have le: "area_end a \<le> last_end (area_end a) as" by (rule last_end_ge [OF a(3)])
  have l: "last_end lo (a # as) = last_end (area_end a) as" by (auto simp: last_end_def)
  note d = div_le_mono [OF a(1), of PAGE_SIZE] div_le_mono [OF a(2), of PAGE_SIZE] div_le_mono [OF le, of PAGE_SIZE]
  from Cons.prems(2) show ?case
    unfolding covered_simps
  proof
    assume "vpn \<in> apages a"
    then have v: "start a div PAGE_SIZE \<le> vpn" "vpn < area_end a div PAGE_SIZE" by (simp_all add: apages_def)
    show ?thesis unfolding l using order_trans [OF d(1) v(1)] less_le_trans [OF v(2) d(3)] by (rule conjI)
  next
    assume "vpn \<in> covered as"
    note v = Cons.IH [OF a(3) this]
    show ?thesis unfolding l using order_trans [OF order_trans [OF d(1,2)] v [THEN conjunct1]] v [THEN conjunct2] by (rule conjI)
  qed
qed simp

lemma aligned_le: "a mod PAGE_SIZE = 0 \<Longrightarrow> b mod PAGE_SIZE = 0 \<Longrightarrow> a div PAGE_SIZE \<le> b div PAGE_SIZE \<longleftrightarrow> a \<le> b"
  by (metis div_le_mono div_mult_mod_eq add.right_neutral mult_le_mono1)

lemma atLeastLessThan_join: "a \<le> b \<Longrightarrow> b \<le> c \<Longrightarrow> {a..<b} \<union> {b..<c} = {a..<c}" for a b c :: nat
  by auto

text \<open>A gap between two runs of areas, and what entering an area there does.\<close>

definition gap_at :: "nat \<Rightarrow> nat \<Rightarrow> vm_area list \<Rightarrow> vm_area list \<Rightarrow> bool" where
  "gap_at va n before behind \<longleftrightarrow> va mod PAGE_SIZE = 0 \<and> n mod PAGE_SIZE = 0 \<and> 0 < n \<and> va + n \<le> VIRT_KERNEL_BASE \<and>
     last_end 0 before \<le> va \<and> (behind = [] \<or> va + n \<le> start (hd behind))"

lemma gap_free:
  assumes ok: "areas_ok 0 (before @ behind)" and gap: "gap_at va n before behind"
  shows "{va div PAGE_SIZE..<(va + n) div PAGE_SIZE} \<inter> covered (before @ behind) = {}"
proof -
  have "vpn \<notin> covered (before @ behind)" if v: "va div PAGE_SIZE \<le> vpn" "vpn < (va + n) div PAGE_SIZE" for vpn
  proof
    assume c: "vpn \<in> covered (before @ behind)"
    show False
    proof (cases "vpn \<in> covered before")
      case True
      have o: "areas_ok 0 before" using ok by (simp add: areas_ok_append)
      have "last_end 0 before div PAGE_SIZE \<le> va div PAGE_SIZE" using gap by (intro div_le_mono) (simp add: gap_at_def)
      with covered_below [OF o True] v show False by (metis le_less_trans le_trans less_irrefl not_less)
    next
      case False
      then have b: "vpn \<in> covered behind" using c by simp
      then have ne: "behind \<noteq> []" by auto
      then have "areas_ok (start (hd behind)) behind" using ok by (cases behind) (auto simp: areas_ok_append)
      from covered_below [OF this b] have "start (hd behind) div PAGE_SIZE \<le> vpn" by simp
      moreover have "(va + n) div PAGE_SIZE \<le> start (hd behind) div PAGE_SIZE" using gap ne by (intro div_le_mono) (simp add: gap_at_def)
      ultimately show False using v by (metis le_trans not_less)
    qed
  qed
  then show ?thesis by (auto simp del: covered_simps)
qed

lemma enter_area_ok:
  assumes ok: "areas_ok 0 (before @ behind)" and gap: "gap_at va n before behind"
    and grow: "can_merge_next (va + n) fl behind \<longrightarrow> can_merge_prev va fl before"
    and e: "enter_area va n fl before behind b = Some as"
  shows "areas_ok 0 as \<and> covered as = covered (before @ behind) \<union> {va div PAGE_SIZE..<(va + n) div PAGE_SIZE}"
proof -
  have g: "va mod PAGE_SIZE = 0" "n mod PAGE_SIZE = 0" "0 < n" "va + n \<le> VIRT_KERNEL_BASE" "last_end 0 before \<le> va"
      "behind = [] \<or> va + n \<le> start (hd behind)"
    using gap by (simp_all add: gap_at_def)
  have vn: "va div PAGE_SIZE \<le> (va + n) div PAGE_SIZE" by (simp add: div_le_mono)
  show ?thesis
  proof (cases "can_merge_prev va fl before")
    case True
    obtain xs p where before: "before = xs @ [p]" using True by (metis can_merge_prev_def append_butlast_last_id)
    have p: "area_end p = va" using True by (simp add: can_merge_prev_def before)
    have o: "areas_ok 0 xs" "last_end 0 xs \<le> start p" "start p mod PAGE_SIZE = 0" "alength p mod PAGE_SIZE = 0" "0 < alength p"
        "areas_ok va behind" using ok by (simp_all add: before areas_ok_append p)
    have ps: "start p div PAGE_SIZE \<le> va div PAGE_SIZE" using p by (intro div_le_mono) (simp add: area_end_def)
    show ?thesis
    proof (cases "can_merge_next (va + n) fl behind")
      case True
      obtain q ys where behind: "behind = q # ys" using True by (metis can_merge_next_def list.collapse)
      have q: "start q = va + n" using True by (simp add: can_merge_next_def behind)
      define r where "r = p\<lparr>alength := alength p + alength q + n\<rparr>"
      have as: "as = xs @ [r] @ ys" using e True \<open>can_merge_prev va fl before\<close> by (simp add: enter_area_def before behind r_def)
      have r: "start r = start p" "alength r = alength p + (n + alength q)" "area_end r = area_end q"
        using p q by (simp_all add: r_def area_end_def)
      have oq: "areas_ok (area_end q) ys" "alength q mod PAGE_SIZE = 0" "area_end q \<le> VIRT_KERNEL_BASE" using o(6) by (simp_all add: behind)
      have "alength r mod PAGE_SIZE = 0" unfolding r(2) by (intro aligned_sum o(4) g(2) oq(2))
      then have "areas_ok 0 as" using o(1-3) r oq \<open>0 < alength p\<close> by (simp add: as areas_ok_append)
      moreover have qs: "(va + n) div PAGE_SIZE \<le> area_end q div PAGE_SIZE" using q by (intro div_le_mono) (simp add: area_end_def)
      have "apages r = apages p \<union> {va div PAGE_SIZE..<(va + n) div PAGE_SIZE} \<union> apages q"
        unfolding apages_def r p q using atLeastLessThan_join [OF ps vn] atLeastLessThan_join [OF order_trans [OF ps vn] qs] by simp
      then have "covered as = covered (before @ behind) \<union> {va div PAGE_SIZE..<(va + n) div PAGE_SIZE}"
        unfolding as before behind by auto
      ultimately show ?thesis ..
    next
      case False
      define r where "r = p\<lparr>alength := alength p + n\<rparr>"
      have as: "as = xs @ [r] @ behind" using e False True \<open>can_merge_prev va fl before\<close> by (simp add: enter_area_def before r_def)
      have r: "start r = start p" "alength r = alength p + n" "area_end r = va + n"
        using p by (simp_all add: r_def area_end_def)
      have "alength r mod PAGE_SIZE = 0" unfolding r(2) by (intro aligned_sum o(4) g(2))
      moreover have "areas_ok (va + n) behind" using o(6) g(6) by (cases behind) auto
      ultimately have "areas_ok 0 as" using o(1-3) r g(4) \<open>0 < alength p\<close> by (simp add: as areas_ok_append)
      moreover have "apages r = apages p \<union> {va div PAGE_SIZE..<(va + n) div PAGE_SIZE}"
        unfolding apages_def r p using atLeastLessThan_join [OF ps vn] by simp
      then have "covered as = covered (before @ behind) \<union> {va div PAGE_SIZE..<(va + n) div PAGE_SIZE}"
        unfolding as before by auto
      ultimately show ?thesis ..
    qed
  next
    case False
    define r where "r = \<lparr>start = va, alength = n, aflags = fl\<rparr>"
    have as: "as = before @ [r] @ behind" using e False grow by (auto simp: enter_area_def r_def split: if_splits)
    have "areas_ok (va + n) behind" using ok g(6) by (cases behind) (auto simp: areas_ok_append)
    then have "areas_ok 0 as" using ok g by (simp add: as r_def areas_ok_append area_end_def)
    then show ?thesis by (auto simp: as r_def apages_def area_end_def)
  qed
qed

subsection \<open>Operations on the pages of an area\<close>

lemma user_range:
  assumes "va mod PAGE_SIZE = 0" "n mod PAGE_SIZE = 0" "0 < n" "va + n \<le> VIRT_KERNEL_BASE"
  shows "round_up_page (wrap32 (va + n)) = va + n" "vm_user_assert_pages va (va + n) = Some ()"
    "(\<lambda>va. va div PAGE_SIZE) ` set (va_range va (va + n)) = {va div PAGE_SIZE..<(va + n) div PAGE_SIZE}"
    "\<forall>a\<in>set (va_range va (va + n)). a < VIRT_KERNEL_BASE" "length (va_range va (va + n)) = n div PAGE_SIZE"
proof -
  have al: "(va + n) mod PAGE_SIZE = 0" by (rule aligned_sum [OF assms(1,2)])
  then obtain k where k: "va + n = PAGE_SIZE * k" by auto
  have w: "wrap32 (va + n) = va + n" "wrap32 (va + n + PAGE_SIZE - 1) = va + n + PAGE_SIZE - 1"
    using assms(4) by (simp_all add: wrap32_def VIRT_KERNEL_BASE_def PAGE_SIZE_def)
  have "(PAGE_SIZE * k + PAGE_SIZE - 1) div PAGE_SIZE = k" by (simp add: PAGE_SIZE_def)
  then show "round_up_page (wrap32 (va + n)) = va + n" unfolding round_up_page_def w unfolding k by simp
  show "vm_user_assert_pages va (va + n) = Some ()"
    using assms by (simp add: vm_user_assert_pages_def)
  note r = va_range_pages [OF assms(1) _ al]
  show "(\<lambda>va. va div PAGE_SIZE) ` set (va_range va (va + n)) = {va div PAGE_SIZE..<(va + n) div PAGE_SIZE}" by (rule r(1)) simp
  show "\<forall>a\<in>set (va_range va (va + n)). a < VIRT_KERNEL_BASE" using r(2) assms(4) by fastforce
  have "length (va_range va (va + n)) = (va + n) div PAGE_SIZE - va div PAGE_SIZE" by (rule r(4)) simp
  moreover have "(va + n) div PAGE_SIZE = va div PAGE_SIZE + n div PAGE_SIZE" using assms(1) by (intro div_plus_div_distrib_dvd_left) auto
  ultimately show "length (va_range va (va + n)) = n div PAGE_SIZE" by simp
qed

lemma area_free:
  assumes "vm_inv g x s" "debug_tag s pd = PAGE_TAG_VM" "va mod PAGE_SIZE = 0" "n mod PAGE_SIZE = 0" "0 < n" "va + n \<le> VIRT_KERNEL_BASE"
  obtains s' where "vm_user_free g pd va n s = Some s'" "vm_inv g x s'" "ufreed s pd {va div PAGE_SIZE..<(va + n) div PAGE_SIZE} s'"
    "free_pages s \<subseteq> free_pages s'" "excl s \<longrightarrow> excl s'" "\<forall>p. debug_tag s p = PAGE_TAG_VM \<longrightarrow> debug_tag s' p = PAGE_TAG_VM" "lossless s s'"
proof -
  note r = user_range [OF assms(3-6)]
  show thesis
    using vm_user_free_ok [OF assms(1,2) r(4)] that unfolding r(3) by (auto simp: vm_user_free_def Let_def r(1,2))
qed

lemma area_alloc:
  assumes "vm_inv g (\<lambda>_. 0) s" "debug_tag s pd = PAGE_TAG_VM" "va mod PAGE_SIZE = 0" "n mod PAGE_SIZE = 0" "0 < n" "va + n \<le> VIRT_KERNEL_BASE"
    "2 * (n div PAGE_SIZE) \<le> card (free_pages s)"
  obtains s' where "vm_user_alloc g pd va n fl s = Some (0, s')" "vm_inv g (\<lambda>_. 0) s'"
    "ualloced s pd {va div PAGE_SIZE..<(va + n) div PAGE_SIZE} fl s'" "excl s \<longrightarrow> excl s'"
    "\<forall>p. debug_tag s p = PAGE_TAG_VM \<longrightarrow> debug_tag s' p = PAGE_TAG_VM"
    "card (free_pages s) \<le> card (free_pages s') + 2 * (n div PAGE_SIZE)"
proof -
  note r = user_range [OF assms(3-6)]
  have "2 * length (va_range va (va + n)) \<le> card (free_pages s)" using assms(7) by (simp add: r(5))
  then show thesis
    using vm_user_alloc_ok [OF assms(1,2) r(4)] that unfolding r(3,5) by (auto simp: vm_user_alloc_def Let_def r(1,2))
qed

subsection \<open>Mapping an area\<close>

definition map_start :: "nat \<Rightarrow> nat" where
  "map_start addr = (if addr \<noteq> 0 then round_up_page addr else PAGE_SIZE)"

definition map_range :: "nat \<Rightarrow> nat \<Rightarrow> nat set" where
  "map_range va n = {va div PAGE_SIZE..<(va + round_up_page n) div PAGE_SIZE}"

text \<open>The new area can only be merged with the one behind it.\<close>

definition grows_down :: "vm_space \<Rightarrow> nat \<Rightarrow> nat \<Rightarrow> u32 \<Rightarrow> bool" where
  "grows_down vm addr n fl = (case find_gap (map_start addr) (round_up_page n) [] (areas vm) of
     (va, before, behind) \<Rightarrow> can_merge_next (va + round_up_page n) fl behind \<and> \<not> can_merge_prev va fl before)"

lemma round_up_aligned [simp]: "round_up_page n mod PAGE_SIZE = 0" "map_start addr mod PAGE_SIZE = 0"
  by (simp_all add: round_up_page_def map_start_def)

lemma alloc_free_view:
  assumes a: "ualloced s pd V fl s1" and f: "ufreed s1 pd V s'" and none: "\<forall>vpn\<in>V. uflags s (pd, vpn) = None"
  shows "same_view s s'"
proof -
  have "uread s k off = None" if "fst k = pd" "snd k \<in> V" for k off
    using none that by (cases k) (auto simp: uread_def uflags_def)
  then have "uread s' k off = uread s k off" if "off < PAGE_SIZE" for k off
    using a f that unfolding ualloced_def ufreed_def by auto
  moreover have "uflags s' k = uflags s k" for k
  proof (cases "fst k = pd \<and> snd k \<in> V")
    case True
    then show ?thesis using none f by (cases k) (auto simp: ufreed_def uflags_def)
  next
    case False
    then have "umap s' k = umap s1 k" using f by (auto simp: ufreed_def)
    then have "uflags s' k = uflags s1 k" by (simp add: uflags_def)
    then show ?thesis using a False by (auto simp: ualloced_def)
  qed
  ultimately show ?thesis by (auto simp: same_view_def)
qed

lemma space_ok_view: "same_view s s' \<Longrightarrow> \<forall>p. debug_tag s p = PAGE_TAG_VM \<longrightarrow> debug_tag s' p = PAGE_TAG_VM \<Longrightarrow> space_ok s vm \<Longrightarrow> space_ok s' vm"
  by (simp add: space_ok_def same_view_def)

text \<open>The arguments are refused, there is no room, or there is a gap.\<close>

lemma vmspace_map_cases:
  assumes "areas_ok 0 (areas vm)"
  obtains r where "vmspace_map g vm addr n fl ok s = Some (r, vm, s)" "r < 0"
  | va before behind where "find_gap (map_start addr) (round_up_page n) [] (areas vm) = (va, before, behind)"
      "areas vm = before @ behind" "gap_at va (round_up_page n) before behind"
      "vmspace_map g vm addr n fl ok s = do {
         (r, s) \<leftarrow> vm_user_alloc g (pgtab vm) va (round_up_page n) fl s;
         if r < 0 then do {
           s \<leftarrow> vm_user_free g (pgtab vm) va (round_up_page n) s;
           Some (r, vm, s)
         }
         else case enter_area va (round_up_page n) fl before behind ok of
           Some as \<Rightarrow> Some (int va, vm\<lparr>areas := as\<rparr>, s)
         | None \<Rightarrow> do {
             s \<leftarrow> vm_user_free g (pgtab vm) va (round_up_page n) s;
             Some (- ENOMEM, vm, s)
           }
       }"
proof -
  define m where "m = round_up_page n"
  define v where "v = map_start addr"
  obtain va before behind where f: "find_gap v m [] (areas vm) = (va, before, behind)" by (metis prod_cases3)
  have d: "vmspace_map g vm addr n fl ok s =
     (if v \<ge> VIRT_KERNEL_BASE \<or> wrap32 (v + m) > VIRT_KERNEL_BASE \<or> wrap32 (v + m) \<le> v then Some (- EINVAL, vm, s)
      else if va + m > VIRT_KERNEL_BASE then Some (- ENOMEM, vm, s)
      else do {
         (r, s) \<leftarrow> vm_user_alloc g (pgtab vm) va m fl s;
         if r < 0 then do {
           s \<leftarrow> vm_user_free g (pgtab vm) va m s;
           Some (r, vm, s)
         }
         else case enter_area va m fl before behind ok of
           Some as \<Rightarrow> Some (int va, vm\<lparr>areas := as\<rparr>, s)
         | None \<Rightarrow> do {
             s \<leftarrow> vm_user_free g (pgtab vm) va m s;
             Some (- ENOMEM, vm, s)
           }
       })"
    unfolding vmspace_map_def Let_def v_def [unfolded map_start_def, symmetric] m_def [symmetric] f by simp
  consider "v \<ge> VIRT_KERNEL_BASE \<or> wrap32 (v + m) > VIRT_KERNEL_BASE \<or> wrap32 (v + m) \<le> v"
    | "va + m > VIRT_KERNEL_BASE" | "wrap32 (v + m) > v" "v < VIRT_KERNEL_BASE" "va + m \<le> VIRT_KERNEL_BASE" by linarith
  then show thesis
  proof cases
    case 1
    then show thesis using that(1) [of "- EINVAL"] d by (simp add: EINVAL_def)
  next
    case 2
    then show thesis using that(1) d by (cases "v \<ge> VIRT_KERNEL_BASE \<or> wrap32 (v + m) > VIRT_KERNEL_BASE \<or> wrap32 (v + m) \<le> v")
      (auto simp: EINVAL_def ENOMEM_def)
  next
    case 3
    have "v mod PAGE_SIZE = 0" by (simp add: v_def)
    from find_gap_ok [OF assms this f] have g: "areas vm = before @ behind" "va mod PAGE_SIZE = 0" "last_end 0 before \<le> va"
        "behind = [] \<or> va + m \<le> start (hd behind)" by auto
    have "m \<noteq> 0" using 3(1,2) by (intro notI) (simp add: wrap32_def VIRT_KERNEL_BASE_def)
    then have "gap_at va m before behind" using g 3(3) by (simp add: gap_at_def m_def)
    moreover have "\<not> (v \<ge> VIRT_KERNEL_BASE \<or> wrap32 (v + m) > VIRT_KERNEL_BASE \<or> wrap32 (v + m) \<le> v) \<or>
        (\<exists>r. vmspace_map g vm addr n fl ok s = Some (r, vm, s) \<and> r < 0)" unfolding d by (auto simp: EINVAL_def)
    ultimately show thesis
      using that(1) that(2) [of va before behind] f g(1) d 3(3) unfolding v_def m_def
      by (metis (no_types, lifting) linorder_not_less)
  qed
qed

lemma vmspace_map_ok:
  assumes inv: "vm_inv g (\<lambda>_. 0) s" and ex: "excl s" and sp: "space_ok s vm"
    and mem: "2 * (round_up_page n div PAGE_SIZE) \<le> card (free_pages s)"
  shows "\<exists>r vm' s'. vmspace_map g vm addr n fl ok s = Some (r, vm', s') \<and> vm_inv g (\<lambda>_. 0) s' \<and> excl s' \<and>
     (\<forall>p. debug_tag s p = PAGE_TAG_VM \<longrightarrow> debug_tag s' p = PAGE_TAG_VM) \<and>
     (\<not> grows_down vm addr n fl \<longrightarrow> space_ok s' vm') \<and> (r < 0 \<longrightarrow> vm' = vm \<and> same_view s s') \<and>
     (0 \<le> r \<longrightarrow> pgtab vm' = pgtab vm \<and> (\<forall>vpn\<in>map_range (nat r) n. uflags s (pgtab vm, vpn) = None) \<and>
        ualloced s (pgtab vm) (map_range (nat r) n) fl s')"
proof -
  have tag: "debug_tag s (pgtab vm) = PAGE_TAG_VM" and ar: "areas_ok 0 (areas vm)"
    and cov: "\<And>vpn. uflags s (pgtab vm, vpn) \<noteq> None \<longleftrightarrow> vpn \<in> covered (areas vm)"
    using sp by (simp_all add: space_ok_def)
  show ?thesis
  proof (rule vmspace_map_cases [OF ar, of g addr n fl ok s])
    fix r assume "vmspace_map g vm addr n fl ok s = Some (r, vm, s)" "r < 0"
    then show ?thesis using inv ex sp by (auto simp: same_view_def)
  next
    fix va before behind
    let ?m = "round_up_page n" and ?V = "map_range va n"
    assume f: "find_gap (map_start addr) ?m [] (areas vm) = (va, before, behind)" and b: "areas vm = before @ behind"
      and gap: "gap_at va ?m before behind"
      and e: "vmspace_map g vm addr n fl ok s = do {
         (r, s) \<leftarrow> vm_user_alloc g (pgtab vm) va ?m fl s;
         if r < 0 then do { s \<leftarrow> vm_user_free g (pgtab vm) va ?m s; Some (r, vm, s) }
         else case enter_area va ?m fl before behind ok of
           Some as \<Rightarrow> Some (int va, vm\<lparr>areas := as\<rparr>, s)
         | None \<Rightarrow> do { s \<leftarrow> vm_user_free g (pgtab vm) va ?m s; Some (- ENOMEM, vm, s) } }"
    have g: "va mod PAGE_SIZE = 0" "?m mod PAGE_SIZE = 0" "0 < ?m" "va + ?m \<le> VIRT_KERNEL_BASE" using gap by (simp_all add: gap_at_def)
    have none: "\<forall>vpn\<in>?V. uflags s (pgtab vm, vpn) = None"
      using gap_free [OF _ gap] ar cov unfolding b map_range_def by blast
    obtain s1 where s1: "vm_user_alloc g (pgtab vm) va ?m fl s = Some (0, s1)" "vm_inv g (\<lambda>_. 0) s1"
        "ualloced s (pgtab vm) ?V fl s1" "excl s1" "\<forall>p. debug_tag s p = PAGE_TAG_VM \<longrightarrow> debug_tag s1 p = PAGE_TAG_VM"
      unfolding map_range_def by (rule area_alloc [OF inv tag g mem]) (use ex in blast)
    show ?thesis
    proof (cases "enter_area va ?m fl before behind ok")
      case None
      obtain s2 where s2: "vm_user_free g (pgtab vm) va ?m s1 = Some s2" "vm_inv g (\<lambda>_. 0) s2" "ufreed s1 (pgtab vm) ?V s2" "excl s2"
          "\<forall>p. debug_tag s1 p = PAGE_TAG_VM \<longrightarrow> debug_tag s2 p = PAGE_TAG_VM"
        unfolding map_range_def using area_free [OF s1(2) _ g] tag s1(4,5) by metis
      have v: "same_view s s2" by (rule alloc_free_view [OF s1(3) s2(3) none])
      have "vmspace_map g vm addr n fl ok s = Some (- ENOMEM, vm, s2)" using e s1(1) s2(1) None by simp
      moreover have "space_ok s2 vm" using space_ok_view [OF v _ sp] s1(5) s2(5) by blast
      ultimately show ?thesis using v s1(5) s2(2,4,5) by (auto simp: ENOMEM_def)
    next
      case (Some as)
      have "vmspace_map g vm addr n fl ok s = Some (int va, vm\<lparr>areas := as\<rparr>, s1)" using e s1(1) Some by simp
      moreover have "space_ok s1 (vm\<lparr>areas := as\<rparr>)" if "\<not> grows_down vm addr n fl"
      proof -
        have "areas_ok 0 as \<and> covered as = covered (areas vm) \<union> ?V"
          unfolding map_range_def b by (rule enter_area_ok [OF _ gap _ Some]) (use that ar f b in \<open>auto simp: grows_down_def\<close>)
        then show ?thesis using s1(3,5) tag cov by (auto simp: space_ok_def ualloced_def)
      qed
      ultimately show ?thesis using s1(2-5) none by auto
    qed
  qed
qed

subsection \<open>Creating, cloning and destroying an address space\<close>

lemma area_memberD:
  assumes "areas_ok lo as" "a \<in> set as"
  shows "start a mod PAGE_SIZE = 0" "alength a mod PAGE_SIZE = 0" "0 < alength a" "start a + alength a \<le> VIRT_KERNEL_BASE"
  using areas_ok_member [OF assms] by (simp_all add: area_end_def)

lemma ufreed_trans: "ufreed s pd V s1 \<Longrightarrow> ufreed s1 pd W s' \<Longrightarrow> ufreed s pd (V \<union> W) s'"
  unfolding ufreed_def by (auto simp: fun_eq_iff)

lemma free_areas_ok:
  "vm_inv g x s \<Longrightarrow> debug_tag s pd = PAGE_TAG_VM \<Longrightarrow> areas_ok lo as \<Longrightarrow>
   \<exists>s'. free_areas g pd as s = Some s' \<and> vm_inv g x s' \<and> ufreed s pd (covered as) s' \<and>
     free_pages s \<subseteq> free_pages s' \<and> (excl s \<longrightarrow> excl s') \<and> (\<forall>p. debug_tag s p = PAGE_TAG_VM \<longrightarrow> debug_tag s' p = PAGE_TAG_VM) \<and> lossless s s'"
proof (induction as arbitrary: lo s)
  case (Cons a as)
  obtain s1 where s1: "vm_user_free g pd (start a) (alength a) s = Some s1" "vm_inv g x s1" "ufreed s pd (apages a) s1"
      "free_pages s \<subseteq> free_pages s1" "excl s \<longrightarrow> excl s1" "\<forall>p. debug_tag s p = PAGE_TAG_VM \<longrightarrow> debug_tag s1 p = PAGE_TAG_VM" "lossless s s1"
    unfolding apages_def area_end_def by (rule area_free [OF Cons.prems(1,2) area_memberD [OF Cons.prems(3), of a]]) auto
  obtain s' where s': "free_areas g pd as s1 = Some s'" "vm_inv g x s'" "ufreed s1 pd (covered as) s'" "free_pages s1 \<subseteq> free_pages s'"
      "excl s1 \<longrightarrow> excl s'" "\<forall>p. debug_tag s1 p = PAGE_TAG_VM \<longrightarrow> debug_tag s' p = PAGE_TAG_VM" "lossless s1 s'"
    using Cons.IH [OF s1(2), of "area_end a"] Cons.prems(2,3) s1(6) by auto
  have "ufreed s pd (covered (a # as)) s'" using ufreed_trans [OF s1(3) s'(3)] by simp
  then show ?case using s1 s' lossless_trans [OF s1(7) s'(7)] by (auto simp: subset_iff)
qed (simp add: ufreed_def)

lemma umap_None_iff: "umap s k = None \<longleftrightarrow> uflags s k = None"
  by (simp add: uflags_def)

lemma vm_space_destroy_ok:
  assumes inv: "vm_inv g x s" and sp: "space_ok s vm"
  shows "\<exists>s'. vm_space_destroy g vm s = Some s' \<and> vm_inv g x s' \<and> (excl s \<longrightarrow> excl s') \<and>
     (\<forall>k. fst k \<noteq> pgtab vm \<longrightarrow> uflags s' k = uflags s k \<and> (\<forall>off<PAGE_SIZE. uread s' k off = uread s k off)) \<and>
     free_pages s \<union> {pgtab vm} \<subseteq> free_pages s' \<and> (\<forall>vpn. uflags s' (pgtab vm, vpn) = None) \<and>
     (\<forall>p. p \<noteq> pgtab vm \<and> debug_tag s p = PAGE_TAG_VM \<longrightarrow> debug_tag s' p = PAGE_TAG_VM) \<and>
     (\<forall>f. (\<exists>k. maps_to f (umap s k)) \<and> x f = 0 \<and> (\<forall>k. maps_to f (umap s k) \<longrightarrow> fst k = pgtab vm) \<longrightarrow> f \<in> free_pages s')"
proof -
  have tag: "debug_tag s (pgtab vm) = PAGE_TAG_VM" and ar: "areas_ok 0 (areas vm)"
    and cov: "\<And>vpn. uflags s (pgtab vm, vpn) \<noteq> None \<longleftrightarrow> vpn \<in> covered (areas vm)"
    using sp by (simp_all add: space_ok_def)
  obtain s1 where s1: "free_areas g (pgtab vm) (areas vm) s = Some s1" "vm_inv g x s1" "ufreed s (pgtab vm) (covered (areas vm)) s1"
      "free_pages s \<subseteq> free_pages s1" "excl s \<longrightarrow> excl s1" "\<forall>p. debug_tag s p = PAGE_TAG_VM \<longrightarrow> debug_tag s1 p = PAGE_TAG_VM" "lossless s s1"
    using free_areas_ok [OF inv tag ar] by blast
  have um: "umap s1 = (\<lambda>k. if fst k = pgtab vm \<and> snd k \<in> covered (areas vm) then None else umap s k)"
    using s1(3) by (simp add: ufreed_def)
  have none: "\<forall>vpn. umap s1 (pgtab vm, vpn) = None"
  proof
    fix vpn show "umap s1 (pgtab vm, vpn) = None"
      using cov [of vpn] unfolding um by (cases "vpn \<in> covered (areas vm)") (auto simp: umap_None_iff)
  qed
  obtain s' where s': "arch_vm_destroy g (pgtab vm) s1 = Some s'" "vm_inv g x s'" "umap s' = umap s1" "phys s' = phys s1"
      "free_pages s' = free_pages s1 \<union> {pgtab vm} \<union> {q. \<exists>i<USER_PDES. table s1 (pgtab vm) i = Some q}"
      "\<forall>p. p \<noteq> pgtab vm \<and> debug_tag s1 p \<noteq> PAGE_TAG_PGTAB \<longrightarrow> debug_tag s' p = debug_tag s1 p" "debug_tag s' (pgtab vm) = 0"
    by (rule arch_vm_destroy_ok [OF s1(2) _ none]) (use tag s1(6) in blast)
  have rd: "uread s' = uread s1" by (auto simp: fun_eq_iff uread_def s'(3,4))
  have "uflags s' k = uflags s k \<and> (\<forall>off<PAGE_SIZE. uread s' k off = uread s k off)" if "fst k \<noteq> pgtab vm" for k
    using s1(3) that by (auto simp: rd uflags_def s'(3) um ufreed_def)
  moreover have "debug_tag s' p = PAGE_TAG_VM" if "p \<noteq> pgtab vm" "debug_tag s p = PAGE_TAG_VM" for p
    using that s1(6) s'(6) by (auto simp: page_tag_defs)
  moreover have "vm_space_destroy g vm s = Some s'" using s1(1) s'(1) by (simp add: vm_space_destroy_def)
  moreover have "free_pages s \<union> {pgtab vm} \<subseteq> free_pages s'" using s1(4) s'(5) by auto
  moreover have "\<forall>vpn. uflags s' (pgtab vm, vpn) = None" using none by (simp add: uflags_def s'(3))
  moreover have "f \<in> free_pages s'"
    if f: "maps_to f (umap s k)" "x f = 0" and own: "\<forall>k. maps_to f (umap s k) \<longrightarrow> fst k = pgtab vm" for f k
  proof -
    have "\<not> maps_to f (umap s1 k)" for k
      using own cov [of "snd k"] unfolding um by (cases k) (auto simp: maps_to_def uflags_def split: if_splits)
    then have "uses s1 f = 0" by (simp add: uses_def)
    obtain fl where "umap s k = Some (f, fl)" using f(1) by (auto simp: maps_to_def)
    then have t: "debug_tag s f = PAGE_TAG_ANON" "0 < ref_count s f" using umap_Some [OF inv] by blast+
    have "debug_tag s1 f \<noteq> PAGE_TAG_ANON"
    proof
      assume a: "debug_tag s1 f = PAGE_TAG_ANON"
      then have "ref_count s1 f = 0" using s1(2) \<open>uses s1 f = 0\<close> f(2) by (simp add: vm_inv_def refs_ok_def)
      then show False using s1(7) a t(2) by (simp add: lossless_def)
    qed
    then have "f \<in> free_pages s1" using s1(7) t(1) by (simp add: lossless_def)
    then show ?thesis using s'(5) by simp
  qed
  ultimately show ?thesis
    using s1(5) s'(2) excl_umap(1) [OF s'(3)] by (intro exI [of _ s'] conjI) blast+
qed

lemma vm_space_create_ok:
  assumes inv: "vm_inv g x s" and free: "free_pages s \<noteq> {}"
  obtains vm s' where "vm_space_create g True s = Some (Some vm, s')" "vm_inv g x s'" "areas vm = []" "space_ok s' vm"
    "same_view s s'" "excl s \<longrightarrow> excl s'" "debug_tag s (pgtab vm) = 0" "\<forall>p. debug_tag s p = PAGE_TAG_VM \<longrightarrow> debug_tag s' p = PAGE_TAG_VM"
    "card (free_pages s) = Suc (card (free_pages s'))"
proof -
  obtain pd s' where s': "arch_vm_create g s = Some (pd, s')" "vm_inv g x s'" "umap s' = umap s" "debug_tag s pd = 0"
    "debug_tag s' = (debug_tag s)(pd := PAGE_TAG_VM)" "\<forall>a. a div PAGE_SIZE \<noteq> pd \<longrightarrow> phys s' a = phys s a"
    "pd \<in> free_pages s" "free_pages s' = free_pages s - {pd}"
    by (rule arch_vm_create_ok [OF inv free])
  have "uread s' k off = uread s k off" if "off < PAGE_SIZE" for k off
  proof (cases "umap s k")
    case (Some m)
    obtain f fl where m: "m = (f, fl)" by (cases m)
    have "debug_tag s f = PAGE_TAG_ANON" using umap_Some [OF inv] Some m by blast
    then have "f \<noteq> pd" using s'(4) by (auto simp: page_tag_defs)
    then show ?thesis using s'(6) Some m page_offset [OF that, of f] by (simp add: uread_def s'(3))
  qed (simp add: uread_def s'(3))
  then have v: "same_view s s'" by (auto simp: same_view_def uflags_def s'(3))
  have "umap s (pd, vpn) = None" for vpn using s'(4) by (simp add: umap_def ukeys_def page_tag_defs)
  then have sp: "space_ok s' \<lparr>pgtab = pd, areas = []\<rparr>" by (auto simp: space_ok_def s'(5) uflags_def s'(3))
  have "card (free_pages s) = Suc (card (free_pages s'))" unfolding s'(8) using s'(7) by (metis card_Suc_Diff1 finite_free_pages)
  then show thesis
    using that [of "\<lparr>pgtab = pd, areas = []\<rparr>" s'] s' v sp excl_umap(1) [OF s'(3)] by (simp add: vm_space_create_def)
qed

lemma ucloned_trans:
  "src \<noteq> dst \<Longrightarrow> ucloned s src dst V s1 \<Longrightarrow> ucloned s1 src dst W s' \<Longrightarrow> ucloned s src dst (V \<union> W) s'"
  unfolding ucloned_def by (auto split: if_splits)

lemma area_clone:
  assumes "vm_inv g (\<lambda>_. 0) s" "excl s" "debug_tag s src = PAGE_TAG_VM" "debug_tag s dst = PAGE_TAG_VM" "src \<noteq> dst"
    "start a mod PAGE_SIZE = 0" "alength a mod PAGE_SIZE = 0" "0 < alength a" "start a + alength a \<le> VIRT_KERNEL_BASE"
    "\<forall>vpn\<in>apages a. uflags s (src, vpn) \<noteq> None" "alength a div PAGE_SIZE \<le> card (free_pages s)"
  obtains s' where "vm_user_clone g src dst (start a) (alength a) False s = Some (0, s')" "vm_inv g (\<lambda>_. 0) s'" "excl s'"
    "ucloned s src dst (apages a) s'" "\<forall>p. debug_tag s p = PAGE_TAG_VM \<longrightarrow> debug_tag s' p = PAGE_TAG_VM"
    "card (free_pages s) \<le> card (free_pages s') + alength a div PAGE_SIZE"
proof -
  note r = user_range [OF assms(6-9)]
  have im: "(\<lambda>va. va div PAGE_SIZE) ` set (va_range (start a) (start a + alength a)) = apages a"
    unfolding apages_def area_end_def by (rule r(3))
  have "\<forall>va\<in>set (va_range (start a) (start a + alength a)). va < VIRT_KERNEL_BASE \<and> uflags s (src, va div PAGE_SIZE) \<noteq> None"
    using r(4) assms(10) unfolding im [symmetric] by blast
  moreover have "length (va_range (start a) (start a + alength a)) \<le> card (free_pages s)" using assms(11) by (simp add: r(5))
  ultimately show thesis
    using vm_user_clone_ok [OF assms(1-5), of "va_range (start a) (start a + alength a)"] that
    unfolding im r(5) by (auto simp: vm_user_clone_def Let_def r(1,2))
qed

definition area_pages :: "vm_area list \<Rightarrow> nat" where
  "area_pages as = sum_list (map (\<lambda>a. alength a div PAGE_SIZE) as)"

text \<open>All address spaces but one look the same.\<close>

definition others_same :: "nat \<Rightarrow> page_state \<Rightarrow> page_state \<Rightarrow> bool" where
  "others_same pd s s' \<longleftrightarrow> (\<forall>k. fst k \<noteq> pd \<longrightarrow> uflags s' k = uflags s k \<and> (\<forall>off<PAGE_SIZE. uread s' k off = uread s k off)) \<and>
     (\<forall>p. p \<noteq> pd \<and> debug_tag s p = PAGE_TAG_VM \<longrightarrow> debug_tag s' p = PAGE_TAG_VM)"

lemma others_same_trans: "others_same pd s s1 \<Longrightarrow> others_same pd s1 s' \<Longrightarrow> others_same pd s s'"
  by (simp add: others_same_def)

lemma ucloned_others:
  "ucloned s src dst V s' \<Longrightarrow> \<forall>p. debug_tag s p = PAGE_TAG_VM \<longrightarrow> debug_tag s' p = PAGE_TAG_VM \<Longrightarrow> others_same dst s s'"
  by (auto simp: ucloned_def others_same_def)

text \<open>A clone with the same pages and the same bytes; or there was no memory for an area and the clone is gone.\<close>

definition clone_result :: "nat \<Rightarrow> vm_space \<Rightarrow> vm_area list \<Rightarrow> page_state \<Rightarrow> vm_space option \<Rightarrow> page_state \<Rightarrow> bool" where
  "clone_result src new as s r s' \<longleftrightarrow> others_same (pgtab new) s s' \<and> (case r of
     None \<Rightarrow> True
   | Some vm \<Rightarrow> pgtab vm = pgtab new \<and> areas vm = areas new @ as \<and> space_ok s' vm \<and>
       ucloned s src (pgtab new) (covered as) s')"

lemma clone_areas_ok:
  "vm_inv g (\<lambda>_. 0) s \<Longrightarrow> excl s \<Longrightarrow> debug_tag s src = PAGE_TAG_VM \<Longrightarrow> src \<noteq> pgtab new \<Longrightarrow> space_ok s new \<Longrightarrow>
   areas_ok 0 (areas new @ as) \<Longrightarrow> \<forall>vpn\<in>covered as. uflags s (src, vpn) \<noteq> None \<Longrightarrow> area_pages as \<le> card (free_pages s) \<Longrightarrow>
   \<exists>r s'. clone_areas g src False oks as new s = Some (r, s') \<and> vm_inv g (\<lambda>_. 0) s' \<and> excl s' \<and> clone_result src new as s r s' \<and>
     (length as \<le> length oks \<and> (\<forall>b\<in>set oks. b) \<longrightarrow> r \<noteq> None)"
proof (induction as arbitrary: oks new s)
  case Nil
  then show ?case by (simp add: clone_result_def others_same_def ucloned_def)
next
  case (Cons a as)
  have tag: "debug_tag s (pgtab new) = PAGE_TAG_VM" using Cons.prems(5) by (simp add: space_ok_def)
  show ?case
  proof (cases "oks = [] \<or> \<not> hd oks")
    case True
    obtain s' where s': "vm_space_destroy g new s = Some s'" "vm_inv g (\<lambda>_. 0) s'" "excl s'" "others_same (pgtab new) s s'"
      using vm_space_destroy_ok [OF Cons.prems(1,5)] Cons.prems(2) unfolding others_same_def by blast
    have "clone_areas g src False oks (a # as) new s = Some (None, s')" using True s'(1) by auto
    moreover have "\<not> (length (a # as) \<le> length oks \<and> (\<forall>b\<in>set oks. b))" using True by (cases oks) auto
    ultimately show ?thesis using s' by (auto simp: clone_result_def)
  next
    case False
    note m = area_memberD [OF Cons.prems(6), of a]
    have sz: "alength a div PAGE_SIZE \<le> card (free_pages s)" using Cons.prems(8) by (simp add: area_pages_def)
    obtain s1 where s1: "vm_user_clone g src (pgtab new) (start a) (alength a) False s = Some (0, s1)" "vm_inv g (\<lambda>_. 0) s1" "excl s1"
        "ucloned s src (pgtab new) (apages a) s1" "\<forall>p. debug_tag s p = PAGE_TAG_VM \<longrightarrow> debug_tag s1 p = PAGE_TAG_VM"
        "card (free_pages s) \<le> card (free_pages s1) + alength a div PAGE_SIZE"
      by (rule area_clone [OF Cons.prems(1-3) tag Cons.prems(4) m _ sz]) (use Cons.prems(7) in auto)
    define vm where "vm = new\<lparr>areas := areas new @ [a]\<rparr>"
    have vm: "pgtab vm = pgtab new" "areas vm = areas new @ [a]" by (simp_all add: vm_def)
    have e: "clone_areas g src False oks (a # as) new s = clone_areas g src False (tl oks) as vm s1"
      using False s1(1) by (simp add: vm_def Let_def)
    have ok1: "areas_ok 0 (areas vm)" "areas_ok 0 (areas vm @ as)" using Cons.prems(6) by (simp_all add: vm(2) areas_ok_append)
    have fl: "uflags s1 (src, vpn) = uflags s (src, vpn)" for vpn
      using s1(4) Cons.prems(4) by (simp add: ucloned_def)
    have sp: "space_ok s1 vm"
      using Cons.prems(5,7) s1(4,5) ok1(1) by (auto simp: space_ok_def ucloned_def vm)
    obtain r s' where s': "clone_areas g src False (tl oks) as vm s1 = Some (r, s')" "vm_inv g (\<lambda>_. 0) s'" "excl s'"
        "clone_result src vm as s1 r s'" "length as \<le> length (tl oks) \<and> (\<forall>b\<in>set (tl oks). b) \<longrightarrow> r \<noteq> None"
    proof -
      have "debug_tag s1 src = PAGE_TAG_VM" "src \<noteq> pgtab vm" using s1(5) Cons.prems(3,4) by (simp_all add: vm)
      moreover have "\<forall>vpn\<in>covered as. uflags s1 (src, vpn) \<noteq> None" using Cons.prems(7) by (simp add: fl)
      moreover have "area_pages as \<le> card (free_pages s1)" using Cons.prems(8) s1(6) by (simp add: area_pages_def)
      ultimately show thesis using Cons.IH [OF s1(2,3) _ _ sp ok1(2)] that by blast
    qed
    have "others_same (pgtab new) s s'"
      using others_same_trans [OF ucloned_others [OF s1(4,5)]] s'(4) by (simp add: clone_result_def vm)
    then have "clone_result src new (a # as) s r s'"
      using s'(4) ucloned_trans [OF Cons.prems(4) s1(4)] by (auto simp: clone_result_def vm split: option.splits)
    moreover have "r \<noteq> None" if "length (a # as) \<le> length oks" "\<forall>b\<in>set oks. b"
      using that s'(5) False by (cases oks) auto
    ultimately show ?thesis using s'(1-3) unfolding e by blast
  qed
qed

lemma vm_space_clone_ok:
  assumes inv: "vm_inv g (\<lambda>_. 0) s" and ex: "excl s" and sp: "space_ok s vm" and mem: "area_pages (areas vm) < card (free_pages s)"
  obtains r s' pd where "vm_space_clone g vm False ok oks s = Some (r, s')" "vm_inv g (\<lambda>_. 0) s'" "excl s'"
    "debug_tag s pd = 0" "others_same pd s s'"
    "\<forall>new. r = Some new \<longrightarrow> pgtab new = pd \<and> areas new = areas vm \<and> space_ok s' new \<and> ucloned s (pgtab vm) pd (covered (areas vm)) s'"
    "ok \<and> length (areas vm) \<le> length oks \<and> (\<forall>b\<in>set oks. b) \<longrightarrow> r \<noteq> None"
proof (cases ok)
  case False
  obtain p where "p \<in> free_pages s" using mem by fastforce
  then have "debug_tag s p = 0" using inv by (auto simp: vm_inv_def page_inv_def unused_def)
  then show thesis
    using that [of None s p] inv ex False by (simp add: vm_space_clone_def vm_space_create_def others_same_def)
next
  case True
  have tag: "debug_tag s (pgtab vm) = PAGE_TAG_VM" and ar: "areas_ok 0 (areas vm)"
    and cov: "\<And>vpn. uflags s (pgtab vm, vpn) \<noteq> None \<longleftrightarrow> vpn \<in> covered (areas vm)"
    using sp by (simp_all add: space_ok_def)
  have "free_pages s \<noteq> {}" using mem by auto
  then obtain v s1 where s1: "vm_space_create g True s = Some (Some v, s1)" "vm_inv g (\<lambda>_. 0) s1" "areas v = []" "space_ok s1 v"
    "same_view s s1" "excl s1" "debug_tag s (pgtab v) = 0" "\<forall>p. debug_tag s p = PAGE_TAG_VM \<longrightarrow> debug_tag s1 p = PAGE_TAG_VM"
    "card (free_pages s) = Suc (card (free_pages s1))"
    using vm_space_create_ok [OF inv, of thesis] ex by blast
  have ne: "pgtab vm \<noteq> pgtab v" using tag s1(7) by (auto simp: page_tag_defs)
  have fl: "uflags s1 = uflags s" using s1(5) by (simp add: same_view_def)
  have "debug_tag s1 (pgtab vm) = PAGE_TAG_VM" "areas_ok 0 (areas v @ areas vm)" "\<forall>vpn\<in>covered (areas vm). uflags s1 (pgtab vm, vpn) \<noteq> None"
      "area_pages (areas vm) \<le> card (free_pages s1)"
    using tag s1(3,8,9) ar cov mem by (auto simp: fl)
  note c = clone_areas_ok [OF s1(2,6) this(1) ne s1(4) this(2-4), of oks]
  obtain r s' where s': "clone_areas g (pgtab vm) False oks (areas vm) v s1 = Some (r, s')" "vm_inv g (\<lambda>_. 0) s'" "excl s'"
      "clone_result (pgtab vm) v (areas vm) s1 r s'" "length (areas vm) \<le> length oks \<and> (\<forall>b\<in>set oks. b) \<longrightarrow> r \<noteq> None"
    using c by blast
  have "others_same (pgtab v) s s1" using s1(5,8) by (simp add: others_same_def same_view_def)
  then have o: "others_same (pgtab v) s s'" using others_same_trans s'(4) by (auto simp: clone_result_def)
  have "pgtab new = pgtab v \<and> areas new = areas vm \<and> space_ok s' new \<and> ucloned s (pgtab vm) (pgtab v) (covered (areas vm)) s'"
    if "r = Some new" for new
    using s'(4) that ucloned_view [OF s1(5)] by (auto simp: clone_result_def s1(3))
  moreover have "vm_space_clone g vm False ok oks s = Some (r, s')" using s1(1) s'(1) True by (simp add: vm_space_clone_def)
  ultimately show thesis using that s'(2,3,5) o s1(7) by blast
qed

end
