(* ===== verification/Vm_Safety.thy ===== *)
theory Vm_Safety
  imports Vm_Areas
begin

section \<open>Address spaces are separate\<close>

text \<open>
  The properties of \<open>kernel/mm/vm.c\<close> and \<open>kernel/process/vmspace.c\<close> as a whole: a step relation
  of the operations on the address spaces of the processes, what every reachable state keeps, what a copy to
  or from a process and a fork do, and two ways in which the code panics.
\<close>

subsection \<open>A first address space\<close>

text \<open>A machine with 64 pages; the first one holds the page directory of the kernel and the others are free.\<close>

definition boot_globals :: vm_globals where
  "boot_globals = \<lparr>kernel_pgdir = 0, page_count = 64\<rparr>"

definition boot_pages :: page_state where
  "boot_pages = (the (page_free_pages 1 64 (page_init (\<lambda>_. 0))))\<lparr>debug_tag := (\<lambda>_. 0)(0 := PAGE_TAG_KERNEL_VM)\<rparr>"

lemma boot_ok: "vm_inv boot_globals (\<lambda>_. 0) boot_pages" "excl boot_pages" "free_pages boot_pages = {1..<64}"
proof -
  have "ref_count (page_init (\<lambda>_. 0)) q = 0" for q by (simp add: page_init_def)
  then obtain s where s: "page_free_pages 1 64 (page_init (\<lambda>_. 0)) = Some s" "page_inv 64 s" "free_pages s = {1..<64}"
    using page_free_pages_ok [OF page_inv_init(1), of 64 64 1 "\<lambda>_. 0"] page_inv_init(2) by auto
  have b: "boot_pages = s\<lparr>debug_tag := (\<lambda>_. 0)(0 := PAGE_TAG_KERNEL_VM)\<rparr>"
    unfolding boot_pages_def s(1) by simp
  have tags: "debug_tag boot_pages p = (if p = 0 then PAGE_TAG_KERNEL_VM else 0)" for p by (simp add: b)
  show f: "free_pages boot_pages = {1..<64}" using s(3) by (simp add: b free_pages_def)
  have pi: "page_inv 64 boot_pages" unfolding b by (rule page_inv_tags(1) [OF s(2)]) (simp add: s(3))
  have u: "umap boot_pages = (\<lambda>_. None)" by (auto simp: fun_eq_iff umap_def ukeys_def tags page_tag_defs)
  then show "excl boot_pages" by (simp add: excl_def)
  show "vm_inv boot_globals (\<lambda>_. 0) boot_pages"
    using pi by (auto simp: vm_inv_def boot_globals_def PHYS_LIMIT_def PAGE_SIZE_def tags dirs_ok_def tables_distinct_def entries_ok_def
        ukeys_def refs_ok_def page_tag_defs)
qed

definition demo_flags :: u32 where "demo_flags = VM_USER OR VM_READ OR VM_WRITE"

definition demo_areas :: "nat \<Rightarrow> vm_area list" where
  "demo_areas base = [\<lparr>start = base, alength = 2 * PAGE_SIZE, aflags = demo_flags\<rparr>]"

subsection \<open>The operations as steps\<close>

text \<open>
  The address spaces and the memory.  A step is an operation that returns; it has the memory it may need,
  since running out of pages is a panic of the page allocator, and a write has been checked.
\<close>

definition writable :: "page_state \<Rightarrow> nat \<Rightarrow> nat \<Rightarrow> nat \<Rightarrow> bool" where
  "writable s pd dst n \<longleftrightarrow> dst + n \<le> VIRT_KERNEL_BASE \<and> dst < VIRT_KERNEL_BASE \<and>
     (\<forall>va. dst \<le> va \<and> va < dst + n \<longrightarrow> (\<exists>fl. uaccess s pd va = Some fl \<and> bit fl 1))"

inductive vm_step :: "vm_globals \<Rightarrow> vm_space list \<times> page_state \<Rightarrow> vm_space list \<times> page_state \<Rightarrow> bool" for g where
  create: "\<lbrakk>free_pages s \<noteq> {}; vm_space_create g ok s = Some (r, s')\<rbrakk> \<Longrightarrow> vm_step g (vms, s) (vms @ (case r of None \<Rightarrow> [] | Some vm \<Rightarrow> [vm]), s')"
| map: "\<lbrakk>2 * (round_up_page n div PAGE_SIZE) \<le> card (free_pages s); \<not> grows_down vm addr n fl;
     vmspace_map g vm addr n fl ok s = Some (r, vm', s')\<rbrakk> \<Longrightarrow> vm_step g (xs @ vm # ys, s) (xs @ vm' # ys, s')"
| fork: "\<lbrakk>area_pages (areas vm) < card (free_pages s); vm \<in> set vms; vm_space_clone g vm False ok oks s = Some (r, s')\<rbrakk>
     \<Longrightarrow> vm_step g (vms, s) (vms @ (case r of None \<Rightarrow> [] | Some vm \<Rightarrow> [vm]), s')"
| destroy: "vm_space_destroy g vm s = Some s' \<Longrightarrow> vm_step g (xs @ vm # ys, s) (xs @ ys, s')"
| copy_out: "\<lbrakk>vm \<in> set vms; writable s (pgtab vm) dst (length src); npages dst (length src) \<le> card (free_pages s);
     vm_space_copy_out g (Some vm) src dst s = Some (r, s')\<rbrakk> \<Longrightarrow> vm_step g (vms, s) (vms, s')"

inductive_cases vm_stepE: "vm_step g (vms, s) (vms', s')"

definition spaces_ok :: "vm_globals \<Rightarrow> vm_space list \<times> page_state \<Rightarrow> bool" where
  "spaces_ok g st \<longleftrightarrow> vm_inv g (\<lambda>_. 0) (snd st) \<and> excl (snd st) \<and> (\<forall>vm\<in>set (fst st). space_ok (snd st) vm) \<and> distinct (List.map pgtab (fst st))"

lemma spaces_okD:
  assumes "spaces_ok g (vms, s)"
  shows "vm_inv g (\<lambda>_. 0) s" "excl s" "\<forall>vm\<in>set vms. space_ok s vm" "distinct (List.map pgtab vms)"
  using assms by (simp_all add: spaces_ok_def)

lemma space_ok_others:
  assumes "others_same pd s s'" "space_ok s vm" "pgtab vm \<noteq> pd"
  shows "space_ok s' vm"
  using assms by (simp add: others_same_def space_ok_def)

lemma fresh_dir: "debug_tag s pd = 0 \<Longrightarrow> \<forall>vm\<in>set vms. space_ok s vm \<Longrightarrow> pd \<notin> pgtab ` set vms"
  by (auto simp: space_ok_def page_tag_defs)

lemma same_view_others:
  "same_view s s' \<Longrightarrow> \<forall>p. debug_tag s p = PAGE_TAG_VM \<longrightarrow> debug_tag s' p = PAGE_TAG_VM \<Longrightarrow> others_same pd s s'"
  by (simp add: same_view_def others_same_def)

text \<open>A step that keeps the other address spaces and adds at most one with a fresh directory.\<close>

lemma spaces_ok_add:
  assumes ok: "spaces_ok g (vms, s)" and s': "vm_inv g (\<lambda>_. 0) s'" "excl s'" "debug_tag s pd = 0" "others_same pd s s'"
    and new: "\<forall>new. r = Some new \<longrightarrow> pgtab new = pd \<and> space_ok s' new"
  shows "spaces_ok g (vms @ (case r of None \<Rightarrow> [] | Some vm \<Rightarrow> [vm]), s')"
proof -
  note o = spaces_okD [OF ok]
  have f: "pd \<notin> pgtab ` set vms" by (rule fresh_dir [OF s'(3) o(3)])
  then have "\<forall>vm\<in>set vms. space_ok s' vm" using space_ok_others [OF s'(4)] o(3) by blast
  then show ?thesis using s'(1,2) o(4) new f by (auto simp: spaces_ok_def split: option.split)
qed

lemma spaces_ok_change:
  assumes ok: "spaces_ok g (xs @ vm # ys, s)" and s': "vm_inv g (\<lambda>_. 0) s'" "excl s'" "others_same (pgtab vm) s s'"
  shows "spaces_ok g (xs @ ys, s')" "pgtab vm' = pgtab vm \<Longrightarrow> space_ok s' vm' \<Longrightarrow> spaces_ok g (xs @ vm' # ys, s')"
proof -
  note o = spaces_okD [OF ok]
  have d: "distinct (List.map pgtab (xs @ ys))" "pgtab vm \<notin> pgtab ` set (xs @ ys)" using o(4) by auto
  have "\<forall>v\<in>set (xs @ ys). space_ok s' v"
  proof
    fix v assume v: "v \<in> set (xs @ ys)"
    then have "pgtab v \<noteq> pgtab vm" using d(2) by (metis image_eqI)
    moreover have "space_ok s v" using o(3) v by simp
    ultimately show "space_ok s' v" using space_ok_others [OF s'(3)] by blast
  qed
  then show "spaces_ok g (xs @ ys, s')" "pgtab vm' = pgtab vm \<Longrightarrow> space_ok s' vm' \<Longrightarrow> spaces_ok g (xs @ vm' # ys, s')"
    using s'(1,2) d by (auto simp: spaces_ok_def)
qed

lemma copy_out_run:
  assumes "vm_inv g (\<lambda>_. 0) s" "excl s" "space_ok s vm" "writable s (pgtab vm) dst (length src)" "npages dst (length src) \<le> card (free_pages s)"
  obtains s' where "vm_space_copy_out g (Some vm) src dst s = Some (0, s')" "vm_copy_out g (pgtab vm) src dst s = Some (0, s')"
    "vm_inv g (\<lambda>_. 0) s'" "excl s'" "uwritten s (pgtab vm) dst src s'" "\<forall>p. debug_tag s p = PAGE_TAG_VM \<longrightarrow> debug_tag s' p = PAGE_TAG_VM"
proof -
  have w: "dst + length src \<le> VIRT_KERNEL_BASE" "dst < VIRT_KERNEL_BASE" using assms(4) by (simp_all add: writable_def)
  have wr: "wrap32 (dst + length src) = dst + length src" using w(1) by (simp add: wrap32_def VIRT_KERNEL_BASE_def)
  obtain s' where s': "vm_copy_out_loop g (pgtab vm) src dst s = Some (0, s')" "vm_inv g (\<lambda>_. 0) s'" "excl s'"
      "uwritten s (pgtab vm) dst src s'" "\<forall>p. debug_tag s p = PAGE_TAG_VM \<longrightarrow> debug_tag s' p = PAGE_TAG_VM"
    using vm_copy_out_ok [OF assms(1,2) _ w(1) _ assms(5)] assms(3,4) unfolding writable_def space_ok_def by blast
  have "vm_copy_out g (pgtab vm) src dst s = Some (0, s')" using s'(1) w by (simp add: vm_copy_out_def vm_user_assert_def wr)
  then show thesis using that s' w by (simp add: vm_space_copy_out_def wr)
qed

lemma uwritten_space: "uwritten s pd dst bs s' \<Longrightarrow> \<forall>p. debug_tag s p = PAGE_TAG_VM \<longrightarrow> debug_tag s' p = PAGE_TAG_VM \<Longrightarrow> space_ok s vm \<Longrightarrow> space_ok s' vm"
  by (simp add: space_ok_def uwritten_def)

lemma vm_step_ok: "vm_step g st st' \<Longrightarrow> spaces_ok g st \<Longrightarrow> spaces_ok g st'"
proof (induction rule: vm_step.induct)
  case (create s ok r s' vms)
  note o = spaces_okD [OF create.prems]
  show ?case
  proof (cases ok)
    case False
    then show ?thesis using create by (simp add: vm_space_create_def)
  next
    case True
    obtain vm s1 where s1: "vm_space_create g True s = Some (Some vm, s1)" "vm_inv g (\<lambda>_. 0) s1" "space_ok s1 vm" "same_view s s1" "excl s \<longrightarrow> excl s1"
        "debug_tag s (pgtab vm) = 0" "\<forall>p. debug_tag s p = PAGE_TAG_VM \<longrightarrow> debug_tag s1 p = PAGE_TAG_VM"
      by (rule vm_space_create_ok [OF o(1) create.hyps(1)])
    have "r = Some vm" "s' = s1" using create.hyps(2) s1(1) True by simp_all
    then show ?thesis using spaces_ok_add [OF create.prems s1(2) _ s1(6) same_view_others [OF s1(4,7)], of r] s1(3,5) o(2) by simp
  qed
next
  case (map n s vm addr fl ok r vm' s' xs ys)
  note o = spaces_okD [OF map.prems]
  have sp: "space_ok s vm" using o(3) by simp
  have s': "vm_inv g (\<lambda>_. 0) s'" "excl s'" "space_ok s' vm'" "\<forall>p. debug_tag s p = PAGE_TAG_VM \<longrightarrow> debug_tag s' p = PAGE_TAG_VM"
      "r < 0 \<longrightarrow> vm' = vm \<and> same_view s s'"
      "0 \<le> r \<longrightarrow> pgtab vm' = pgtab vm \<and> ualloced s (pgtab vm) (map_range (nat r) n) fl s'"
    using vmspace_map_ok [OF o(1,2) sp map.hyps(1), of addr fl ok] map.hyps(2,3) by simp_all
  have "others_same (pgtab vm) s s' \<and> pgtab vm' = pgtab vm"
  proof (cases "r < 0")
    case True
    then show ?thesis using s'(4,5) same_view_others by blast
  next
    case False
    then show ?thesis using s'(4,6) by (auto simp: others_same_def ualloced_def)
  qed
  then show ?case using spaces_ok_change(2) [OF map.prems s'(1,2)] s'(3) by blast
next
  case (fork vm s vms ok oks r s')
  note o = spaces_okD [OF fork.prems]
  have sp: "space_ok s vm" using o(3) fork.hyps(2) by simp
  obtain r1 s1 pd where s1: "vm_space_clone g vm False ok oks s = Some (r1, s1)" "vm_inv g (\<lambda>_. 0) s1" "excl s1"
    "debug_tag s pd = 0" "others_same pd s s1"
    "\<forall>new. r1 = Some new \<longrightarrow> pgtab new = pd \<and> areas new = areas vm \<and> space_ok s1 new \<and> ucloned s (pgtab vm) pd (covered (areas vm)) s1"
    by (rule vm_space_clone_ok [OF o(1,2) sp fork.hyps(1)])
  have "r1 = r" "s1 = s'" using s1(1) fork.hyps(3) by simp_all
  then show ?case using spaces_ok_add [OF fork.prems s1(2-5), of r] s1(6) by simp
next
  case (destroy vm s s' xs ys)
  note o = spaces_okD [OF destroy.prems]
  have "vm_inv g (\<lambda>_. 0) s'" "excl s'" "others_same (pgtab vm) s s'"
    using vm_space_destroy_ok [OF o(1), of vm] o(2,3) destroy.hyps by (auto simp: others_same_def)
  then show ?case by (rule spaces_ok_change(1) [OF destroy.prems])
next
  case (copy_out vm vms s dst src r s')
  note o = spaces_okD [OF copy_out.prems]
  have sp: "space_ok s vm" using o(3) copy_out.hyps(1) by simp
  obtain s1 where s1: "vm_space_copy_out g (Some vm) src dst s = Some (0, s1)" "vm_inv g (\<lambda>_. 0) s1" "excl s1" "uwritten s (pgtab vm) dst src s1"
      "\<forall>p. debug_tag s p = PAGE_TAG_VM \<longrightarrow> debug_tag s1 p = PAGE_TAG_VM"
    by (rule copy_out_run [OF o(1,2) sp copy_out.hyps(2,3)])
  have "s1 = s'" using s1(1) copy_out.hyps(4) by simp
  then show ?case using s1(2,3) o(3,4) uwritten_space [OF s1(4,5)] by (auto simp: spaces_ok_def)
qed

text \<open>What holds in every state the steps can reach.\<close>

lemma vm_steps_ok: "(vm_step g)\<^sup>*\<^sup>* st st' \<Longrightarrow> spaces_ok g st \<Longrightarrow> spaces_ok g st'"
  by (induction rule: rtranclp_induct) (auto intro: vm_step_ok)

lemma vm_reachable:
  assumes "(vm_step g)\<^sup>*\<^sup>* ([], s\<^sub>0) (vms, s)" "vm_inv g (\<lambda>_. 0) s\<^sub>0" "excl s\<^sub>0"
  shows "spaces_ok g (vms, s)"
  using vm_steps_ok [OF assms(1)] assms(2,3) by (simp add: spaces_ok_def)

text \<open>C30: however address spaces are created, mapped, forked, written to and destroyed, every page keeps to its type: the directory of an
  address space is tagged as one and has one owner, its tables are tagged as page tables and belong to no other directory, and a page
  that is mapped is tagged as anonymous memory, with as many references as there are mappings of it.\<close>

theorem frames_keep_their_types:
  assumes "(vm_step g)\<^sup>*\<^sup>* ([], s\<^sub>0) (vms, s)" "vm_inv g (\<lambda>_. 0) s\<^sub>0" "excl s\<^sub>0" "vm \<in> set vms"
  shows "debug_tag s (pgtab vm) = PAGE_TAG_VM \<and> ref_count s (pgtab vm) = 1 \<and>
     (\<forall>i<USER_PDES. \<forall>q. table s (pgtab vm) i = Some q \<longrightarrow> debug_tag s q = PAGE_TAG_PGTAB \<and> ref_count s q = 1 \<and>
        (\<forall>vm'\<in>set vms. \<forall>j<USER_PDES. table s (pgtab vm') j = Some q \<longrightarrow> vm' = vm \<and> j = i)) \<and>
     (\<forall>vpn f fl. umap s (pgtab vm, vpn) = Some (f, fl) \<longrightarrow>
        debug_tag s f = PAGE_TAG_ANON \<and> ref_count s f = int (card {k. maps_to f (umap s k)}))"
proof -
  note o = spaces_okD [OF vm_reachable [OF assms(1-3)]]
  have tag: "debug_tag s (pgtab v) = PAGE_TAG_VM" if "v \<in> set vms" for v using o(3) that by (simp add: space_ok_def)
  have inj: "v = vm" if "v \<in> set vms" "pgtab v = pgtab vm" for v
    using o(4) that assms(4) by (auto simp: distinct_map inj_on_def)
  have "vm' = vm \<and> j = i" if "table s (pgtab vm) i = Some q" "table s (pgtab vm') j = Some q" "i < USER_PDES" "j < USER_PDES" "vm' \<in> set vms" for i q vm' j
    using o(1) that tag [OF that(5)] tag [OF assms(4)] inj [OF that(5)] unfolding vm_inv_def tables_distinct_def by blast
  moreover have "debug_tag s q = PAGE_TAG_PGTAB \<and> ref_count s q = 1" if "table s (pgtab vm) i = Some q" "i < USER_PDES" for i q
    using table_Some [OF o(1) tag [OF assms(4)] that(2,1)] by blast
  moreover have "debug_tag s f = PAGE_TAG_ANON \<and> ref_count s f = int (card {k. maps_to f (umap s k)})" if "umap s (pgtab vm, vpn) = Some (f, fl)" for vpn f fl
  proof -
    have "debug_tag s f = PAGE_TAG_ANON" using umap_Some [OF o(1) that] by blast
    then show ?thesis using o(1) by (simp add: vm_inv_def refs_ok_def uses_def)
  qed
  moreover have "ref_count s (pgtab vm) = 1" using o(1) tag [OF assms(4)] by (simp add: vm_inv_def dirs_ok_def)
  ultimately show ?thesis using tag [OF assms(4)] by blast
qed


text \<open>C32: copying bytes to a process, to pages it may write to, stores exactly these bytes at these addresses of its address space, and
  changes no byte of any other address space even where pages are shared; copying them back in gives the bytes.\<close>

theorem copy_out_copy_in:
  assumes "vm_inv g (\<lambda>_. 0) s" "excl s" "space_ok s vm" "writable s (pgtab vm) dst (length src)" "npages dst (length src) \<le> card (free_pages s)"
  shows "\<exists>s'. vm_space_copy_out g (Some vm) src dst s = Some (0, s') \<and>
     (\<forall>pd va. ubyte s' pd va = (if pd = pgtab vm \<and> dst \<le> va \<and> va < dst + length src then Some (src ! (va - dst)) else ubyte s pd va)) \<and>
     vm_space_copy_in g (Some vm) dst (length src) s' = Some (0, src)"
proof -
  obtain s' where s': "vm_space_copy_out g (Some vm) src dst s = Some (0, s')" "vm_inv g (\<lambda>_. 0) s'" "uwritten s (pgtab vm) dst src s'"
      "\<forall>p. debug_tag s p = PAGE_TAG_VM \<longrightarrow> debug_tag s' p = PAGE_TAG_VM"
    by (rule copy_out_run [OF assms])
  have tag: "debug_tag s' (pgtab vm) = PAGE_TAG_VM" using s'(4) assms(3) by (simp add: space_ok_def)
  have w: "dst + length src \<le> VIRT_KERNEL_BASE" "dst < VIRT_KERNEL_BASE" using assms(4) by (simp_all add: writable_def)
  have wr: "wrap32 (dst + length src) = dst + length src" using w(1) by (simp add: wrap32_def VIRT_KERNEL_BASE_def)
  have u: "ubyte s' (pgtab vm) va = Some (src ! (va - dst))" if "dst \<le> va" "va < dst + length src" for va
    using s'(3) that by (simp add: uwritten_def)
  have "map (\<lambda>va. the (ubyte s' (pgtab vm) va)) [dst..<dst + length src] = src"
    by (rule nth_equalityI) (simp_all add: u)
  then have "vm_copy_in_loop g (pgtab vm) dst (length src) [] s' = Some (0, src)"
    using vm_copy_in_ok [OF s'(2) tag w(1), of "[]"] u by simp
  then have "vm_space_copy_in g (Some vm) dst (length src) s' = Some (0, src)"
    using w by (simp add: vm_space_copy_in_def vm_copy_in_def vm_user_assert_def wr)
  then show ?thesis using s'(1,3) unfolding uwritten_def by blast
qed

text \<open>C33: a fork gives the child the areas and the bytes of the parent; from then on neither sees what is written to the other.\<close>

theorem fork_separates:
  assumes "vm_inv g (\<lambda>_. 0) s" "excl s" "space_ok s vm" "area_pages (areas vm) < card (free_pages s)"
    "length (areas vm) \<le> length oks" "\<forall>b\<in>set oks. b"
  shows "\<exists>child s1. vm_space_clone g vm False True oks s = Some (Some child, s1) \<and> areas child = areas vm \<and> pgtab child \<noteq> pgtab vm \<and>
     (\<forall>va. ubyte s1 (pgtab child) va = ubyte s (pgtab vm) va \<and> ubyte s1 (pgtab vm) va = ubyte s (pgtab vm) va) \<and>
     (\<forall>src dst. writable s (pgtab vm) dst (length src) \<and> npages dst (length src) \<le> card (free_pages s1) \<longrightarrow>
        (\<exists>s2. vm_space_copy_out g (Some child) src dst s1 = Some (0, s2) \<and> (\<forall>va. ubyte s2 (pgtab vm) va = ubyte s (pgtab vm) va)) \<and>
        (\<exists>s2. vm_space_copy_out g (Some vm) src dst s1 = Some (0, s2) \<and> (\<forall>va. ubyte s2 (pgtab child) va = ubyte s (pgtab vm) va)))"
proof -
  have tag: "debug_tag s (pgtab vm) = PAGE_TAG_VM" and cov: "\<And>vpn. uflags s (pgtab vm, vpn) \<noteq> None \<longleftrightarrow> vpn \<in> covered (areas vm)"
    using assms(3) by (simp_all add: space_ok_def)
  obtain r s1 pd where s1: "vm_space_clone g vm False True oks s = Some (r, s1)" "vm_inv g (\<lambda>_. 0) s1" "excl s1" "debug_tag s pd = 0"
    "others_same pd s s1"
    "\<forall>new. r = Some new \<longrightarrow> pgtab new = pd \<and> areas new = areas vm \<and> space_ok s1 new \<and> ucloned s (pgtab vm) pd (covered (areas vm)) s1"
    "True \<and> length (areas vm) \<le> length oks \<and> (\<forall>b\<in>set oks. b) \<longrightarrow> r \<noteq> None"
    by (rule vm_space_clone_ok [OF assms(1-4)])
  obtain child where r: "r = Some child" using s1(7) assms(5,6) by blast
  have c: "pgtab child = pd" "areas child = areas vm" "space_ok s1 child" "ucloned s (pgtab vm) pd (covered (areas vm)) s1"
    using s1(6) r by simp_all
  have ne: "pd \<noteq> pgtab vm" using tag s1(4) by (auto simp: page_tag_defs)
  have new: "umap s (pd, vpn) = None" for vpn using s1(4) by (simp add: umap_def ukeys_def page_tag_defs)
  have out: "umap s (pgtab vm, vpn) = None" if "vpn \<notin> covered (areas vm)" for vpn
    using cov [of vpn] that by (simp add: umap_None_iff)
  have fl: "uflags s1 (pd, vpn) = uflags s (pgtab vm, vpn)" for vpn
    using c(4) out [of vpn] new [of vpn] by (cases "vpn \<in> covered (areas vm)") (simp_all add: ucloned_def uflags_def)
  have rd: "uread s1 (pd, vpn) off = uread s (pgtab vm, vpn) off" if "off < PAGE_SIZE" for vpn off
    using c(4) that out [of vpn] new [of vpn] by (cases "vpn \<in> covered (areas vm)") (simp_all add: ucloned_def uread_def)
  have bytes: "ubyte s1 pd va = ubyte s (pgtab vm) va" "uaccess s1 pd va = uaccess s (pgtab vm) va" for va
    using rd [of "va mod PAGE_SIZE" "va div PAGE_SIZE"] fl [of "va div PAGE_SIZE"] by (simp_all add: ubyte_def uaccess_def PAGE_SIZE_def)
  have par: "ubyte s1 (pgtab vm) va = ubyte s (pgtab vm) va" "uaccess s1 (pgtab vm) va = uaccess s (pgtab vm) va" for va
    using s1(5) ne by (simp_all add: others_same_def ubyte_def uaccess_def PAGE_SIZE_def)
  have sp: "space_ok s1 vm" using space_ok_others [OF s1(5) assms(3)] ne by simp
  have "(\<exists>s2. vm_space_copy_out g (Some child) src dst s1 = Some (0, s2) \<and> (\<forall>va. ubyte s2 (pgtab vm) va = ubyte s (pgtab vm) va)) \<and>
        (\<exists>s2. vm_space_copy_out g (Some vm) src dst s1 = Some (0, s2) \<and> (\<forall>va. ubyte s2 pd va = ubyte s (pgtab vm) va))"
    if w: "writable s (pgtab vm) dst (length src)" and n: "npages dst (length src) \<le> card (free_pages s1)" for src dst
  proof -
    have w1: "writable s1 (pgtab child) dst (length src)" "writable s1 (pgtab vm) dst (length src)" using w by (simp_all add: writable_def c(1) bytes par)
    obtain s2 where s2: "vm_space_copy_out g (Some child) src dst s1 = Some (0, s2)" "uwritten s1 (pgtab child) dst src s2"
      by (rule copy_out_run [OF s1(2,3) c(3) w1(1) n])
    obtain s3 where s3: "vm_space_copy_out g (Some vm) src dst s1 = Some (0, s3)" "uwritten s1 (pgtab vm) dst src s3"
      by (rule copy_out_run [OF s1(2,3) sp w1(2) n])
    show ?thesis using s2 s3 ne bytes par by (simp add: uwritten_def c(1))
  qed
  then show ?thesis using s1(1) c(1,2) ne bytes par by (simp add: r)
qed

text \<open>C34: destroying an address space gives back its directory and every page that only it maps, and changes nothing for the others.\<close>

theorem vm_space_destroy_gives_back:
  assumes "vm_inv g (\<lambda>_. 0) s" "space_ok s vm"
  shows "\<exists>s'. vm_space_destroy g vm s = Some s' \<and> vm_inv g (\<lambda>_. 0) s' \<and> others_same (pgtab vm) s s' \<and>
     free_pages s \<union> {pgtab vm} \<union> {f. (\<exists>k. maps_to f (umap s k)) \<and> (\<forall>k. maps_to f (umap s k) \<longrightarrow> fst k = pgtab vm)} \<subseteq> free_pages s'"
proof -
  obtain s' where s': "vm_space_destroy g vm s = Some s'" "vm_inv g (\<lambda>_. 0) s'"
      "\<forall>k. fst k \<noteq> pgtab vm \<longrightarrow> uflags s' k = uflags s k \<and> (\<forall>off<PAGE_SIZE. uread s' k off = uread s k off)"
      "free_pages s \<union> {pgtab vm} \<subseteq> free_pages s'" "\<forall>p. p \<noteq> pgtab vm \<and> debug_tag s p = PAGE_TAG_VM \<longrightarrow> debug_tag s' p = PAGE_TAG_VM"
      "\<forall>f. (\<exists>k. maps_to f (umap s k)) \<and> (0 :: int) = 0 \<and> (\<forall>k. maps_to f (umap s k) \<longrightarrow> fst k = pgtab vm) \<longrightarrow> f \<in> free_pages s'"
    using vm_space_destroy_ok [OF assms] by (elim exE conjE)
  have "others_same (pgtab vm) s s'" using s'(3,5) by (simp add: others_same_def)
  moreover have "{f. (\<exists>k. maps_to f (umap s k)) \<and> (\<forall>k. maps_to f (umap s k) \<longrightarrow> fst k = pgtab vm)} \<subseteq> free_pages s'"
    using s'(6) by (intro subsetI) simp
  ultimately show ?thesis using s'(1,2,4) by simp
qed


subsection \<open>An address space that cannot be destroyed\<close>

lemma page_dec_ref_phys:
  assumes "page_dec_ref p ord s = Some s'"
  shows "phys s' = phys s"
proof -
  have add: "phys s2 = phys s1" if "page_list_add p ord s1 = Some s2" for p ord s1 s2
    using that by (auto simp: page_list_add_def Let_def bind_eq_Some_conv split: if_splits)
  have rm: "phys s2 = phys s1" if "page_k_list_remove p ord s1 = Some s2" for p ord s1 s2
    using that by (auto simp: page_k_list_remove_def Let_def bind_eq_Some_conv split: if_splits)
  have mg: "phys s2 = phys s1" if "page_merge ord p s1 = Some (o', p', s2)" for ord p s1 o' p' s2
    using that
  proof (induction ord p s1 rule: page_merge.induct)
    case (1 ord p s1)
    have e: "page_merge ord p s1 = Some (o', p', s2)" using "1.prems" .
    show ?case
      using e [unfolded page_merge.simps [of ord p s1]] "1.IH" rm
      by (auto simp: Let_def bind_eq_Some_conv split: if_splits)
  qed
  have "phys s2 = phys s1" if "page_free_block p ord s1 = Some s2" for p ord s1 s2
    using that by (auto simp: page_free_block_def Let_def bind_eq_Some_conv split: if_splits dest!: add mg)
  then show ?thesis using assms by (auto simp: page_dec_ref_def Let_def split: if_splits)
qed

lemma destroy_tables_empty:
  "destroy_tables g is pd s = Some s' \<Longrightarrow> i \<in> set is \<Longrightarrow> pde_at s pd i \<noteq> 0 \<Longrightarrow>
   \<exists>q a. pa2page (page_count g) (unat (PTE_BASE (pde_at s pd i))) = Some q \<and> page2kva g q = Some a \<and>
     (\<forall>j<PGTAB_NR_ENTRIES. \<not> bit (load32 (phys s) (a + 4 * j)) 0)"
proof (induction "is" arbitrary: s)
  case (Cons i' "is")
  have at: "load32 (phys s) (pd * PAGE_SIZE + 4 * i') = pde_at s pd i'" by (simp add: pde_at_def)
  show ?case
  proof (cases "pde_at s pd i' = 0")
    case True
    then show ?thesis using Cons at by auto
  next
    case False
    obtain q a s1 where q: "pa2page (page_count g) (unat (PTE_BASE (pde_at s pd i'))) = Some q" "page2kva g q = Some a"
        "\<forall>j<PGTAB_NR_ENTRIES. \<not> arch_vm_pte_valid (a + 4 * j) s" "page_dec_ref q 0 s = Some s1" "destroy_tables g is pd s1 = Some s'"
      using Cons.prems(1) False at by (auto simp: Let_def bind_eq_Some_conv split: if_splits)
    have p: "phys s1 = phys s" by (rule page_dec_ref_phys [OF q(4)])
    then have "pde_at s1 pd i = pde_at s pd i" by (simp add: pde_at_def)
    then show ?thesis using Cons.IH [OF q(5)] Cons.prems(2,3) q(1-3) p by (cases "i = i'") (auto simp: pte_tests)
  qed
qed simp

lemma arch_vm_destroy_in_use:
  assumes inv: "vm_inv g x s" and u: "umap s (pd, vpn) = Some m"
  shows "arch_vm_destroy g pd s = None"
proof (rule ccontr)
  assume "arch_vm_destroy g pd s \<noteq> None"
  then obtain s' where d: "destroy_tables g [0..<PGDIR_IDX VIRT_KERNEL_BASE] pd s = Some s'"
    by (auto simp: arch_vm_destroy_def bind_eq_Some_conv)
  obtain q where q: "table s pd (vpn div 1024) = Some q" using umap_table [OF u] by blast
  have k: "(pd, vpn) \<in> ukeys s" "bit (entry s (pd, vpn)) 0" using u by (auto simp: umap_def split: if_splits)
  note i = ukeys_idx [OF k(1)]
  note t = table_Some [OF inv _ _ q]
  have tq: "q < page_count g" "pde_at s pd (vpn div 1024) = mk_pde q" using t i by auto
  have b: "unat (PTE_BASE (pde_at s pd (vpn div 1024))) = q * PAGE_SIZE" using tq mk_pde_simps(1) [OF vm_inv_N [OF inv]] by simp
  have "pde_at s pd (vpn div 1024) \<noteq> 0" using q by (auto simp: table_def)
  moreover have "vpn div 1024 \<in> set [0..<PGDIR_IDX VIRT_KERNEL_BASE]"
    using i by (simp add: USER_PDES_def PGDIR_IDX_def VIRT_KERNEL_BASE_def)
  ultimately obtain q' a where "pa2page (page_count g) (q * PAGE_SIZE) = Some q'" "page2kva g q' = Some a"
      "\<forall>j<PGTAB_NR_ENTRIES. \<not> bit (load32 (phys s) (a + 4 * j)) 0"
    using destroy_tables_empty [OF d, of "vpn div 1024"] unfolding b by blast
  then have "\<not> bit (load32 (phys s) (q * PAGE_SIZE + 4 * (vpn mod 1024))) 0"
    using pa2page_page [OF tq(1)] page2kva_page [OF inv tq(1)] by (simp add: PGTAB_NR_ENTRIES_def)
  then show False using k(2) q by (simp add: entry_def)
qed

text \<open>The area that is enlarged at its front keeps its length, so its last pages are no longer described.\<close>

lemma grown_down:
  assumes ok: "areas_ok 0 (before @ q # ys)" and gap: "gap_at va n before (q # ys)" and q: "start q = va + n"
  defines "as \<equiv> before @ q\<lparr>start := va\<rparr> # ys"
  shows "areas_ok 0 as" "area_end q div PAGE_SIZE - 1 \<notin> covered as" "area_end q div PAGE_SIZE - 1 \<in> covered (before @ q # ys)"
proof -
  have g: "va mod PAGE_SIZE = 0" "n mod PAGE_SIZE = 0" "0 < n" "last_end 0 before \<le> va" using gap by (simp_all add: gap_at_def)
  have o: "areas_ok 0 before" "alength q mod PAGE_SIZE = 0" "0 < alength q" "area_end q \<le> VIRT_KERNEL_BASE" "areas_ok (area_end q) ys"
    using ok by (simp_all add: areas_ok_append)
  have e: "area_end (q\<lparr>start := va\<rparr>) + n = area_end q" using q by (simp add: area_end_def)
  have ys: "areas_ok (area_end (q\<lparr>start := va\<rparr>)) ys" by (rule areas_ok_mono [OF o(5)]) (use e in simp)
  show "areas_ok 0 as" using o g ys e by (simp add: as_def areas_ok_append)
  obtain a b c where k: "va = PAGE_SIZE * a" "n = PAGE_SIZE * b" "alength q = PAGE_SIZE * c"
    using g(1,2) o(2) by (metis mod_eq_0_iff_dvd dvdE)
  have pos: "0 < b" "0 < c" using g(3) o(3) by (auto simp: k)
  have d: "area_end q div PAGE_SIZE = a + b + c" "start q div PAGE_SIZE = a + b" "area_end (q\<lparr>start := va\<rparr>) div PAGE_SIZE = a + c" "va div PAGE_SIZE = a"
    by (simp_all add: area_end_def q k PAGE_SIZE_def)
  have "a + b + c - 1 \<notin> covered before"
  proof
    assume "a + b + c - 1 \<in> covered before"
    from covered_below [OF o(1) this] div_le_mono [OF g(4), of PAGE_SIZE] have "a + b + c - 1 < a" unfolding d by (metis less_le_trans)
    then show False using pos by simp
  qed
  moreover have "a + b + c - 1 \<notin> covered ys"
    using covered_below [OF o(5), of "a + b + c - 1"] pos unfolding d by auto
  ultimately show "area_end q div PAGE_SIZE - 1 \<notin> covered as"
    using pos unfolding d as_def by (simp add: apages_def d) arith
  have "a + b \<le> a + b + c - 1" using pos by arith
  then show "area_end q div PAGE_SIZE - 1 \<in> covered (before @ q # ys)"
    using pos by (simp add: apages_def d)
qed

text \<open>C36: a request whose area can only be merged with the next area succeeds, but the merged area keeps its old length, and
  destroying the address space panics, as pages are still mapped.\<close>

theorem grown_down_area_panics:
  assumes "vm_inv g (\<lambda>_. 0) s" "space_ok s vm" "grows_down vm addr n fl" "map_start addr + round_up_page n \<le> VIRT_KERNEL_BASE" "round_up_page n \<noteq> 0"
    "2 * (round_up_page n div PAGE_SIZE) \<le> card (free_pages s)"
  shows "\<exists>r vm' s'. vmspace_map g vm addr n fl ok s = Some (r, vm', s') \<and> 0 \<le> r \<and> vm_space_destroy g vm' s' = None"
proof -
  let ?m = "round_up_page n"
  have tag: "debug_tag s (pgtab vm) = PAGE_TAG_VM" and ar: "areas_ok 0 (areas vm)"
    and cov: "\<And>vpn. uflags s (pgtab vm, vpn) \<noteq> None \<longleftrightarrow> vpn \<in> covered (areas vm)"
    using assms(2) by (simp_all add: space_ok_def)
  obtain va before behind where f: "find_gap (map_start addr) ?m [] (areas vm) = (va, before, behind)" by (metis prod_cases3)
  from find_gap_ok [OF ar _ f] have g: "areas vm = before @ behind" "va mod PAGE_SIZE = 0" "last_end 0 before \<le> va"
      "behind = [] \<or> va + ?m \<le> start (hd behind)" by auto
  have mn: "can_merge_next (va + ?m) fl behind" "\<not> can_merge_prev va fl before" using assms(3) f by (simp_all add: grows_down_def)
  then obtain q ys where q: "behind = q # ys" "start q = va + ?m" by (cases behind) (auto simp: can_merge_next_def)
  have top: "va + ?m \<le> VIRT_KERNEL_BASE" using ar area_memberD(4) [OF ar, of q] by (simp add: g(1) q)
  have gap: "gap_at va ?m before (q # ys)" using g top assms(5) by (simp add: gap_at_def q)
  have gg: "va mod PAGE_SIZE = 0" "?m mod PAGE_SIZE = 0" "0 < ?m" "va + ?m \<le> VIRT_KERNEL_BASE" using gap by (simp_all add: gap_at_def)
  obtain s1 where s1: "vm_user_alloc g (pgtab vm) va ?m fl s = Some (0, s1)" "vm_inv g (\<lambda>_. 0) s1"
      "ualloced s (pgtab vm) {va div PAGE_SIZE..<(va + ?m) div PAGE_SIZE} fl s1" "\<forall>p. debug_tag s p = PAGE_TAG_VM \<longrightarrow> debug_tag s1 p = PAGE_TAG_VM"
    by (rule area_alloc [OF assms(1) tag gg assms(6)])
  define vm' where "vm' = vm\<lparr>areas := before @ q\<lparr>start := va\<rparr> # ys\<rparr>"
  have "enter_area va ?m fl before behind ok = Some (areas vm')" using mn by (simp add: enter_area_def vm'_def q(1))
  moreover have "wrap32 (map_start addr + ?m) = map_start addr + ?m" using assms(4) by (simp add: wrap32_def VIRT_KERNEL_BASE_def)
  ultimately have map: "vmspace_map g vm addr n fl ok s = Some (int va, vm', s1)"
    using assms(4,5) f top s1(1) unfolding vmspace_map_def map_start_def [symmetric] by (simp add: Let_def vm'_def)
  define vpn where "vpn = area_end q div PAGE_SIZE - 1"
  note gd = grown_down [OF _ gap q(2)]
  have ok': "areas_ok 0 (areas vm')" "vpn \<notin> covered (areas vm')" "vpn \<in> covered (areas vm)"
    using gd ar unfolding vpn_def vm'_def g(1) q(1) by simp_all
  have "uflags s1 (pgtab vm, vpn) \<noteq> None" using s1(3) cov [of vpn] ok'(3) by (simp add: ualloced_def)
  moreover obtain s2 where s2: "free_areas g (pgtab vm) (areas vm') s1 = Some s2" "vm_inv g (\<lambda>_. 0) s2" "ufreed s1 (pgtab vm) (covered (areas vm')) s2"
    using free_areas_ok [OF s1(2) _ ok'(1)] tag s1(4) by blast
  ultimately have "umap s2 (pgtab vm, vpn) \<noteq> None" using ok'(2) by (simp add: ufreed_def uflags_def)
  then have "arch_vm_destroy g (pgtab vm) s2 = None" using arch_vm_destroy_in_use [OF s2(2)] by blast
  then have "vm_space_destroy g vm' s1 = None" using s2(1) by (simp add: vm_space_destroy_def) (simp add: vm'_def)
  then show ?thesis using map by simp
qed


subsection \<open>Witnesses\<close>

text \<open>An address space with two writable pages, and many pages still free.\<close>

definition demo_pages :: "nat \<Rightarrow> nat set" where
  "demo_pages base = {base div PAGE_SIZE..<(base + 2 * PAGE_SIZE) div PAGE_SIZE}"

lemma demo_space:
  assumes base: "base mod PAGE_SIZE = 0" "0 < base" "base + 2 * PAGE_SIZE \<le> VIRT_KERNEL_BASE"
  obtains vm s where "(vm_step boot_globals)\<^sup>*\<^sup>* ([], boot_pages) ([vm], s)" "vm_inv boot_globals (\<lambda>_. 0) s" "excl s" "space_ok s vm"
    "areas vm = demo_areas base" "50 \<le> card (free_pages s)"
    "\<forall>vpn\<in>demo_pages base. (\<exists>f. umap s (pgtab vm, vpn) = Some (f, canon (demo_flags OR VM_PAGE))) \<and> (\<forall>off<PAGE_SIZE. uread s (pgtab vm, vpn) off = Some 0)"
proof -
  let ?n = "2 * PAGE_SIZE"
  obtain v s1 where s1: "vm_space_create boot_globals True boot_pages = Some (Some v, s1)" "vm_inv boot_globals (\<lambda>_. 0) s1" "areas v = []"
    "space_ok s1 v" "same_view boot_pages s1" "excl boot_pages \<longrightarrow> excl s1" "card (free_pages boot_pages) = Suc (card (free_pages s1))"
    by (rule vm_space_create_ok [OF boot_ok(1)]) (simp_all add: boot_ok(3))
  have c: "card (free_pages s1) = 62" using s1(7) by (simp add: boot_ok(3))
  have tag: "debug_tag s1 (pgtab v) = PAGE_TAG_VM" using s1(4) by (simp add: space_ok_def)
  have n: "?n mod PAGE_SIZE = 0" "0 < ?n" "2 * (?n div PAGE_SIZE) = 4" by (simp_all add: PAGE_SIZE_def)
  obtain s2 where s2: "vm_user_alloc boot_globals (pgtab v) base ?n demo_flags s1 = Some (0, s2)" "vm_inv boot_globals (\<lambda>_. 0) s2"
      "ualloced s1 (pgtab v) (demo_pages base) demo_flags s2"
      "excl s1 \<longrightarrow> excl s2" "\<forall>p. debug_tag s1 p = PAGE_TAG_VM \<longrightarrow> debug_tag s2 p = PAGE_TAG_VM"
      "card (free_pages s1) \<le> card (free_pages s2) + 2 * (?n div PAGE_SIZE)"
    unfolding demo_pages_def by (rule area_alloc [OF s1(2) tag base(1) n(1,2) base(3)]) (simp_all add: c n(3))
  define vm where "vm = v\<lparr>areas := demo_areas base\<rparr>"
  have "areas_ok 0 (demo_areas base)" "covered (demo_areas base) = demo_pages base"
    using base n by (simp_all add: demo_areas_def area_end_def apages_def demo_pages_def)
  then have sp: "space_ok s2 vm" using s1(3,4) s2(3,5) by (auto simp: space_ok_def ualloced_def vm_def)
  have w: "wrap32 (base + ?n) = base + ?n" using base(3) by (simp add: wrap32_def VIRT_KERNEL_BASE_def)
  have ru: "round_up_page ?n = ?n" by (simp add: round_up_page_def wrap32_def PAGE_SIZE_def)
  obtain k where k: "base = PAGE_SIZE * k" using base(1) by auto
  have "wrap32 (base + PAGE_SIZE - 1) = base + PAGE_SIZE - 1" using base(3) by (simp add: wrap32_def VIRT_KERNEL_BASE_def PAGE_SIZE_def)
  then have rb: "round_up_page base = base" unfolding round_up_page_def by (simp add: k PAGE_SIZE_def)
  have "base < VIRT_KERNEL_BASE" "base < base + ?n" using base(3) n(2) by linarith+
  then have m: "vmspace_map boot_globals v base ?n demo_flags True s1 = Some (int base, vm, s2)"
    unfolding vmspace_map_def ru rb using s2(1) base(2,3)
    by (simp add: Let_def s1(3) w enter_area_def can_merge_prev_def can_merge_next_def vm_def demo_areas_def)
  have "vm_step boot_globals ([], boot_pages) ([] @ (case Some v of None \<Rightarrow> [] | Some vm \<Rightarrow> [vm]), s1)"
    by (rule vm_step.create [OF _ s1(1)]) (simp add: boot_ok(3))
  moreover have "vm_step boot_globals ([] @ v # [], s1) ([] @ vm # [], s2)"
    by (rule vm_step.map [OF _ _ m]) (simp_all add: ru c n(3) grows_down_def s1(3) can_merge_next_def)
  ultimately have reach: "(vm_step boot_globals)\<^sup>*\<^sup>* ([], boot_pages) ([vm], s2)" by simp
  have "\<forall>vpn\<in>demo_pages base. (\<exists>f. umap s2 (pgtab vm, vpn) = Some (f, canon (demo_flags OR VM_PAGE))) \<and> (\<forall>off<PAGE_SIZE. uread s2 (pgtab vm, vpn) off = Some 0)"
    using s2(3) by (simp add: ualloced_def vm_def)
  moreover have "50 \<le> card (free_pages s2)" using s2(6) unfolding c n(3) by simp
  ultimately show thesis using that [of vm s2] reach s2(2,4) sp s1(6) boot_ok(2) by (simp add: vm_def)
qed

lemma demo_flags_bits: "bit (canon (demo_flags OR VM_PAGE)) 1" "bit (eff (canon (demo_flags OR VM_PAGE))) 1"
  by (simp_all add: bit_eff bit_canon demo_flags_def bit_or_iff)

lemma demo_pages_2: "demo_pages (2 * PAGE_SIZE) = {2, 3}"
  by (auto simp: demo_pages_def PAGE_SIZE_def)

lemma demo_space_2:
  obtains vm s where "(vm_step boot_globals)\<^sup>*\<^sup>* ([], boot_pages) ([vm], s)" "vm_inv boot_globals (\<lambda>_. 0) s" "excl s" "space_ok s vm"
    "areas vm = demo_areas (2 * PAGE_SIZE)" "50 \<le> card (free_pages s)"
    "\<forall>vpn\<in>{2, 3}. \<exists>f fl. umap s (pgtab vm, vpn) = Some (f, fl) \<and> bit fl 1 \<and> bit (eff fl) 1"
    "ubyte s (pgtab vm) (2 * PAGE_SIZE) = Some 0"
proof -
  have "2 * PAGE_SIZE mod PAGE_SIZE = 0" "0 < 2 * PAGE_SIZE" "2 * PAGE_SIZE + 2 * PAGE_SIZE \<le> VIRT_KERNEL_BASE"
      "2 * PAGE_SIZE div PAGE_SIZE = 2" "2 * PAGE_SIZE mod PAGE_SIZE < PAGE_SIZE"
    by (simp_all add: PAGE_SIZE_def VIRT_KERNEL_BASE_def)
  note b = this
  show thesis
    by (rule demo_space [OF b(1-3)], rule that) (use b(4,5) demo_flags_bits demo_pages_2 in \<open>auto simp: ubyte_def\<close>)
qed

theorem frames_keep_their_types_witness:
  "\<exists>vm s. (vm_step boot_globals)\<^sup>*\<^sup>* ([], boot_pages) ([vm], s) \<and> debug_tag s (pgtab vm) = PAGE_TAG_VM \<and> ref_count s (pgtab vm) = 1"
proof -
  obtain vm s where "(vm_step boot_globals)\<^sup>*\<^sup>* ([], boot_pages) ([vm], s)" by (rule demo_space_2)
  then show ?thesis using frames_keep_their_types [OF _ boot_ok(1,2), of "[vm]" s vm] by auto
qed


lemma demo_writable:
  assumes "\<forall>vpn\<in>{2, 3}. \<exists>f fl. umap s (pd, vpn) = Some (f, fl) \<and> bit fl 1 \<and> bit (eff fl) 1"
  shows "writable s pd (3 * PAGE_SIZE - 1) 2" "npages (3 * PAGE_SIZE - 1) 2 = 2"
proof -
  have "va div PAGE_SIZE \<in> {2, 3}" if "3 * PAGE_SIZE - 1 \<le> va" "va < 3 * PAGE_SIZE - 1 + 2" for va
  proof -
    have "va = 12287 \<or> va = 12288" using that by (auto simp: PAGE_SIZE_def)
    then show ?thesis by (auto simp: PAGE_SIZE_def)
  qed
  then show "writable s pd (3 * PAGE_SIZE - 1) 2"
    using assms unfolding writable_def uaccess_def uflags_def
    by (intro conjI allI impI) (simp_all add: VIRT_KERNEL_BASE_def PAGE_SIZE_def, fastforce)
  show "npages (3 * PAGE_SIZE - 1) 2 = 2" by (simp add: npages_def PAGE_SIZE_def)
qed

text \<open>Two bytes across the border of two pages.\<close>

theorem copy_out_copy_in_witness:
  "\<exists>vm s s'. vm_space_copy_out boot_globals (Some vm) [7, 8] (3 * PAGE_SIZE - 1) s = Some (0, s') \<and>
     ubyte s' (pgtab vm) (3 * PAGE_SIZE) = Some 8 \<and> vm_space_copy_in boot_globals (Some vm) (3 * PAGE_SIZE - 1) 2 s' = Some (0, [7, 8])"
proof -
  obtain vm s where s: "vm_inv boot_globals (\<lambda>_. 0) s" "excl s" "space_ok s vm" "50 \<le> card (free_pages s)"
      "\<forall>vpn\<in>{2, 3}. \<exists>f fl. umap s (pgtab vm, vpn) = Some (f, fl) \<and> bit fl 1 \<and> bit (eff fl) 1" by (rule demo_space_2)
  have l: "length [7, 8 :: u8] = 2" by simp
  have w: "writable s (pgtab vm) (3 * PAGE_SIZE - 1) (length [7, 8 :: u8])" "npages (3 * PAGE_SIZE - 1) (length [7, 8 :: u8]) \<le> card (free_pages s)"
    unfolding l using demo_writable [OF s(5)] s(4) by simp_all
  have "3 * PAGE_SIZE - 1 \<le> 3 * PAGE_SIZE" "3 * PAGE_SIZE < 3 * PAGE_SIZE - 1 + 2" "3 * PAGE_SIZE - (3 * PAGE_SIZE - 1) = 1"
    by (simp_all add: PAGE_SIZE_def)
  note p = this
  obtain s' where s': "vm_space_copy_out boot_globals (Some vm) [7, 8] (3 * PAGE_SIZE - 1) s = Some (0, s')"
      "\<forall>pd va. ubyte s' pd va = (if pd = pgtab vm \<and> 3 * PAGE_SIZE - 1 \<le> va \<and> va < 3 * PAGE_SIZE - 1 + 2
         then Some ([7, 8] ! (va - (3 * PAGE_SIZE - 1))) else ubyte s pd va)"
      "vm_space_copy_in boot_globals (Some vm) (3 * PAGE_SIZE - 1) 2 s' = Some (0, [7, 8])"
    using copy_out_copy_in [OF s(1-3) w] unfolding l by blast
  have "ubyte s' (pgtab vm) (3 * PAGE_SIZE) = Some ([7, 8] ! (3 * PAGE_SIZE - (3 * PAGE_SIZE - 1)))" using s'(2) p(1,2) by simp
  then have "ubyte s' (pgtab vm) (3 * PAGE_SIZE) = Some 8" unfolding p(3) by simp
  with s'(1,3) show ?thesis by blast
qed

theorem fork_separates_witness:
  "\<exists>vm s child s1. vm_space_clone boot_globals vm False True [True] s = Some (Some child, s1) \<and>
     ubyte s (pgtab vm) (2 * PAGE_SIZE) = Some 0 \<and> ubyte s1 (pgtab child) (2 * PAGE_SIZE) = Some 0"
proof -
  obtain vm s where s: "vm_inv boot_globals (\<lambda>_. 0) s" "excl s" "space_ok s vm" "areas vm = demo_areas (2 * PAGE_SIZE)" "50 \<le> card (free_pages s)"
      "ubyte s (pgtab vm) (2 * PAGE_SIZE) = Some 0" by (rule demo_space_2)
  have "area_pages (areas vm) < card (free_pages s)" "length (areas vm) \<le> length [True]" "\<forall>b\<in>set [True]. b"
    using s(4,5) by (simp_all add: demo_areas_def area_pages_def PAGE_SIZE_def)
  from fork_separates [OF s(1-3) this] s(6) show ?thesis by metis
qed

theorem vm_space_destroy_gives_back_witness:
  "\<exists>vm s s'. vm_space_destroy boot_globals vm s = Some s' \<and> pgtab vm \<in> free_pages s' \<and> pgtab vm \<notin> free_pages s"
proof -
  obtain vm s where s: "vm_inv boot_globals (\<lambda>_. 0) s" "space_ok s vm" by (rule demo_space_2)
  have "pgtab vm \<notin> free_pages s"
    using s page_inv_tagged [of 64 s "pgtab vm"] by (simp add: vm_inv_def boot_globals_def space_ok_def page_tag_defs)
  then show ?thesis using vm_space_destroy_gives_back [OF s] by auto
qed

lemma demo_rounded: "round_up_page 1 = PAGE_SIZE" "map_start PAGE_SIZE = PAGE_SIZE" "map_start (4 * PAGE_SIZE) = 4 * PAGE_SIZE"
    "2 * (PAGE_SIZE div PAGE_SIZE) \<le> 50"
  by (simp_all add: map_start_def round_up_page_def wrap32_def PAGE_SIZE_def)


theorem grown_down_area_panics_witness:
  "\<exists>vm s r vm' s'. vmspace_map boot_globals vm PAGE_SIZE 1 demo_flags True s = Some (r, vm', s') \<and> 0 \<le> r \<and>
     vm_space_destroy boot_globals vm' s' = None"
proof -
  obtain vm s where s: "vm_inv boot_globals (\<lambda>_. 0) s" "space_ok s vm" "areas vm = demo_areas (2 * PAGE_SIZE)" "50 \<le> card (free_pages s)"
    by (rule demo_space_2)
  have "grows_down vm PAGE_SIZE 1 demo_flags" unfolding grows_down_def demo_rounded s(3)
    by (simp add: demo_areas_def can_merge_next_def can_merge_prev_def)
  moreover have "map_start PAGE_SIZE + round_up_page 1 \<le> VIRT_KERNEL_BASE" "round_up_page 1 \<noteq> 0"
    unfolding demo_rounded by (simp_all add: PAGE_SIZE_def VIRT_KERNEL_BASE_def)
  moreover have "2 * (round_up_page 1 div PAGE_SIZE) \<le> card (free_pages s)" unfolding demo_rounded using demo_rounded(4) s(4) by linarith
  ultimately show ?thesis using grown_down_area_panics [OF s(1,2), of PAGE_SIZE 1 demo_flags True] by blast
qed


end
