(* ===== verification/Spec2Isabelle.thy ===== *)
theory Spec2Isabelle
  imports K_List K_Safety K_Irq K_Timer K_Mailbox Lib_Strtol Lib_Time Screen Page Page_Table Vm Vm_Ops Vm_Space Vm_Areas Vm_Safety
begin

text \<open>
  This development models parts of the Argentum operating system kernel (\<open>src/kernel\<close>) and proves
  what they promise.  Argentum is a small UNIX-like system in C for the i386 and the ARM.

  \<^bold>\<open>Conventions.\<close>  A C function is a function on explicit states.  Its result type is an \<open>option\<close>:
  \<open>None\<close> stands for everything after which the kernel does not go on, namely \<open>k_panic\<close>, a failed \<open>k_assert\<close>,
  an access outside of an object, and a loop that does not end.  A theorem that an operation yields \<open>Some\<close> therefore
  says that none of these happens.  Error codes are negative integers as in the source, or the left part of a sum type.
  A section of code that holds one spinlock is one step: \<open>K_Irq\<close> shows that the spinlocks exclude each other and
  that interrupts stay masked while one is held.  Memory is a map from addresses to bytes, and machine integers are
  words or numbers with the wrap-around written out.  Callbacks, the architecture's context switch, the display, and whether
  an object pool has memory left are parameters.

  \<^bold>\<open>Kernel core\<close> (\<open>src/kernel/core\<close>).
  \<^item> \<open>K_List\<close> models \<open>list.h\<close>, circular lists of links in a heap, and shows that the pointer operations are those on
    sequences.
  \<^item> \<open>K_Timeout\<close> models \<open>timeout.c\<close>, queues of delays relative to the entry before.  The locale
    \<open>deadline_queue\<close> states the contract by deadlines; the scheduler and the timers use its interpretation.
  \<^item> \<open>K_Sched\<close>, \<open>K_Mutex\<close>, \<open>K_Task\<close>, \<open>K_Condvar\<close> and \<open>K_Semaphore\<close> model
    \<open>sched.c\<close>, \<open>mutex.c\<close>, \<open>task.c\<close>, \<open>condvar.c\<close>, \<open>semaphore.c\<close> and
    \<open>waitqueue.c\<close> over one state: tasks with states and priorities, run queues by priority, wait queues, mutexes with their
    waiters and owners, and for each task the point at which it gave up the CPU.
  \<^item> \<open>K_Kernel\<close> is the step relation of all calls on several CPUs.  Its invariant is preserved by every step; \<open>K_Safety\<close> draws the
    conclusions: run queues and task states agree, priorities are inherited along chains of mutexes, a released mutex is handed
    to the waiter of the highest priority, no wake-up of a semaphore is lost, releasing a mutex and going to sleep on a condition variable is
    atomic, and callers that follow the rules never make the core panic.  The walk along the chain of owners ends, which is proved with
    a bound and not with fuel.
  \<^item> \<open>K_Irq\<close> models the masking of interrupts and the spinlocks with the hardware's atomic exchange; \<open>K_Timer\<close> models \<open>timer.c\<close>
    and \<open>tick.c\<close>; \<open>K_Mailbox\<close> models \<open>mailbox.c\<close>, whose ring of messages is an interpretation of the locale \<open>bounded_fifo\<close>
    of \<open>Bounded_Fifo\<close>.

  \<^bold>\<open>Library\<close> (\<open>src/kernel/lib\<close>).  \<open>Lib_String\<close> models the memory and string functions,
  \<open>Lib_Time\<close> the conversion of calendar time, \<open>Lib_Printf\<close> formatted output, \<open>Lib_Strtol\<close> the parsing of numbers.  A scan for a byte that may
  run past the end of a string is a partial function, and the theorems say for which strings it ends.

  \<^bold>\<open>Console.\<close>  \<open>Screen\<close> models \<open>drivers/console/screen.c\<close>: cells, cursor and the parser of escape sequences.

  \<^bold>\<open>Memory\<close> (\<open>src/kernel/mm\<close>, \<open>src/kernel/process/vmspace.c\<close>).
  \<^item> \<open>Page\<close> models the buddy allocator of \<open>page.c\<close> with its bitmaps and free lists, and shows that allocating and freeing keep the
    blocks disjoint, merged and accounted for.
  \<^item> \<open>Page_Table\<close> models the page tables of the i386 (\<open>arch_vm.c\<close>) as little-endian words in the memory that the page
    allocator hands out; \<open>vm_inv\<close> types every page by its tag and counts references.  \<open>umap\<close> is the abstract
    mapping that the tables encode.
  \<^item> \<open>Vm\<close> models \<open>vm.c\<close>; \<open>Vm_Ops\<close> and \<open>Vm_Space\<close> prove what ranges of pages and whole tables do.  The views
    \<open>uread\<close> and \<open>uflags\<close> give the bytes and permissions a process sees and make copy-on-write invisible.
  \<^item> \<open>Vm_Areas\<close> models \<open>vmspace.c\<close>; \<open>Vm_Safety\<close> is the step relation of the operations on address spaces and
    holds the properties: pages keep their types, writable pages are not shared, copies to a process touch that process
    only, a fork gives a separate copy, destroying gives everything back.  The page allocator panics when it has no page left, so
    the steps require the pages they may need.

  \<^bold>\<open>Bounds.\<close>  Loops are structural or have a measure.  Numbers of pages, addresses and sizes are below \<open>2 ^ 32\<close>; the physical memory is
  at most \<open>PHYS_LIMIT\<close>.  \<open>K_Kernel\<close> bounds the counts of semaphores and the timeouts by the range of \<open>int\<close>.

  \<^bold>\<open>Not modelled.\<close>  The parts that are left out, with their sources under \<open>src/kernel\<close> unless stated otherwise:
  \<^item> Buffer cache: the cache of disk blocks above the block drivers.
  \<^item> Ext2 file system.
  \<^item> Inode cache, paths and file system service: message handlers that run in server threads on top of the inode
    cache; their effect is that of the file system operations below.
  \<^item> Device file system: a fixed table of device nodes.
  \<^item> Connections, endpoints and requests: message passing between threads, built from semaphores and mailboxes.
  \<^item> Pipes: a service thread per system that answers messages and polls.
  \<^item> Terminals.
  \<^item> Processes: creating, waiting for and ending processes; the address spaces they work with are modelled.
  \<^item> Signals.
  \<^item> File descriptors.
  \<^item> Program loading: reads ELF files through the file service.
  \<^item> Object pools: whether a pool has an object left is an argument of the operations that ask.
  \<^item> System calls: fetches arguments from user registers and calls the services.
  \<^item> Network: a wrapper around the lwIP stack, which is third-party code.
  \<^item> Time of day: reads hardware clocks and the tick counter.
  \<^item> Devices: tables of function pointers.
  \<^item> Console output and monitor: debugging output and commands.
  \<^item> Symbol lookup for back traces: parses debugging information of the kernel image for messages.
  \<^item> Interrupt dispatch: a table of handlers; the effect of an interrupt on the scheduler is modelled.
  \<^item> Start and hooks: initialisation in a fixed order.
  \<^item> Keyboard and serial drivers: device registers.
  \<^item> i386 boot, traps and devices: device registers, descriptor tables and assembly.
  \<^item> ARM boot, traps, page tables and devices: interrupt masking and spinlocks of the ARM are modelled.
  \<^item> User library: one-line wrappers of system calls around newlib; malloc.c is third-party code.
  \<^item> User programs.
  Of the modelled files, the boot-time page allocation, the kernel mapping, the loading of a file into an address
  space and the floating-point conversions of \<open>__printf.c\<close> are left out.
\<close>

end
